(* ===== verification/Ulo_Prelude.thy ===== *)
theory Ulo_Prelude
  imports Main "HOL-Library.While_Combinator"
begin

text \<open>
  Shared vocabulary of the development: the lemma collections the component theories extend, the
  total-correctness rule for \<open>while\<close> loops, the standard-library operations on lists and text that
  several components use, and graphs given by successor lists, which is how the wiring pass hands
  its dependency graph to the cycle check and to the scope pass.
\<close>

section \<open>Lemma collections\<close>

named_theorems graph_simps \<open>accessors of the frozen graph\<close>
named_theorems queue_defs \<open>operations of the queues and channels\<close>
named_theorems route_simps \<open>route shapes and segments\<close>

section \<open>Loops\<close>

text \<open>
  A Rust \<open>while\<close> loop is \<^const>\<open>while_option\<close> over a record or tuple of its variables: the value
  \<^const>\<open>None\<close> is a loop that does not end. The rule below is the one every loop of the
  development is proved with; it gives a result, not only a property of a result.
\<close>

lemma while_option_total:
  assumes inv0: "I s"
    and step: "\<And>s. I s \<Longrightarrow> b s \<Longrightarrow> I (c s)"
    and wf: "wf r"
    and dec: "\<And>s. I s \<Longrightarrow> b s \<Longrightarrow> (c s, s) \<in> r"
  obtains t where "while_option b c s = Some t" "I t" "\<not> b t"
proof -
  have sub: "{(t, s). (I s \<and> b s) \<and> t = c s} \<subseteq> r" using dec by auto
  have "\<exists>t. while_option b c s = Some t"
    by (rule wf_while_option_Some [where P = I, OF wf_subset [OF wf sub]]) (auto intro: step inv0)
  then obtain t where t: "while_option b c s = Some t" ..
  moreover have "I t" using while_option_rule [where P = I, OF _ t] step inv0 by blast
  moreover have "\<not> b t" using t by (rule while_option_stop)
  ultimately show thesis by (rule that)
qed

lemma while_option_measure2:
  fixes f g :: "'s \<Rightarrow> nat"
  assumes "I s"
    and "\<And>s. I s \<Longrightarrow> b s \<Longrightarrow> I (c s)"
    and "\<And>s. I s \<Longrightarrow> b s \<Longrightarrow> f (c s) < f s \<or> f (c s) = f s \<and> g (c s) < g s"
  obtains t where "while_option b c s = Some t" "I t" "\<not> b t"
proof (rule while_option_total [of I s b c "measures [f, g]"])
  show "I s" by fact
  show "\<And>s. I s \<Longrightarrow> b s \<Longrightarrow> I (c s)" by fact
  show "wf (measures [f, g])" by simp
  show "\<And>s. I s \<Longrightarrow> b s \<Longrightarrow> (c s, s) \<in> measures [f, g]" using assms(3) by auto
qed (rule that)

text \<open>A \<open>for\<close> loop whose body may not end.\<close>

fun fold_option :: "('a \<Rightarrow> 's \<Rightarrow> 's option) \<Rightarrow> 'a list \<Rightarrow> 's \<Rightarrow> 's option" where
  "fold_option f [] s = Some s"
| "fold_option f (x # xs) s = (case f x s of None \<Rightarrow> None | Some t \<Rightarrow> fold_option f xs t)"

lemma fold_option_append: "fold_option f (xs @ ys) s = (case fold_option f xs s of None \<Rightarrow> None | Some t \<Rightarrow> fold_option f ys t)"
  by (induction xs arbitrary: s) (auto split: option.split)

lemma fold_option_rule:
  assumes "I 0 s"
    and "\<And>i s. i < length xs \<Longrightarrow> I i s \<Longrightarrow> \<exists>t. f (xs ! i) s = Some t \<and> I (Suc i) t"
  shows "\<exists>t. fold_option f xs s = Some t \<and> I (length xs) t"
  using assms
proof (induction xs arbitrary: I s)
  case Nil
  from Nil(1) show ?case by simp
next
  case (Cons x xs)
  have "\<exists>t. f x s = Some t \<and> I (Suc 0) t" using Cons.prems(2) [of 0 s] Cons.prems(1) by simp
  then obtain t where t: "f x s = Some t" "I (Suc 0) t" by blast
  have "\<exists>u. f (xs ! i) s = Some u \<and> I (Suc (Suc i)) u" if "i < length xs" "I (Suc i) s" for i s
    using Cons.prems(2) [of "Suc i" s] that by simp
  then have "\<exists>u. fold_option f xs t = Some u \<and> I (Suc (length xs)) u"
    using Cons.IH [of "\<lambda>i. I (Suc i)" t] t(2) by blast
  then show ?case using t(1) by simp
qed

section \<open>Lists\<close>

lemma sorted_wrt_inj_on: "sorted_wrt (\<lambda>a b. f b < (f a :: 'b :: linorder)) xs \<Longrightarrow> inj_on f (set xs)"
proof (induction xs)
  case (Cons x xs)
  then have "f x \<notin> f ` (set xs - {x})" by (metis Diff_iff image_iff less_irrefl sorted_wrt.simps(2))
  with Cons show ?case by (simp add: inj_on_insert)
qed simp

lemma sorted_wrt_distinct: "sorted_wrt (\<lambda>a b. f b < (f a :: 'b :: linorder)) xs \<Longrightarrow> distinct xs"
  by (induction xs) auto


lemma distinct_by_take:
  assumes "\<And>i. i < length xs \<Longrightarrow> xs ! i \<notin> set (take i xs)"
  shows "distinct xs"
proof -
  have "xs ! k \<noteq> xs ! l" if "k < l" "l < length xs" for k l
  proof
    assume "xs ! k = xs ! l"
    moreover have "take l xs ! k \<in> set (take l xs)" using that by (intro nth_mem) simp
    ultimately show False using assms [of l] that by simp
  qed
  then show ?thesis unfolding distinct_conv_nth by (metis linorder_neqE_nat)
qed

text \<open>\<open>iter().position(p)\<close>: the index of the first element satisfying \<open>p\<close>.\<close>

fun position_of :: "('a \<Rightarrow> bool) \<Rightarrow> 'a list \<Rightarrow> nat option" where
  "position_of p [] = None"
| "position_of p (x # xs) = (if p x then Some 0 else map_option Suc (position_of p xs))"

lemma position_of_Some:
  "position_of p xs = Some i \<Longrightarrow> i < length xs \<and> p (xs ! i) \<and> (\<forall>j < i. \<not> p (xs ! j))"
proof (induction xs arbitrary: i)
  case (Cons x xs)
  show ?case
  proof (cases "p x")
    case True
    with Cons.prems show ?thesis by simp
  next
    case False
    with Cons.prems obtain k where k: "position_of p xs = Some k" "i = Suc k" by auto
    from Cons.IH [OF k(1)] False k(2) show ?thesis by (auto simp: nth_Cons split: nat.splits)
  qed
qed simp

lemma position_of_None: "position_of p xs = None \<longleftrightarrow> (\<forall>x \<in> set xs. \<not> p x)"
  by (induction xs) auto

text \<open>\<open>slice::get\<close>.\<close>

definition get_nth :: "'a list \<Rightarrow> nat \<Rightarrow> 'a option" where
  "get_nth xs i = (if i < length xs then Some (xs ! i) else None)"

lemma get_nth_append [simp]: "get_nth (xs @ y # ys) (length xs) = Some y"
  by (simp add: get_nth_def)

text \<open>\<open>str::split(c)\<close>, and the text its pieces are cut from.\<close>

fun split_on :: "'a \<Rightarrow> 'a list \<Rightarrow> 'a list list" where
  "split_on c [] = [[]]"
| "split_on c (x # xs) =
     (if x = c then [] # split_on c xs else (x # hd (split_on c xs)) # tl (split_on c xs))"

fun join_on :: "'a \<Rightarrow> 'a list list \<Rightarrow> 'a list" where
  "join_on c [] = []"
| "join_on c [p] = p"
| "join_on c (p # q # ps) = p @ c # join_on c (q # ps)"

lemma split_on_nonempty [simp]: "split_on c s \<noteq> []"
  by (cases s) simp_all

lemma split_on_piece: "p \<in> set (split_on c s) \<Longrightarrow> c \<notin> set p \<and> set p \<subseteq> set s"
proof (induction s arbitrary: p)
  case (Cons x xs)
  obtain q qs where q: "split_on c xs = q # qs" by (cases "split_on c xs") auto
  then have "c \<notin> set r \<and> set r \<subseteq> set xs" if "r \<in> set (q # qs)" for r using Cons.IH [of r] that by simp
  with q Cons.prems show ?case by (fastforce split: if_splits)
qed simp

lemma split_on_plain: "c \<notin> set p \<Longrightarrow> split_on c p = [p]"
  by (induction p) auto

lemma split_on_append: "c \<notin> set p \<Longrightarrow> split_on c (p @ c # s) = p # split_on c s"
  by (induction p) auto

lemma split_join: "ps \<noteq> [] \<Longrightarrow> (\<And>p. p \<in> set ps \<Longrightarrow> c \<notin> set p) \<Longrightarrow> split_on c (join_on c ps) = ps"
  by (induction c ps rule: join_on.induct) (simp_all add: split_on_plain split_on_append)

lemma join_split: "join_on c (split_on c s) = s"
proof (induction s)
  case (Cons x xs)
  obtain q qs where "split_on c xs = q # qs" by (cases "split_on c xs") auto
  with Cons show ?case by (cases qs) auto
qed simp

text \<open>\<open>iter().find_map(f)\<close>.\<close>

fun find_map :: "('a \<Rightarrow> 'b option) \<Rightarrow> 'a list \<Rightarrow> 'b option" where
  "find_map f [] = None"
| "find_map f (x # xs) = (case f x of Some y \<Rightarrow> Some y | None \<Rightarrow> find_map f xs)"

lemma find_map_None: "find_map f xs = None \<longleftrightarrow> (\<forall>x \<in> set xs. f x = None)"
  by (induction xs) (auto split: option.splits)

lemma find_map_Some: "find_map f xs = Some y \<Longrightarrow> \<exists>x \<in> set xs. f x = Some y"
  by (induction xs) (auto split: option.splits)

lemma find_Some_set: "find p xs = Some x \<Longrightarrow> x \<in> set xs \<and> p x"
  by (induction xs) (auto split: if_splits)

lemma find_None_set: "find p xs = None \<longleftrightarrow> (\<forall>x \<in> set xs. \<not> p x)"
  by (induction xs) auto

text \<open>\<open>List.map_filter\<close> under its own name in proofs.\<close>

lemma map_filter_set: "set (List.map_filter f xs) = {y. \<exists>x \<in> set xs. f x = Some y}"
  by (force simp: List.map_filter_def)

text \<open>An index in range, written as membership.\<close>

lemma nth_mem_upt: "i < length xs \<Longrightarrow> (i, xs ! i) \<in> set (List.enumerate 0 xs)"
  by (simp add: in_set_enumerate_eq)

section \<open>Decimal text\<close>

text \<open>\<open>format!("{n}")\<close> of an unsigned integer.\<close>

definition digit_char :: "nat \<Rightarrow> char" where
  "digit_char d = char_of (48 + d)"

fun decimal :: "nat \<Rightarrow> string" where
  "decimal n = (if n < 10 then [digit_char n] else decimal (n div 10) @ [digit_char (n mod 10)])"

declare decimal.simps [simp del]

lemma decimal_nonempty [simp]: "decimal n \<noteq> []"
  by (subst decimal.simps) simp

section \<open>Graphs given by successor lists\<close>

text \<open>
  \<open>ss ! i\<close> lists the successors of node \<open>i\<close>, in the order the code visits them. Successors at or
  beyond the node count are no edges: the code skips them.
\<close>

type_synonym succ_lists = "nat list list"

definition edges_of :: "succ_lists \<Rightarrow> (nat \<times> nat) set" where
  "edges_of ss = {(i, j). i < length ss \<and> j < length ss \<and> j \<in> set (ss ! i)}"

lemma edges_of_iff: "(i, j) \<in> edges_of ss \<longleftrightarrow> i < length ss \<and> j < length ss \<and> j \<in> set (ss ! i)"
  by (simp add: edges_of_def)

lemma edges_of_bounded: "edges_of ss \<subseteq> {..<length ss} \<times> {..<length ss}"
  by (auto simp: edges_of_def)

lemma rtrancl_edges_bounded: "(i, j) \<in> (edges_of ss)\<^sup>* \<Longrightarrow> i < length ss \<Longrightarrow> j < length ss"
  by (induction rule: rtrancl_induct) (auto simp: edges_of_iff)

lemma finite_edges_of [simp]: "finite (edges_of ss)"
  by (rule finite_subset [OF edges_of_bounded]) simp

text \<open>A set closed under a relation holds everything reachable from it.\<close>

lemma closed_rtrancl:
  assumes "\<And>x y. x \<in> A \<Longrightarrow> (x, y) \<in> r \<Longrightarrow> y \<in> A" and "(x, y) \<in> r\<^sup>*" and "x \<in> A"
  shows "y \<in> A"
  using assms(2,3) by (induction rule: rtrancl_induct) (auto intro: assms(1))

text \<open>The strongly connected component of a node.\<close>

definition scc_of :: "('a \<times> 'a) set \<Rightarrow> 'a \<Rightarrow> 'a set" where
  "scc_of r v = {w. (v, w) \<in> r\<^sup>* \<and> (w, v) \<in> r\<^sup>*}"

lemma scc_of_self [simp]: "v \<in> scc_of r v"
  by (simp add: scc_of_def)

lemma scc_of_eq: "w \<in> scc_of r v \<Longrightarrow> scc_of r w = scc_of r v"
  by (auto simp: scc_of_def intro: rtrancl_trans)

lemma acyclic_scc_iff:
  "acyclic r \<longleftrightarrow> (\<forall>v. (v, v) \<notin> r \<and> scc_of r v = {v})"
proof
  assume ac: "acyclic r"
  show "\<forall>v. (v, v) \<notin> r \<and> scc_of r v = {v}"
  proof (intro allI conjI)
    fix v
    show "(v, v) \<notin> r" using ac by (auto simp: acyclic_def)
    show "scc_of r v = {v}"
      using ac by (auto simp: scc_of_def acyclic_def rtrancl_eq_or_trancl dest: trancl_trans)
  qed
next
  assume h: "\<forall>v. (v, v) \<notin> r \<and> scc_of r v = {v}"
  show "acyclic r"
    unfolding acyclic_def
  proof (intro allI notI)
    fix x assume "(x, x) \<in> r\<^sup>+"
    then obtain y where y: "(x, y) \<in> r" "(y, x) \<in> r\<^sup>*" by (blast dest: tranclD)
    then have "y \<in> scc_of r x" by (auto simp: scc_of_def)
    with h y(1) show False by auto
  qed
qed

end
