(* ===== verification/Tarjan.thy ===== *)
theory Tarjan
  imports Ulo_Prelude
begin

text \<open>
  \<open>strongly_connected\<close> of \<open>crates/ulo/src/graph/cycles.rs\<close>: Tarjan's algorithm, iterative, over
  successor lists. The locale \<open>tarjan_state\<close> is what holds between two steps of its loop; each
  kind of step is one lemma that establishes the locale for the state after it. The result is that
  the loop ends and that what it returns is exactly the strongly connected components.
\<close>

section \<open>The algorithm\<close>

text \<open>
  \<open>UNVISITED\<close>, the value \<open>usize::MAX\<close> no index reaches, is \<^const>\<open>None\<close>. The vectors \<open>stack\<close> and
  \<open>calls\<close> grow and shrink at one end only, which is the head of the list here.
\<close>

record tarjan =
  tj_index :: "nat option list"
  tj_low :: "nat list"
  tj_on_stack :: "bool list"
  tj_stack :: "nat list"
  tj_components :: "nat list list"
  tj_next :: nat
  tj_calls :: "(nat \<times> nat) list"

definition tarjan_init :: "succ_lists \<Rightarrow> tarjan" where
  "tarjan_init ss =
     \<lparr>tj_index = replicate (length ss) None, tj_low = replicate (length ss) 0,
      tj_on_stack = replicate (length ss) False, tj_stack = [], tj_components = [],
      tj_next = 0, tj_calls = []\<rparr>"

definition tarjan_visit :: "nat \<Rightarrow> tarjan \<Rightarrow> tarjan" where
  "tarjan_visit v s =
     s\<lparr>tj_index := (tj_index s)[v := Some (tj_next s)],
       tj_low := (tj_low s)[v := tj_next s],
       tj_next := tj_next s + 1,
       tj_stack := v # tj_stack s,
       tj_on_stack := (tj_on_stack s)[v := True],
       tj_calls := (v, 0) # tj_calls s\<rparr>"

text \<open>The inner loop: \<open>(component, stack, on_stack)\<close> after popping down to \<open>node\<close>.\<close>

fun pop_component :: "nat \<Rightarrow> nat list \<Rightarrow> bool list \<Rightarrow> nat list \<times> nat list \<times> bool list" where
  "pop_component node [] on_stack = ([], [], on_stack)"
| "pop_component node (member # stack) on_stack =
     (if member = node then ([member], stack, on_stack[member := False])
      else (let (component, rest, on_stack') = pop_component node stack (on_stack[member := False])
            in (member # component, rest, on_stack')))"

definition tarjan_follow :: "succ_lists \<Rightarrow> nat \<Rightarrow> nat \<Rightarrow> tarjan \<Rightarrow> tarjan" where
  "tarjan_follow ss node successor s =
     (if length ss \<le> successor then s
      else if tj_index s ! successor = None then tarjan_visit successor s
      else if tj_on_stack s ! successor
        then s\<lparr>tj_low := (tj_low s)[node := min (tj_low s ! node) (the (tj_index s ! successor))]\<rparr>
      else s)"

definition tarjan_leave :: "nat \<Rightarrow> tarjan \<Rightarrow> tarjan" where
  "tarjan_leave node s =
     (let s = (case tj_calls s of
                 [] \<Rightarrow> s
               | (parent, _) # _ \<Rightarrow>
                   s\<lparr>tj_low := (tj_low s)[parent := min (tj_low s ! parent) (tj_low s ! node)]\<rparr>)
      in if tj_low s ! node = the (tj_index s ! node)
         then (let (component, stack, on_stack) = pop_component node (tj_stack s) (tj_on_stack s)
               in s\<lparr>tj_stack := stack, tj_on_stack := on_stack,
                    tj_components := tj_components s @ [component]\<rparr>)
         else s)"

definition tarjan_step :: "succ_lists \<Rightarrow> tarjan \<Rightarrow> tarjan" where
  "tarjan_step ss s =
     (case tj_calls s of
        [] \<Rightarrow> s
      | (node, position) # rest \<Rightarrow>
          if position < length (ss ! node)
          then tarjan_follow ss node (ss ! node ! position) (s\<lparr>tj_calls := (node, Suc position) # rest\<rparr>)
          else tarjan_leave node (s\<lparr>tj_calls := rest\<rparr>))"

definition tarjan_root :: "succ_lists \<Rightarrow> nat \<Rightarrow> tarjan \<Rightarrow> tarjan option" where
  "tarjan_root ss root s =
     (if tj_index s ! root \<noteq> None then Some s
      else while_option (\<lambda>s. tj_calls s \<noteq> []) (tarjan_step ss) (tarjan_visit root (s\<lparr>tj_calls := []\<rparr>)))"

definition strongly_connected :: "succ_lists \<Rightarrow> nat list list option" where
  "strongly_connected ss =
     map_option tj_components (fold_option (tarjan_root ss) [0..<length ss] (tarjan_init ss))"

section \<open>What holds between two steps\<close>

text \<open>The last frame opened at or before the node: the frame the node was reached under.\<close>

definition near :: "(nat \<Rightarrow> nat) \<Rightarrow> (nat \<times> nat) list \<Rightarrow> nat \<Rightarrow> nat \<Rightarrow> bool" where
  "near ix calls g v \<longleftrightarrow> g \<in> fst ` set calls \<and> ix g \<le> ix v \<and>
     (\<forall>h \<in> fst ` set calls. ix h \<le> ix v \<longrightarrow> ix h \<le> ix g)"

text \<open>The edges the loop has followed: every edge of a node it has left, and of a node it is in those
  before the frame's position.\<close>

definition followed_edge :: "succ_lists \<Rightarrow> (nat \<times> nat) list \<Rightarrow> nat \<Rightarrow> nat \<Rightarrow> bool" where
  "followed_edge ss calls v u \<longleftrightarrow>
     (v, u) \<in> edges_of ss \<and> (\<forall>p. (v, p) \<in> set calls \<longrightarrow> u \<in> set (take p (ss ! v)))"

locale tarjan_state =
  fixes ss :: succ_lists and ix low :: "nat \<Rightarrow> nat" and V :: "nat set"
    and st :: "nat list" and cs :: "nat list list" and calls :: "(nat \<times> nat) list" and nxt :: nat
  assumes in_range: "V \<subseteq> {..<length ss}"
    and stack: "set st = V - set (concat cs)"
    and desc: "sorted_wrt (\<lambda>a b. ix b < ix a) st"
    and fresh: "v \<in> V \<Longrightarrow> ix v < nxt"
    and comps: "c \<in> set cs \<Longrightarrow> v \<in> set c \<Longrightarrow> set c = scc_of (edges_of ss) v"
    and nonempty: "[] \<notin> set cs"
    and comps_distinct: "distinct (concat cs)"
    and comps_visited: "set (concat cs) \<subseteq> V"
    and closed: "v \<in> set (concat cs) \<Longrightarrow> (v, w) \<in> edges_of ss \<Longrightarrow> w \<in> set (concat cs)"
    and frames: "fst ` set calls \<subseteq> set st"
    and chain: "sorted_wrt (\<lambda>a b. ix b < ix a \<and> (b, a) \<in> (edges_of ss)\<^sup>*) (map fst calls)"
    and followed: "v \<in> V \<Longrightarrow> followed_edge ss calls v w \<Longrightarrow> w \<in> V"
    and home: "v \<in> set st \<Longrightarrow> \<exists>g. near ix calls g v \<and> (v, g) \<in> (edges_of ss)\<^sup>* \<and> (g, v) \<in> (edges_of ss)\<^sup>*"
    and low_stack: "v \<in> fst ` set calls \<Longrightarrow> \<exists>w \<in> set st. ix w = low v \<and> ix w \<le> ix v \<and> (v, w) \<in> (edges_of ss)\<^sup>*"
    and low_bound: "v \<in> set st \<Longrightarrow> near ix calls g v \<Longrightarrow> followed_edge ss calls v w \<Longrightarrow> w \<in> set st \<Longrightarrow> low g \<le> ix w"
begin

lemma ix_inj: "a \<in> set st \<Longrightarrow> b \<in> set st \<Longrightarrow> ix a = ix b \<Longrightarrow> a = b"
  using sorted_wrt_inj_on [OF desc] by (auto simp: inj_on_def)

lemma stack_distinct: "distinct st"
  using desc by (rule sorted_wrt_distinct)

lemma top_max: "calls = (v, p) # rest \<Longrightarrow> h \<in> fst ` set calls \<Longrightarrow> ix h \<le> ix v"
  using chain by force

lemma frames_distinct: "distinct (map fst calls)"
  using sorted_wrt_mono_rel [OF _ chain, of "\<lambda>a b. ix b < ix a"] sorted_wrt_distinct by blast

lemma frame_pos: "(v, p) \<in> set calls \<Longrightarrow> (v, q) \<in> set calls \<Longrightarrow> p = q"
  using frames_distinct by (meson eq_key_imp_eq_value)

lemma near_top:
  assumes "calls = (v, p) # rest" "x \<in> set st" "ix v \<le> ix x"
  shows "near ix calls g x \<longleftrightarrow> g = v"
proof
  assume "near ix calls g x"
  then have "g \<in> fst ` set calls" "ix v \<le> ix g" using assms by (auto simp: near_def)
  then show "g = v" using top_max [OF assms(1)] frames assms(1) by (metis antisym fst_conv image_eqI ix_inj list.set_intros(1) subsetD)
next
  assume "g = v"
  then show "near ix calls g x" using assms top_max by (auto simp: near_def)
qed

lemma no_frames: "calls = [] \<Longrightarrow> st = []"
  using home by (cases st) (auto simp: near_def)

lemma followed_step:
  assumes calls: "calls = (v, p) # rest" and p: "p < length (ss ! v)"
    and f: "followed_edge ss ((v, Suc p) # rest) x w"
  shows "followed_edge ss calls x w \<or> (x = v \<and> w = ss ! v ! p)"
proof (cases "x = v")
  case True
  then have "w \<in> set (take (Suc p) (ss ! v))" using f by (simp add: followed_edge_def)
  then have "w = ss ! v ! p \<or> w \<in> set (take p (ss ! v))" using p by (auto simp: take_Suc_conv_app_nth)
  moreover have "(v, q) \<in> set calls \<Longrightarrow> q = p" for q using frame_pos [of v q p] calls by simp
  ultimately show ?thesis using f True by (auto simp: followed_edge_def)
next
  case False
  then show ?thesis using f calls by (auto simp: followed_edge_def)
qed

text \<open>The top frame moves past a successor that is out of range or already visited.\<close>

lemma advance:
  assumes calls: "calls = (v, p) # rest" and p: "p < length (ss ! v)"
    and u: "ss ! v ! p < length ss \<Longrightarrow> ss ! v ! p \<in> V"
    and l: "low' = low \<and> ss ! v ! p \<notin> set st \<or>
            low' = low(v := min (low v) (ix (ss ! v ! p))) \<and> ss ! v ! p \<in> set st"
  shows "tarjan_state ss ix low' V st cs ((v, Suc p) # rest) nxt"
proof -
  let ?u = "ss ! v ! p" and ?calls = "(v, Suc p) # rest"
  have fsts: "fst ` set ?calls = fst ` set calls" "map fst ?calls = map fst calls" using calls by auto
  have near_eq: "near ix ?calls = near ix calls" by (intro ext) (simp only: near_def fsts)
  have v: "v \<in> set st" using frames calls by auto
  have vu: "?u \<in> set st \<Longrightarrow> (v, ?u) \<in> edges_of ss"
    using in_range stack v p by (auto simp: edges_of_iff)
  note new = followed_step [OF calls p]
  have low': "low' g \<le> low g" for g using l by auto
  have lu: "?u \<in> set st \<Longrightarrow> low' v \<le> ix ?u" using l by auto
  show ?thesis
  proof (unfold_locales, goal_cases)
    case (12 x w)
    from new [OF 12(2)] show ?case
      using followed [OF 12(1)] u 12(2) by (auto simp: followed_edge_def edges_of_iff)
  next
    case (14 x)
    then obtain w where w: "w \<in> set st" "ix w = low x" "ix w \<le> ix x" "(x, w) \<in> (edges_of ss)\<^sup>*"
      using low_stack fsts by metis
    show ?case
    proof (cases "low' x = low x")
      case True
      then show ?thesis using w by auto
    next
      case False
      then have "x = v" "?u \<in> set st" "low' v = ix ?u" using l by (auto split: if_splits simp: min_def)
      moreover have "ix ?u \<le> ix v" using low' [of v] w calculation by simp
      ultimately show ?thesis using vu by auto
    qed
  next
    case (15 x g w)
    show ?case
    proof (cases "followed_edge ss calls x w")
      case True
      then show ?thesis using low_bound 15 low' [of g] near_eq by (metis le_trans)
    next
      case False
      then have "x = v" "w = ?u" using new [OF 15(3)] by auto
      moreover have "g = v" using near_top [OF calls v] 15(2) near_eq calculation by simp
      ultimately show ?thesis using lu 15(4) by simp
    qed
  qed (use in_range stack desc fresh comps nonempty comps_distinct comps_visited closed frames chain home
       in \<open>simp_all only: fsts near_eq simp_thms\<close>)
qed

text \<open>A new node is entered, from the top frame or as a root.\<close>

lemma enter:
  assumes u: "u < length ss" "u \<notin> V"
    and via: "calls = [] \<and> calls0 = [] \<or>
      (\<exists>v p rest. calls = (v, p) # rest \<and> calls0 = (v, Suc p) # rest \<and> p < length (ss ! v) \<and> u = ss ! v ! p)"
  shows "tarjan_state ss (ix(u := nxt)) (low(u := nxt)) (insert u V) (u # st) cs ((u, 0) # calls0) (Suc nxt)"
proof -
  let ?ix = "ix(u := nxt)" and ?calls = "(u, 0) # calls0"
  have m: "map fst calls0 = map fst calls" using via by auto
  have fsts: "fst ` set calls0 = fst ` set calls" using arg_cong [OF m, of set] by simp
  have stV: "set st \<subseteq> V" using stack by auto
  then have frV: "fst ` set calls \<subseteq> V" using frames by auto
  have ixV: "x \<in> V \<Longrightarrow> ?ix x = ix x" for x using u by auto
  have uc: "u \<notin> set (concat cs)" using u comps_visited by auto
  have near_st: "near ?ix ?calls g x \<longleftrightarrow> near ix calls g x" if "x \<in> set st" for g x
  proof -
    have x: "x \<in> V" "\<not> nxt \<le> ix x" "x \<noteq> u" using that stV fresh [of x] u by auto
    moreover have "h \<noteq> u" if "h \<in> fst ` set calls" for h using that frV u by auto
    ultimately show ?thesis by (auto simp: near_def fsts)
  qed
  have near_u: "near ?ix ?calls g u \<longleftrightarrow> g = u" for g
    using frV fresh u by (auto simp: near_def fsts)
  have reach_u: "(b, u) \<in> (edges_of ss)\<^sup>*" if b: "b \<in> fst ` set calls" for b
  proof -
    obtain v p rest where c: "calls = (v, p) # rest" "p < length (ss ! v)" "u = ss ! v ! p" using via b by auto
    have "(b, v) \<in> (edges_of ss)\<^sup>*" using chain c(1) b by auto
    moreover have "(v, u) \<in> edges_of ss" using c u frV in_range by (auto simp: edges_of_iff)
    ultimately show ?thesis by (rule rtrancl_into_rtrancl)
  qed
  have new: "x \<noteq> u \<and> (followed_edge ss calls x w \<or> w = u \<and> (\<exists>p rest. calls = (x, p) # rest))"
    if f: "followed_edge ss ?calls x w" for x w
  proof -
    have xu: "x \<noteq> u" and f0: "followed_edge ss calls0 x w" using f by (auto simp: followed_edge_def)
    from via show ?thesis
    proof (elim disjE exE conjE)
      assume "calls = []" "calls0 = []"
      then show ?thesis using xu f0 by simp
    next
      fix v p rest
      assume c: "calls = (v, p) # rest" "calls0 = (v, Suc p) # rest" "p < length (ss ! v)" "u = ss ! v ! p"
      from followed_step [OF c(1,3)] f0 [unfolded c(2)] xu c(1,4) show ?thesis by blast
    qed
  qed
  show ?thesis
  proof (unfold_locales, goal_cases)
    case 1 show ?case using in_range u by auto
  next
    case 2 show ?case using stack uc by auto
  next
    case 3
    have "sorted_wrt (\<lambda>a b. ?ix b < ?ix a) st"
      by (rule sorted_wrt_mono_rel [OF _ desc]) (use stV u in auto)
    then show ?case using stV fresh u by auto
  next
    case (4 v) then show ?case using fresh [of v] u by (cases "v = u") auto
  next
    case (5 c v) then show ?case by (rule comps)
  next
    case 6 show ?case by (rule nonempty)
  next
    case 7 show ?case by (rule comps_distinct)
  next
    case 8 show ?case using comps_visited by auto
  next
    case (9 v w) then show ?case by (rule closed)
  next
    case 10 show ?case using frames fsts by auto
  next
    case 11
    have "sorted_wrt (\<lambda>a b. ?ix b < ?ix a \<and> (b, a) \<in> (edges_of ss)\<^sup>*) (map fst calls)"
      by (rule sorted_wrt_mono_rel [OF _ chain]) (use frV u in auto)
    then show ?case using frV fresh u reach_u by (auto simp: m)
  next
    case (12 x w) then show ?case using new [OF 12(2)] followed [of x w] by auto
  next
    case (13 x) then show ?case using home [of x] near_st near_u by (cases "x = u") auto
  next
    case (14 x)
    show ?case
    proof (cases "x = u")
      case False
      then have "x \<in> fst ` set calls" using 14 fsts by auto
      then obtain w where "w \<in> set st" "ix w = low x" "ix w \<le> ix x" "(x, w) \<in> (edges_of ss)\<^sup>*"
        using low_stack by blast
      then show ?thesis using False u stV frV by (intro bexI [of _ w]) auto
    qed auto
  next
    case (15 x g w)
    have xu: "x \<noteq> u" and x: "x \<in> set st" using new [OF 15(3)] 15(1) by auto
    have g: "near ix calls g x" using 15(2) near_st x by simp
    then have gu: "g \<noteq> u" "g \<in> fst ` set calls" using frV u by (auto simp: near_def)
    from new [OF 15(3)] consider "followed_edge ss calls x w" | p rest where "w = u" "calls = (x, p) # rest" by auto
    then show ?case
    proof cases
      case 1
      then have "w \<in> V" using followed x stV by auto
      then have "w \<in> set st" "w \<noteq> u" using 15(4) u by auto
      then show ?thesis using low_bound [OF x g 1] gu by simp
    next
      case 2
      then have "g = x" using near_top [OF 2(2) x] g by simp
      moreover have "low g \<le> ix g" using low_stack [OF gu(2)] by auto
      moreover have "ix g < nxt" using fresh gu(2) frV by auto
      ultimately show ?thesis using gu 2 by simp
    qed
  qed
qed

text \<open>The top frame has no successor left.\<close>

lemma followed_all:
  assumes "calls = (c, p) # rest" "length (ss ! c) \<le> p" "(x, w) \<in> edges_of ss" "x = c \<or> x \<notin> fst ` set calls"
  shows "followed_edge ss calls x w"
proof -
  have "(c, q) \<in> set calls \<Longrightarrow> q = p" for q using frame_pos [of c q p] assms(1) by simp
  then show ?thesis using assms(2-4) by (auto simp: followed_edge_def edges_of_iff image_iff)
qed

lemma followed_rest:
  assumes "calls = (c, p) # rest" "length (ss ! c) \<le> p" "followed_edge ss rest x w"
  shows "followed_edge ss calls x w"
proof (cases "x = c")
  case True
  then show ?thesis using followed_all [OF assms(1,2)] assms(3) by (simp add: followed_edge_def)
next
  case False
  then show ?thesis using assms(1,3) by (auto simp: followed_edge_def)
qed

lemma rest_below: "calls = (c, p) # rest \<Longrightarrow> h \<in> fst ` set rest \<Longrightarrow> ix h < ix c"
  using chain by auto

lemma near_rest_below:
  "calls = (c, p) # rest \<Longrightarrow> ix x < ix c \<Longrightarrow> near ix rest g x \<longleftrightarrow> near ix calls g x"
  by (auto simp: near_def)

lemma stack_top_part:
  assumes "st = a @ c # b"
  shows "set (a @ [c]) = {x \<in> set st. ix c \<le> ix x}" "set b = {x \<in> set st. ix x < ix c}"
  using desc assms by (auto simp: sorted_wrt_append less_imp_le)

text \<open>The top frame is the root of a component: the part of the stack down to it is that component.\<close>

lemma component:
  assumes calls: "calls = (c, p) # rest" and p: "length (ss ! c) \<le> p" and low: "low c = ix c"
    and st: "st = a @ c # b"
  shows "set (a @ [c]) = scc_of (edges_of ss) c"
    and "x \<in> set (a @ [c]) \<Longrightarrow> (x, w) \<in> edges_of ss \<Longrightarrow> w \<in> set (a @ [c]) \<union> set (concat cs)"
proof -
  let ?T = "set (a @ [c])" and ?D = "set (concat cs)"
  have c: "c \<in> set st" using st by simp
  have T: "x \<in> ?T \<longleftrightarrow> x \<in> set st \<and> ix c \<le> ix x" for x using stack_top_part(1) [OF st] by auto
  have succ: "w \<in> ?T \<union> ?D" if x: "x \<in> ?T" and e: "(x, w) \<in> edges_of ss" for x w
  proof -
    have xs: "x \<in> set st" "ix c \<le> ix x" using x T by auto
    have "x = c \<or> x \<notin> fst ` set calls" using xs top_max [OF calls, of x] ix_inj [of x c] c by fastforce
    then have f: "followed_edge ss calls x w" by (rule followed_all [OF calls p e])
    then have "w \<in> V" using followed xs stack by auto
    moreover have "ix c \<le> ix w" if "w \<in> set st"
      using low_bound [OF xs(1) _ f that] near_top [OF calls xs] low by simp
    ultimately show ?thesis using T stack by auto
  qed
  then show "x \<in> ?T \<Longrightarrow> (x, w) \<in> edges_of ss \<Longrightarrow> w \<in> ?T \<union> ?D" .
  show "?T = scc_of (edges_of ss) c"
  proof (intro equalityI subsetI)
    fix x assume "x \<in> ?T"
    then have xs: "x \<in> set st" "ix c \<le> ix x" using T by auto
    from home [OF xs(1)] near_top [OF calls xs] show "x \<in> scc_of (edges_of ss) c" by (auto simp: scc_of_def)
  next
    fix x assume x: "x \<in> scc_of (edges_of ss) c"
    have xc: "(c, x) \<in> (edges_of ss)\<^sup>*" "(x, c) \<in> (edges_of ss)\<^sup>*" using x by (auto simp: scc_of_def)
    have "z \<in> ?T \<union> ?D" if "y \<in> ?T \<union> ?D" "(y, z) \<in> edges_of ss" for y z
      using that succ [of y z] closed [of y z] by blast
    then have "x \<in> ?T \<union> ?D" by (rule closed_rtrancl [OF _ xc(1)]) auto
    moreover have "c \<in> ?D" if "x \<in> ?D" by (rule closed_rtrancl [OF closed xc(2) that])
    ultimately show "x \<in> ?T" using c stack by auto
  qed
qed

lemma leave_root:
  assumes calls: "calls = (c, p) # rest" and p: "length (ss ! c) \<le> p" and low: "low c = ix c"
    and st: "st = a @ c # b"
  shows "tarjan_state ss ix low V b (cs @ [a @ [c]]) rest nxt"
proof -
  note T = stack_top_part [OF st]
  note scc = component [OF calls p low st]
  have below: "x \<in> set b \<Longrightarrow> x \<in> set st \<and> ix x < ix c" for x using T(2) by auto
  note near_b = near_rest_below [OF calls]
  show ?thesis
  proof (unfold_locales, goal_cases)
    case 1 show ?case by (rule in_range)
  next
    case 2 show ?case using stack stack_distinct st by auto
  next
    case 3 show ?case using desc st by (simp add: sorted_wrt_append)
  next
    case (4 v) then show ?case by (rule fresh)
  next
    case (5 d v)
    then consider "d \<in> set cs" | "d = a @ [c]" by auto
    then show ?case
    proof cases
      case 1 then show ?thesis using 5(2) by (rule comps)
    next
      case 2
      then have "v \<in> scc_of (edges_of ss) c" using 5(2) scc(1) by blast
      from scc_of_eq [OF this] show ?thesis using 2 scc(1) by metis
    qed
  next
    case 6 show ?case using nonempty by simp
  next
    case 7 show ?case using comps_distinct stack_distinct stack st by auto
  next
    case 8 show ?case using comps_visited stack st by auto
  next
    case (9 v w) then show ?case using scc(2) [of v w] closed [of v w] by auto
  next
    case 10 show ?case using frames rest_below [OF calls] calls T(2) by auto
  next
    case 11 show ?case using chain calls by simp
  next
    case (12 x w) then show ?case using followed followed_rest [OF calls p] by blast
  next
    case (13 x) then show ?case using home [of x] near_b [of x] below by blast
  next
    case (14 x)
    then have x: "x \<in> fst ` set calls" "ix x < ix c" using calls rest_below [OF calls] by auto
    with low_stack [OF x(1)] T(2) show ?case by fastforce
  next
    case (15 x g w)
    then show ?case using low_bound near_b below followed_rest [OF calls p] by blast
  qed
qed

text \<open>The top frame hands its low link to its parent and stays on the stack.\<close>

lemma leave_low:
  assumes calls: "calls = (c, p) # rest" and p: "length (ss ! c) \<le> p" and low: "low c \<noteq> ix c"
  shows "\<exists>q r rest'. rest = (q, r) # rest' \<and>
    tarjan_state ss ix (low(q := min (low q) (low c))) V st cs rest nxt"
proof -
  let ?R = "(edges_of ss)\<^sup>*"
  have cf: "c \<in> fst ` set calls" using calls by auto
  then have cst: "c \<in> set st" using frames by blast
  obtain w where w: "w \<in> set st" "ix w = low c" "ix w < ix c" "(c, w) \<in> ?R"
    using low_stack [OF cf] low by force
  obtain g where g: "near ix calls g w" "(w, g) \<in> ?R" using home [OF w(1)] by blast
  then have gr: "g \<in> fst ` set rest" using w(3) calls by (auto simp: near_def)
  then obtain q r rest' where rest: "rest = (q, r) # rest'" by (cases rest) auto
  have q: "q \<in> fst ` set calls" "ix q < ix c" "(q, c) \<in> ?R" using chain calls rest by auto
  have q_max: "h \<in> fst ` set rest \<Longrightarrow> ix h \<le> ix q \<and> (h, q) \<in> ?R" for h using chain calls rest by auto
  have cq: "(c, q) \<in> ?R" using w(4) g(2) q_max [OF gr] by auto
  have qst: "q \<in> set st" using q(1) frames by blast
  have above: "near ix rest h x \<longleftrightarrow> h = q" if "x \<in> set st" "ix c \<le> ix x" for h x
  proof
    assume h: "near ix rest h x"
    then have "h \<in> fst ` set rest" "ix q \<le> ix h" using that q(2) rest by (auto simp: near_def)
    then show "h = q" using q_max [of h] ix_inj [of h q] frames calls qst by auto
  next
    assume "h = q"
    then show "near ix rest h x" using that q(2) q_max rest by (auto simp: near_def)
  qed
  note near_b = near_rest_below [OF calls]
  define low' where "low' = low(q := min (low q) (low c))"
  have low': "low' h \<le> low h" "low' q \<le> low c" for h by (auto simp: low'_def)
  have "tarjan_state ss ix low' V st cs rest nxt"
  proof (unfold_locales, goal_cases)
    case 10 show ?case using frames calls by auto
  next
    case 11 show ?case using chain calls by simp
  next
    case (12 x w) then show ?case using followed followed_rest [OF calls p] by blast
  next
    case (13 x)
    show ?case
    proof (cases "ix c \<le> ix x")
      case True
      then have "(x, c) \<in> ?R" "(c, x) \<in> ?R" using home [OF 13] near_top [OF calls 13] by auto
      then have "(x, q) \<in> ?R" "(q, x) \<in> ?R" using cq q(3) by auto
      then show ?thesis using above [OF 13 True] by blast
    next
      case False
      then show ?thesis using home [OF 13] near_b [of x] by auto
    qed
  next
    case (14 x)
    then have x: "x \<in> fst ` set calls" using calls by auto
    obtain y where y: "y \<in> set st" "ix y = low x" "ix y \<le> ix x" "(x, y) \<in> ?R" using low_stack [OF x] by blast
    show ?case
    proof (cases "low' x = low x")
      case True
      then show ?thesis using y by auto
    next
      case False
      then have "x = q" "low' q = low c" by (auto simp: low'_def min_def split: if_splits)
      moreover have "ix w \<le> ix q" using low'(1) [of q] calculation y w(2) by simp
      moreover have "(q, w) \<in> ?R" using q(3) w(4) by auto
      ultimately show ?thesis using w by auto
    qed
  next
    case (15 x h y)
    have f: "followed_edge ss calls x y" using followed_rest [OF calls p 15(3)] .
    show ?case
    proof (cases "ix c \<le> ix x")
      case True
      then have "h = q" "low c \<le> ix y"
        using above [OF 15(1)] 15(2) low_bound [OF 15(1) _ f 15(4)] near_top [OF calls 15(1) True] by auto
      then show ?thesis using low'(2) by simp
    next
      case False
      then have "low h \<le> ix y" using low_bound [OF 15(1) _ f 15(4)] near_b [of x h] 15(2) by auto
      then show ?thesis using low'(1) [of h] by simp
    qed
  qed (use in_range stack desc fresh comps nonempty comps_distinct comps_visited closed in simp_all)
  then show ?thesis using rest unfolding low'_def by blast
qed

end

section \<open>The loop\<close>

abbreviation tj_ix :: "tarjan \<Rightarrow> nat \<Rightarrow> nat" where
  "tj_ix s \<equiv> \<lambda>v. the (tj_index s ! v)"

definition tj_visited :: "tarjan \<Rightarrow> nat set" where
  "tj_visited s = {v. v < length (tj_index s) \<and> tj_index s ! v \<noteq> None}"

definition tarjan_ok :: "succ_lists \<Rightarrow> tarjan \<Rightarrow> bool" where
  "tarjan_ok ss s \<longleftrightarrow>
     length (tj_index s) = length ss \<and> length (tj_low s) = length ss \<and> length (tj_on_stack s) = length ss \<and>
     (\<forall>v < length ss. tj_on_stack s ! v \<longleftrightarrow> v \<in> set (tj_stack s)) \<and>
     tarjan_state ss (tj_ix s) ((!) (tj_low s)) (tj_visited s) (tj_stack s) (tj_components s) (tj_calls s) (tj_next s)"

interpretation tj_init: tarjan_state ss "tj_ix (tarjan_init ss)" "(!) (tj_low (tarjan_init ss))"
  "tj_visited (tarjan_init ss)" "tj_stack (tarjan_init ss)" "tj_components (tarjan_init ss)"
  "tj_calls (tarjan_init ss)" "tj_next (tarjan_init ss)" for ss
  by unfold_locales (auto simp: tarjan_init_def tj_visited_def)

lemma tarjan_init_ok: "tarjan_ok ss (tarjan_init ss)"
  using tj_init.tarjan_state_axioms by (simp add: tarjan_ok_def) (simp add: tarjan_init_def)

lemma nth_update_fun: "v < length xs \<Longrightarrow> (!) (xs[v := x]) = ((!) xs)(v := x)"
  by (auto simp: fun_eq_iff nth_list_update_neq)

lemma the_nth_update_fun: "v < length xs \<Longrightarrow> (\<lambda>w. the (xs[v := Some x] ! w)) = (\<lambda>w. the (xs ! w))(v := x)"
  by (auto simp: fun_eq_iff nth_list_update_neq)

lemma visited_update:
  "v < length xs \<Longrightarrow> {w. w < length (xs[v := Some x]) \<and> xs[v := Some x] ! w \<noteq> None} =
     insert v {w. w < length xs \<and> xs ! w \<noteq> None}"
  by (auto simp: nth_list_update)

lemma tarjan_visit_ok:
  assumes ok: "tarjan_ok ss s" and u: "u < length ss" "tj_index s ! u = None"
    and via: "tj_calls s = [] \<and> calls0 = [] \<or>
      (\<exists>v p rest. tj_calls s = (v, p) # rest \<and> calls0 = (v, Suc p) # rest \<and> p < length (ss ! v) \<and> u = ss ! v ! p)"
  shows "tarjan_ok ss (tarjan_visit u (s\<lparr>tj_calls := calls0\<rparr>))"
proof -
  have u': "u \<notin> tj_visited s" using u by (simp add: tj_visited_def)
  have st: "tarjan_state ss (tj_ix s) ((!) (tj_low s)) (tj_visited s) (tj_stack s) (tj_components s) (tj_calls s) (tj_next s)"
    using ok by (simp add: tarjan_ok_def)
  note ent = tarjan_state.enter [OF st u(1) u' via]
  have l: "u < length (tj_index s)" "u < length (tj_low s)" using ok u by (auto simp: tarjan_ok_def)
  let ?t = "tarjan_visit u (s\<lparr>tj_calls := calls0\<rparr>)"
  have t: "tj_index ?t = (tj_index s)[u := Some (tj_next s)]" "tj_low ?t = (tj_low s)[u := tj_next s]"
    by (simp_all add: tarjan_visit_def)
  have "tj_ix ?t = (tj_ix s)(u := tj_next s)" "(!) (tj_low ?t) = ((!) (tj_low s))(u := tj_next s)"
    "tj_visited ?t = insert u (tj_visited s)"
    by (simp_all only: t tj_visited_def nth_update_fun [OF l(2)] the_nth_update_fun [OF l(1)] visited_update [OF l(1)])
  with ent have "tarjan_state ss (tj_ix ?t) ((!) (tj_low ?t)) (tj_visited ?t)
      (u # tj_stack s) (tj_components s) ((u, 0) # calls0) (Suc (tj_next s))" by (simp only:)
  then show ?thesis
    using ok u(1) unfolding tarjan_ok_def
    by (simp add: tarjan_visit_def nth_list_update)
qed

lemma pop_component_conv:
  "c \<notin> set a \<Longrightarrow> pop_component c (a @ c # b) os = (a @ [c], b, fold (\<lambda>m os. os[m := False]) (a @ [c]) os)"
  by (induction a arbitrary: os) auto

lemma fold_clear:
  "length (fold (\<lambda>m os. os[m := False]) ms os) = length os \<and>
   (v < length os \<longrightarrow> fold (\<lambda>m os. os[m := False]) ms os ! v = (os ! v \<and> v \<notin> set ms))"
proof (induction ms arbitrary: os)
  case (Cons m ms)
  then show ?case by (cases "v = m") (simp_all add: nth_list_update_neq [of m v])
qed simp

lemma tarjan_leave_ok:
  assumes ok: "tarjan_ok ss s" and calls: "tj_calls s = (c, p) # rest" and p: "length (ss ! c) \<le> p"
  shows "tarjan_ok ss (tarjan_leave c (s\<lparr>tj_calls := rest\<rparr>)) \<and>
         tj_index (tarjan_leave c (s\<lparr>tj_calls := rest\<rparr>)) = tj_index s \<and>
         tj_calls (tarjan_leave c (s\<lparr>tj_calls := rest\<rparr>)) = rest"
proof -
  have st: "tarjan_state ss (tj_ix s) ((!) (tj_low s)) (tj_visited s) (tj_stack s) (tj_components s) (tj_calls s) (tj_next s)"
    using ok by (simp add: tarjan_ok_def)
  note F = tarjan_state.frames [OF st] tarjan_state.chain [OF st] tarjan_state.low_stack [OF st]
  have cst: "c \<in> set (tj_stack s)" using F(1) calls by auto
  have len: "q < length ss" if "q \<in> set (tj_stack s)" for q
    using tarjan_state.stack [OF st] tarjan_state.in_range [OF st] that by auto
  have parent: "q \<noteq> c" "q < length ss" "tj_low s ! q \<le> tj_ix s q" "tj_ix s q < tj_ix s c"
    if "rest = (q, r) # rest'" for q r rest'
    using that F(1,2) F(3) [of q] calls len [of q] by auto
  show ?thesis
  proof (cases "tj_low s ! c = tj_ix s c")
    case False
    obtain q r rest' where rest: "rest = (q, r) # rest'"
      and new: "tarjan_state ss (tj_ix s) (((!) (tj_low s))(q := min (tj_low s ! q) (tj_low s ! c)))
        (tj_visited s) (tj_stack s) (tj_components s) rest (tj_next s)"
      using tarjan_state.leave_low [OF st calls p False] by blast
    have eq: "tarjan_leave c (s\<lparr>tj_calls := rest\<rparr>) =
        s\<lparr>tj_calls := rest, tj_low := (tj_low s)[q := min (tj_low s ! q) (tj_low s ! c)]\<rparr>"
      using rest False parent [OF rest] by (simp add: tarjan_leave_def)
    have low: "q < length (tj_low s)" using ok parent [OF rest] by (simp add: tarjan_ok_def)
    show ?thesis
      using ok new unfolding eq tarjan_ok_def
      by (simp add: tj_visited_def nth_update_fun [OF low] del: fun_upd_apply)
  next
    case True
    obtain a b where ab: "tj_stack s = a @ c # b" "c \<notin> set a" using cst by (metis split_list_first)
    note new = tarjan_state.leave_root [OF st calls p True ab(1)]
    have low: "rest = (q, r) # rest' \<Longrightarrow>
        (tj_low s)[q := min (tj_low s ! q) (tj_low s ! c)] = tj_low s" for q r rest'
      using parent [of q r rest'] True by (simp add: min_def)
    have os: "\<forall>v < length ss. fold (\<lambda>m os. os[m := False]) (a @ [c]) (tj_on_stack s) ! v \<longleftrightarrow> v \<in> set b"
      using ok ab tarjan_state.stack_distinct [OF st]
      by (auto simp: tarjan_ok_def fold_clear simp del: fold_append)
    have eq: "tarjan_leave c (s\<lparr>tj_calls := rest\<rparr>) =
        s\<lparr>tj_calls := rest, tj_stack := b, tj_on_stack := fold (\<lambda>m os. os[m := False]) (a @ [c]) (tj_on_stack s),
          tj_components := tj_components s @ [a @ [c]]\<rparr>"
      using True ab low pop_component_conv [OF ab(2), of b "tj_on_stack s"]
      by (cases rest) (auto simp: tarjan_leave_def Let_def)
    show ?thesis
      using ok new os by (simp add: eq tarjan_ok_def tj_visited_def fold_clear del: fold_append)
  qed
qed

text \<open>Each step keeps the state and either visits a node or shortens what the frames have left.\<close>

definition unvisited_count :: "tarjan \<Rightarrow> nat" where
  "unvisited_count s = card {v. v < length (tj_index s) \<and> tj_index s ! v = None}"

definition frames_left :: "succ_lists \<Rightarrow> tarjan \<Rightarrow> nat" where
  "frames_left ss s = sum_list (map (\<lambda>(v, p). Suc (length (ss ! v) - p)) (tj_calls s))"

lemma unvisited_visit:
  assumes "u < length (tj_index s)" "tj_index s ! u = None"
  shows "unvisited_count (tarjan_visit u s) < unvisited_count s"
proof -
  have "{v. v < length (tj_index (tarjan_visit u s)) \<and> tj_index (tarjan_visit u s) ! v = None} =
      {v. v < length (tj_index s) \<and> tj_index s ! v = None} - {u}"
    using assms(1) by (auto simp: tarjan_visit_def nth_list_update split: if_splits)
  moreover have "card ({v. v < length (tj_index s) \<and> tj_index s ! v = None} - {u}) <
      card {v. v < length (tj_index s) \<and> tj_index s ! v = None}"
    using assms by (intro card_Diff1_less) auto
  ultimately show ?thesis unfolding unvisited_count_def by simp
qed

lemma tarjan_step_ok:
  assumes ok: "tarjan_ok ss s" and busy: "tj_calls s \<noteq> []"
  shows "tarjan_ok ss (tarjan_step ss s) \<and>
    (unvisited_count (tarjan_step ss s) < unvisited_count s \<or>
     unvisited_count (tarjan_step ss s) = unvisited_count s \<and> frames_left ss (tarjan_step ss s) < frames_left ss s)"
proof -
  obtain v p rest where calls: "tj_calls s = (v, p) # rest" using busy by (cases "tj_calls s") auto
  have st: "tarjan_state ss (tj_ix s) ((!) (tj_low s)) (tj_visited s) (tj_stack s) (tj_components s) (tj_calls s) (tj_next s)"
    and len: "length (tj_index s) = length ss" "length (tj_low s) = length ss"
    and os: "\<forall>v < length ss. tj_on_stack s ! v \<longleftrightarrow> v \<in> set (tj_stack s)"
    using ok by (auto simp: tarjan_ok_def)
  have vlen: "v < length (tj_low s)"
    using tarjan_state.frames [OF st] tarjan_state.stack [OF st] tarjan_state.in_range [OF st] calls len by auto
  show ?thesis
  proof (cases "p < length (ss ! v)")
    case False
    then have "tarjan_step ss s = tarjan_leave v (s\<lparr>tj_calls := rest\<rparr>)" by (simp add: tarjan_step_def calls)
    then show ?thesis
      using tarjan_leave_ok [OF ok calls] False
      by (simp add: unvisited_count_def frames_left_def calls)
  next
    case p: True
    let ?u = "ss ! v ! p" and ?calls = "(v, Suc p) # rest"
    have step: "tarjan_step ss s = tarjan_follow ss v ?u (s\<lparr>tj_calls := ?calls\<rparr>)"
      using p by (simp add: tarjan_step_def calls)
    have left: "tj_calls t = ?calls \<Longrightarrow> frames_left ss t < frames_left ss s" for t
      using p by (simp add: frames_left_def calls)
    consider "?u < length ss" "tj_index s ! ?u = None" | "?u < length ss \<longrightarrow> tj_index s ! ?u \<noteq> None" by blast
    then show ?thesis
    proof cases
      case 1
      then have eq: "tarjan_step ss s = tarjan_visit ?u (s\<lparr>tj_calls := ?calls\<rparr>)"
        by (simp add: step tarjan_follow_def)
      have "tarjan_ok ss (tarjan_visit ?u (s\<lparr>tj_calls := ?calls\<rparr>))"
        by (rule tarjan_visit_ok [OF ok 1]) (use calls p in auto)
      then show ?thesis
        using eq unvisited_visit [of ?u "s\<lparr>tj_calls := ?calls\<rparr>"] 1 len by (simp add: unvisited_count_def)
    next
      case 2
      then have uV: "?u < length ss \<Longrightarrow> ?u \<in> tj_visited s" by (simp add: tj_visited_def len)
      have ust: "?u \<in> set (tj_stack s) \<Longrightarrow> ?u < length ss"
        using tarjan_state.stack [OF st] tarjan_state.in_range [OF st] by auto
      show ?thesis
      proof (cases "?u \<in> set (tj_stack s)")
        case True
        then have eq: "tarjan_step ss s =
            s\<lparr>tj_calls := ?calls, tj_low := (tj_low s)[v := min (tj_low s ! v) (tj_ix s ?u)]\<rparr>"
          using 2 os ust by (auto simp: step tarjan_follow_def)
        have "tarjan_state ss (tj_ix s) (((!) (tj_low s))(v := min (tj_low s ! v) (tj_ix s ?u)))
            (tj_visited s) (tj_stack s) (tj_components s) ?calls (tj_next s)"
          by (rule tarjan_state.advance [OF st calls p uV]) (use True in auto)
        then show ?thesis
          using ok left unfolding eq tarjan_ok_def
          by (simp add: tj_visited_def unvisited_count_def nth_update_fun [OF vlen] del: fun_upd_apply)
      next
        case False
        then have eq: "tarjan_step ss s = s\<lparr>tj_calls := ?calls\<rparr>"
          using 2 os by (auto simp: step tarjan_follow_def)
        have "tarjan_state ss (tj_ix s) ((!) (tj_low s)) (tj_visited s) (tj_stack s) (tj_components s) ?calls (tj_next s)"
          by (rule tarjan_state.advance [OF st calls p uV]) (use False in auto)
        then show ?thesis
          using ok left unfolding eq tarjan_ok_def by (simp add: tj_visited_def unvisited_count_def)
      qed
    qed
  qed
qed

lemma tarjan_step_index:
  "tj_index (tarjan_step ss t) = tj_index t \<or> (\<exists>u x. tj_index (tarjan_step ss t) = (tj_index t)[u := Some x])"
proof -
  have leave: "tj_index (tarjan_leave c t) = tj_index t" for c t
    by (simp add: tarjan_leave_def Let_def split: list.splits prod.splits)
  have follow: "tj_index (tarjan_follow ss v u t) \<in> {tj_index t, (tj_index t)[u := Some (tj_next t)]}" for v u t
    by (simp add: tarjan_follow_def tarjan_visit_def)
  show ?thesis
  proof (cases "tj_calls t")
    case (Cons f rest)
    obtain v p where f: "f = (v, p)" by force
    show ?thesis
    proof (cases "p < length (ss ! v)")
      case True
      then show ?thesis
        using follow [of v "ss ! v ! p" "t\<lparr>tj_calls := (v, Suc p) # rest\<rparr>"] Cons f
        unfolding tarjan_step_def by (simp, blast)
    next
      case False
      then show ?thesis
        using leave [of v "t\<lparr>tj_calls := rest\<rparr>"] Cons f by (simp add: tarjan_step_def)
    qed
  qed (simp add: tarjan_step_def)
qed

lemma tarjan_root_ok:
  assumes ok: "tarjan_ok ss s" and idle: "tj_calls s = []" and r: "root < length ss"
    and before: "{..<root} \<subseteq> tj_visited s"
  shows "\<exists>t. tarjan_root ss root s = Some t \<and> tarjan_ok ss t \<and> tj_calls t = [] \<and> {..<Suc root} \<subseteq> tj_visited t"
proof (cases "tj_index s ! root = None")
  case False
  then show ?thesis
    using assms by (auto simp: tarjan_root_def tj_visited_def tarjan_ok_def lessThan_Suc)
next
  case True
  let ?s = "tarjan_visit root (s\<lparr>tj_calls := []\<rparr>)"
  define I where "I t \<longleftrightarrow> tarjan_ok ss t \<and> {..<Suc root} \<subseteq> tj_visited t" for t
  have upd: "xs ! v \<noteq> None \<Longrightarrow> v < length xs \<Longrightarrow> xs[u := Some x] ! v \<noteq> None" for xs :: "nat option list" and u v x
    by (cases "u = v") simp_all
  have mono: "tj_visited t \<subseteq> tj_visited (tarjan_step ss t)" for t
  proof (cases "tj_index (tarjan_step ss t) = tj_index t")
    case False
    then obtain u x where "tj_index (tarjan_step ss t) = (tj_index t)[u := Some x]"
      using tarjan_step_index by blast
    then have "v < length (tj_index (tarjan_step ss t)) \<and> tj_index (tarjan_step ss t) ! v \<noteq> None"
      if "v < length (tj_index t)" "tj_index t ! v \<noteq> None" for v
      using that upd [of "tj_index t" v u x] by (simp only: length_list_update simp_thms)
    then show ?thesis unfolding tj_visited_def by blast
  qed (simp add: tj_visited_def)
  have "tarjan_ok ss ?s" by (rule tarjan_visit_ok [OF ok r True]) (simp add: idle)
  moreover have "{..<Suc root} \<subseteq> tj_visited ?s"
    using before r ok by (auto simp: tarjan_visit_def tj_visited_def tarjan_ok_def nth_list_update less_Suc_eq)
  ultimately have init: "I ?s" by (simp add: I_def)
  have keep: "I (tarjan_step ss t)" if "I t" "tj_calls t \<noteq> []" for t
    using that tarjan_step_ok [of ss t] mono [of t] by (auto simp: I_def)
  have dec: "unvisited_count (tarjan_step ss t) < unvisited_count t \<or>
      unvisited_count (tarjan_step ss t) = unvisited_count t \<and> frames_left ss (tarjan_step ss t) < frames_left ss t"
    if "I t" "tj_calls t \<noteq> []" for t using that tarjan_step_ok [of ss t] by (simp add: I_def)
  obtain t where t: "while_option (\<lambda>s. tj_calls s \<noteq> []) (tarjan_step ss) ?s = Some t" "I t" "\<not> tj_calls t \<noteq> []"
    by (rule while_option_measure2 [of I ?s "\<lambda>s. tj_calls s \<noteq> []" "tarjan_step ss" unvisited_count "frames_left ss",
          OF init keep dec])
  have "tarjan_root ss root s = Some t" unfolding tarjan_root_def t(1) by (simp only: True simp_thms if_False)
  then show ?thesis using t(2,3) unfolding I_def by blast
qed

lemma strongly_connected_result:
  "\<exists>cs. strongly_connected ss = Some cs \<and> distinct (concat cs) \<and> set (concat cs) = {..<length ss} \<and>
     [] \<notin> set cs \<and> (\<forall>c \<in> set cs. \<forall>v \<in> set c. set c = scc_of (edges_of ss) v)"
proof -
  define I where "I i s \<longleftrightarrow> tarjan_ok ss s \<and> tj_calls s = [] \<and> {..<i} \<subseteq> tj_visited s" for i s
  have "\<exists>t. fold_option (tarjan_root ss) [0..<length ss] (tarjan_init ss) = Some t \<and> I (length [0..<length ss]) t"
  proof (rule fold_option_rule)
    show "I 0 (tarjan_init ss)"
      using tarjan_init_ok [of ss] by (simp add: I_def) (simp add: tarjan_init_def)
    show "\<exists>t. tarjan_root ss ([0..<length ss] ! i) s = Some t \<and> I (Suc i) t"
      if "i < length [0..<length ss]" "I i s" for i s
      using that tarjan_root_ok [of ss s i] by (auto simp: I_def)
  qed
  then obtain t where t: "fold_option (tarjan_root ss) [0..<length ss] (tarjan_init ss) = Some t"
    and ok: "tarjan_ok ss t" "tj_calls t = []" and all: "{..<length ss} \<subseteq> tj_visited t" by (auto simp: I_def)
  have st: "tarjan_state ss (tj_ix t) ((!) (tj_low t)) (tj_visited t) (tj_stack t) (tj_components t) (tj_calls t) (tj_next t)"
    using ok by (simp add: tarjan_ok_def)
  have "tj_visited t = {..<length ss}" using all tarjan_state.in_range [OF st] by blast
  moreover have "tj_stack t = []" by (rule tarjan_state.no_frames [OF st ok(2)])
  ultimately have "set (concat (tj_components t)) = {..<length ss}"
    using tarjan_state.stack [OF st] tarjan_state.comps_visited [OF st] by auto
  moreover have "strongly_connected ss = Some (tj_components t)" by (simp add: strongly_connected_def t)
  ultimately show ?thesis
    using tarjan_state.comps_distinct [OF st] tarjan_state.nonempty [OF st] tarjan_state.comps [OF st] by blast
qed

end
