(* ===== verification/Keys.thy ===== *)
theory Keys
  imports Ulo_Prelude "HOL-Library.AList"
begin

text \<open>
  Names and keys: \<open>crates/ulo/src/type_name.rs\<close>, \<open>key.rs\<close> and the module identities, settings and
  names of \<open>module/mod.rs\<close>. A key is a type and a qualifier; a report prints the short form of each
  name unless two different types of the report share it. The lemmas at the end state what the
  shortening keeps, which names a report prints in full, and how two registrations of one module
  compare.
\<close>

section \<open>Types\<close>

text \<open>
  A Rust type as the program sees it: its \<open>TypeId\<close> and its \<open>type_name\<close>. \<open>std::any::type_name\<close> is a
  function of the type, so the pair stands for the \<open>TypeId\<close> and the comparison of two \<open>TypeId\<close>s is
  equality of this datatype. Every \<open>TypeName\<close> and \<open>Qualifier\<close> of the source holds an id and the name
  of that same type, so both are this one value.
\<close>

datatype rust_type = RustType (type_no: nat) (type_text: string)

definition unit_type :: rust_type where
  "unit_type = RustType 0 ''()''"

record type_name =
  tn_id :: rust_type

abbreviation tn_full :: "type_name \<Rightarrow> string" where
  "tn_full n \<equiv> type_text (tn_id n)"

type_synonym location = "string \<times> nat \<times> nat"

section \<open>Short names\<close>

text \<open>
  Text is a list of characters. A character at or above 128 stands for non-ASCII text, which a type
  name holds only inside identifiers, where it is alphanumeric.
\<close>

definition is_ascii_alnum :: "char \<Rightarrow> bool" where
  "is_ascii_alnum c = (let n = of_char c :: nat in
     48 \<le> n \<and> n \<le> 57 \<or> 65 \<le> n \<and> n \<le> 90 \<or> 97 \<le> n \<and> n \<le> 122)"

definition is_path_char :: "char \<Rightarrow> bool" where
  "is_path_char c = (is_ascii_alnum c \<or> 128 \<le> (of_char c :: nat) \<or> c \<in> {CHR ''_'', CHR '':'', CHR ''{'', CHR ''}''})"

text \<open>\<open>str::strip_prefix\<close>.\<close>

definition strip_prefix :: "string \<Rightarrow> string \<Rightarrow> string option" where
  "strip_prefix p s = (if take (length p) s = p then Some (drop (length p) s) else None)"

text \<open>\<open>str::strip_suffix\<close>.\<close>

definition strip_suffix :: "string \<Rightarrow> string \<Rightarrow> string option" where
  "strip_suffix p s = map_option rev (strip_prefix (rev p) (rev s))"

text \<open>\<open>rfind("::")\<close>: the text before and after the last occurrence. The pattern reads the same in
  both directions, so it is the first occurrence in the reversed text.\<close>

fun until_colons :: "string \<Rightarrow> string \<times> string option" where
  "until_colons [] = ([], None)"
| "until_colons (c # cs) =
     (if take 2 (c # cs) = ''::'' then ([], Some (drop 1 cs))
      else (c # fst (until_colons cs), snd (until_colons cs)))"

definition rsplit_colons :: "string \<Rightarrow> string option \<times> string" where
  "rsplit_colons s = (let (a, b) = until_colons (rev s) in (map_option rev b, rev a))"

definition last_segment :: "string \<Rightarrow> string" where
  "last_segment path =
     (let (before, seg) = rsplit_colons path in
      (if take 1 seg = ''{'' then
         (case before of Some rest \<Rightarrow> snd (rsplit_colons rest) @ ''::'' | None \<Rightarrow> [])
       else []) @ seg)"

definition push_last_segment :: "string \<Rightarrow> string \<Rightarrow> string" where
  "push_last_segment out path =
     (case strip_prefix ''::'' path of
        Some tail \<Rightarrow> out @ ''::'' @ last_segment tail
      | None \<Rightarrow> out @ last_segment path)"

function (sequential) short_from :: "string \<Rightarrow> string \<Rightarrow> string" where
  "short_from out [] = out"
| "short_from out (c # cs) =
     (if is_path_char c
      then short_from (push_last_segment out (takeWhile is_path_char (c # cs))) (dropWhile is_path_char cs)
      else short_from (out @ [c]) cs)"
  by pat_completeness auto
termination
  by (relation "measure (\<lambda>(_, s). length s)") (auto simp: length_dropWhile_le le_imp_less_Suc)

definition short_type_name :: "string \<Rightarrow> string" where
  "short_type_name full = short_from [] full"

definition tn_text :: "type_name \<Rightarrow> string" where
  "tn_text n = short_type_name (tn_full n)"

text \<open>\<open>TypeName::written\<close>: the \<open>HashSet\<close> of names printed in full is a set.\<close>

definition written :: "type_name set \<Rightarrow> type_name \<Rightarrow> string" where
  "written full n = (if n \<in> full then tn_full n else short_type_name (tn_full n))"

text \<open>\<open>TypeName::colliding\<close>: the \<open>HashMap\<close> from text to the names printing so is an association list.\<close>

definition note_alike :: "('n \<Rightarrow> string) \<Rightarrow> 'n \<Rightarrow> (string \<times> 'n list) list \<Rightarrow> (string \<times> 'n list) list" where
  "note_alike text name by_text =
     (let alike = (case map_of by_text (text name) of Some a \<Rightarrow> a | None \<Rightarrow> []) in
      AList.update (text name) (if name \<in> set alike then alike else alike @ [name]) by_text)"

definition colliding_by :: "('n \<Rightarrow> string) \<Rightarrow> 'n list \<Rightarrow> 'n set" where
  "colliding_by text names =
     set (concat (filter (\<lambda>alike. 1 < length alike) (map snd (fold (note_alike text) names []))))"

definition colliding :: "type_name list \<Rightarrow> type_name set" where
  "colliding names = colliding_by tn_text names"

section \<open>Keys\<close>

record key =
  k_ty :: type_name
  k_qualifier :: type_name

datatype binding_kind = BK_Single | BK_Collection

record key_name =
  kn_key :: key
  kn_kind :: binding_kind

definition key_of :: "rust_type \<Rightarrow> rust_type \<Rightarrow> key" where
  "key_of t q = \<lparr>k_ty = \<lparr>tn_id = t\<rparr>, k_qualifier = \<lparr>tn_id = q\<rparr>\<rparr>"

definition requalified :: "rust_type \<Rightarrow> key \<Rightarrow> key" where
  "requalified q k = k\<lparr>k_qualifier := \<lparr>tn_id = q\<rparr>\<rparr>"

definition with_qualifier :: "rust_type \<Rightarrow> key \<Rightarrow> key" where
  "with_qualifier q k = k\<lparr>k_qualifier := \<lparr>tn_id = q\<rparr>\<rparr>"

definition is_unqualified :: "key \<Rightarrow> bool" where
  "is_unqualified k = (tn_id (k_qualifier k) = unit_type)"

definition key_qualifier :: "key \<Rightarrow> type_name option" where
  "key_qualifier k = (if is_unqualified k then None else Some (k_qualifier k))"

definition key_type_names :: "key \<Rightarrow> type_name list" where
  "key_type_names k = k_ty k # (case key_qualifier k of None \<Rightarrow> [] | Some q \<Rightarrow> [q])"

definition name_key :: "binding_kind \<Rightarrow> key \<Rightarrow> key_name" where
  "name_key kind k = \<lparr>kn_key = k, kn_kind = kind\<rparr>"

text \<open>\<open>role_spelling\<close>: the erased role traits print under the name a user writes.\<close>

definition role_alias :: "string \<Rightarrow> string option" where
  "role_alias seg =
     (if seg = ''ErasedGuard'' then Some ''AnyGuard''
      else if seg = ''ErasedInterceptor'' then Some ''AnyInterceptor''
      else if seg = ''ErasedErrorHandler'' then Some ''AnyErrorHandler''
      else None)"

definition role_spelling :: "string \<Rightarrow> string" where
  "role_spelling text =
     (case strip_prefix ''dyn '' text of
        None \<Rightarrow> text
      | Some rest \<Rightarrow>
          (let path = takeWhile (\<lambda>c. c \<noteq> CHR ''<'') rest;
               tail = dropWhile (\<lambda>c. c \<noteq> CHR ''<'') rest;
               (before, seg) = rsplit_colons path;
               lead = (case before of Some b \<Rightarrow> b @ ''::'' | None \<Rightarrow> [])
           in case role_alias seg of Some alias \<Rightarrow> lead @ alias @ tail | None \<Rightarrow> text))"

definition text_with :: "(type_name \<Rightarrow> string) \<Rightarrow> key \<Rightarrow> string" where
  "text_with name k =
     role_spelling (name (k_ty k)) @
     (case key_qualifier k of Some q \<Rightarrow> '' @ '' @ name q | None \<Rightarrow> [])"

definition key_text :: "bool \<Rightarrow> key \<Rightarrow> string" where
  "key_text full k = text_with (\<lambda>n. if full then tn_full n else tn_text n) k"

definition key_text_in :: "type_name set \<Rightarrow> key \<Rightarrow> string" where
  "key_text_in full k = text_with (written full) k"

definition with_kind :: "key_name \<Rightarrow> string \<Rightarrow> string" where
  "with_kind kn text = text @ (if kn_kind kn = BK_Collection then '' (collection)'' else [])"

definition key_name_text_in :: "type_name set \<Rightarrow> key_name \<Rightarrow> string" where
  "key_name_text_in full kn = with_kind kn (key_text_in full (kn_key kn))"

section \<open>Module identities, settings and names\<close>

text \<open>
  \<open>ConfigKey\<close> erases a configuration value to a hash and a comparison by value; the value is its
  type and a number standing for it.
\<close>

record config_key =
  ck_hash :: nat
  ck_value :: "rust_type \<times> nat"

record module_identity =
  mi_ty :: rust_type
  mi_config :: "config_key option"
  mi_qualifier :: "rust_type option"
  mi_label :: "string option"

definition identity_eq :: "module_identity \<Rightarrow> module_identity \<Rightarrow> bool" where
  "identity_eq a b = (mi_ty a = mi_ty b \<and> mi_qualifier a = mi_qualifier b \<and> mi_config a = mi_config b)"

definition identity_keyed_by :: "rust_type \<Rightarrow> module_identity \<Rightarrow> module_identity" where
  "identity_keyed_by q i = i\<lparr>mi_qualifier := Some q\<rparr>"

record setting =
  st_name :: string
  st_value :: string
  st_at :: location

record repeat =
  rp_name :: string
  rp_first :: location
  rp_second :: location

record module_settings =
  ms_entries :: "setting list"
  ms_repeats :: "repeat list"

definition settings_new :: module_settings where
  "settings_new = \<lparr>ms_entries = [], ms_repeats = []\<rparr>"

definition settings_with :: "module_settings \<Rightarrow> string \<Rightarrow> string \<Rightarrow> location \<Rightarrow> module_settings" where
  "settings_with s name val at =
     (case find (\<lambda>w. st_name w = name) (ms_entries s) of
        Some first \<Rightarrow> s\<lparr>ms_repeats := ms_repeats s @ [\<lparr>rp_name = name, rp_first = st_at first, rp_second = at\<rparr>]\<rparr>
      | None \<Rightarrow> s\<lparr>ms_entries := ms_entries s @ [\<lparr>st_name = name, st_value = val, st_at = at\<rparr>]\<rparr>)"

definition settings_value :: "module_settings \<Rightarrow> string \<Rightarrow> string option" where
  "settings_value s name = map_option st_value (find (\<lambda>w. st_name w = name) (ms_entries s))"

definition settings_eq :: "module_settings \<Rightarrow> module_settings \<Rightarrow> bool" where
  "settings_eq a b =
     (length (ms_entries a) = length (ms_entries b) \<and>
      list_all (\<lambda>(x, y). st_name x = st_name y \<and> st_value x = st_value y) (zip (ms_entries a) (ms_entries b)))"

definition differences :: "module_settings \<Rightarrow> module_settings \<Rightarrow> (string \<times> string option \<times> string option) list" where
  "differences a b =
     (let names = map st_name (ms_entries a) @
                  filter (\<lambda>n. settings_value a n = None) (map st_name (ms_entries b))
      in List.map_filter (\<lambda>n. if settings_value a n \<noteq> settings_value b n
                               then Some (n, settings_value a n, settings_value b n) else None) names)"

record mod_name =
  mn_text :: string
  mn_full :: string

definition render_module :: "module_identity \<Rightarrow> nat \<Rightarrow> bool \<Rightarrow> string" where
  "render_module i inst full =
     (let path = (\<lambda>t. if full then type_text t else short_type_name (type_text t)) in
      (case mi_label i of
         Some l \<Rightarrow> if full then l @ '' ('' @ type_text (mi_ty i) @ '')'' else l
       | None \<Rightarrow> path (mi_ty i)) @
      (case mi_qualifier i of Some q \<Rightarrow> '' @ '' @ path q | None \<Rightarrow> []) @
      (if 0 < inst then '' #'' @ decimal (inst + 1) else []))"

definition module_name_of :: "module_identity \<Rightarrow> nat \<Rightarrow> mod_name" where
  "module_name_of i inst = \<lparr>mn_text = render_module i inst False, mn_full = render_module i inst True\<rparr>"

definition colliding_names :: "mod_name list \<Rightarrow> mod_name set" where
  "colliding_names names = colliding_by mn_text names"

section \<open>Short names are stable\<close>

lemma strip_prefix_Some: "strip_prefix p s = Some t \<longleftrightarrow> s = p @ t"
  by (auto simp: strip_prefix_def) (metis append_take_drop_id)

lemma until_colons_prefix: "\<exists>r. s = fst (until_colons s) @ r"
  by (induction s rule: until_colons.induct) auto

lemma until_colons_None: "snd (until_colons s) = None \<Longrightarrow> fst (until_colons s) = s"
  by (induction s rule: until_colons.induct) (auto split: if_splits)

lemma until_colons_fst: "until_colons (fst (until_colons s)) = (fst (until_colons s), None)"
proof (induction s rule: until_colons.induct)
  case (2 c cs)
  obtain r where "cs = fst (until_colons cs) @ r" using until_colons_prefix by blast
  then have "take 2 (c # fst (until_colons cs)) = ''::'' \<Longrightarrow> take 2 (c # cs) = ''::''"
    by (cases "fst (until_colons cs)") (auto simp: numeral_2_eq_2)
  with 2 show ?case by auto
qed simp

lemma until_colons_cut:
  assumes "until_colons a = (a, None)" and "a \<noteq> []" and "last a \<noteq> CHR '':''"
  shows "until_colons (a @ ''::'' @ b) = (a, Some b)"
  using assms
proof (induction a)
  case (Cons c a)
  then show ?case
    by (cases a) (auto simp: numeral_2_eq_2 split: if_splits prod.splits)
qed simp

lemma rsplit_last_stable: "rsplit_colons (snd (rsplit_colons s)) = (None, snd (rsplit_colons s))"
  by (simp add: rsplit_colons_def case_prod_unfold Let_def until_colons_fst)

lemma rsplit_whole: "rsplit_colons l = (None, l) \<Longrightarrow> until_colons (rev l) = (rev l, None)"
  by (auto simp: rsplit_colons_def case_prod_unfold Let_def prod_eq_iff until_colons_None)

lemma rsplit_join:
  assumes "rsplit_colons l = (None, l)" and "take 1 l = ''{''"
  shows "rsplit_colons (b @ ''::'' @ l) = (Some b, l)"
proof -
  have "until_colons (rev l) = (rev l, None)" using assms(1) by (rule rsplit_whole)
  moreover have "rev l \<noteq> []" "last (rev l) \<noteq> CHR '':''"
    using assms(2) by (auto simp: last_rev hd_conv_nth) (cases l; simp)+
  ultimately show ?thesis
    using until_colons_cut [of "rev l" "rev b"] by (simp add: rsplit_colons_def)
qed

lemma last_segment_idem: "last_segment (last_segment p) = last_segment p"
proof -
  obtain b l where bl: "rsplit_colons p = (b, l)" by force
  have l: "rsplit_colons l = (None, l)" using rsplit_last_stable [of p] by (simp add: bl)
  show ?thesis
  proof (cases "take 1 l = ''{''")
    case False
    then show ?thesis by (simp add: last_segment_def bl l)
  next
    case True
    show ?thesis
    proof (cases b)
      case None
      then show ?thesis using True by (simp add: last_segment_def bl l)
    next
      case (Some r)
      define e where "e = snd (rsplit_colons r)"
      have e: "rsplit_colons e = (None, e)" unfolding e_def by (rule rsplit_last_stable)
      have "last_segment p = e @ ''::'' @ l" using True Some by (simp add: last_segment_def bl e_def)
      then show ?thesis using True e rsplit_join [OF l True, of e] by (simp add: last_segment_def)
    qed
  qed
qed

text \<open>One run of path characters, as \<open>push_last_segment\<close> writes it.\<close>

lemma push_last_segment_out: "push_last_segment out p = out @ push_last_segment [] p"
  by (simp add: push_last_segment_def split: option.splits)

lemma rsplit_no_prefix:
  assumes q: "rsplit_colons q = (None, q)"
  shows "strip_prefix ''::'' q = None"
proof (rule ccontr)
  have cut: "\<exists>x y. until_colons (x0 @ ''::'') = (x, Some y)" for x0
    by (induction x0) (auto simp: numeral_2_eq_2)
  assume "strip_prefix ''::'' q \<noteq> None"
  then have "q = ''::'' @ drop 2 q"
    by (auto simp: strip_prefix_def numeral_2_eq_2 split: if_splits) (metis append_take_drop_id append.simps)
  then have "rev q = rev (drop 2 q) @ ''::''"
    by (metis append_Cons append_Nil rev.simps(2) rev_append rev_singleton_conv)
  then show False using q cut [of "rev (drop 2 q)"] by (auto simp: rsplit_colons_def)
qed

lemma until_colons_snoc:
  "until_colons a = (a, None) \<Longrightarrow> last a = CHR ''{'' \<Longrightarrow> a \<noteq> [] \<Longrightarrow>
   until_colons (a @ '':'') = (a @ '':'', None)"
proof (induction a)
  case (Cons c a)
  then show ?case by (cases a) (auto simp: numeral_2_eq_2 prod_eq_iff split: if_splits)
qed simp

lemma last_segment_after_prefix:
  assumes t: "strip_prefix ''::'' (last_segment p) = Some t"
  shows "last_segment t = t"
proof -
  obtain b l where bl: "rsplit_colons p = (b, l)" by force
  have l: "rsplit_colons l = (None, l)" using rsplit_last_stable [of p] by (simp add: bl)
  have "\<not> (take 1 l = ''{'' \<and> b \<noteq> None) \<Longrightarrow> last_segment p = l" by (auto simp: last_segment_def bl)
  then obtain r where r: "b = Some r" "take 1 l = ''{''" using t rsplit_no_prefix [OF l] by force
  define e where "e = snd (rsplit_colons r)"
  have e: "rsplit_colons e = (None, e)" unfolding e_def by (rule rsplit_last_stable)
  have p: "last_segment p = e @ ''::'' @ l" using r by (simp add: last_segment_def bl e_def)
  show ?thesis
  proof (cases e)
    case Nil
    then have "t = l" using t p by (simp add: strip_prefix_def)
    then show ?thesis using l by (simp add: last_segment_def)
  next
    case (Cons c e')
    then have t2: "t = CHR '':'' # l"
      using t p rsplit_no_prefix [OF e]
      by (cases e') (auto simp: strip_prefix_def numeral_2_eq_2 split: if_splits)
    obtain d where "l = CHR ''{'' # d" using r(2) by (cases l) auto
    then have "rsplit_colons t = (None, t)"
      using until_colons_snoc [OF rsplit_whole [OF l]] by (simp add: rsplit_colons_def t2)
    then show ?thesis by (simp add: last_segment_def t2)
  qed
qed

lemma push_last_segment_idem: "push_last_segment [] (push_last_segment [] p) = push_last_segment [] p"
proof (cases "strip_prefix ''::'' p")
  case (Some t)
  then show ?thesis by (simp add: push_last_segment_def strip_prefix_def last_segment_idem)
next
  case None
  then show ?thesis
    by (auto simp: push_last_segment_def last_segment_idem last_segment_after_prefix strip_prefix_Some
        split: option.splits)
qed

lemma last_segment_chars: "set (last_segment p) \<subseteq> set p \<union> {CHR '':''}"
proof -
  have fst: "set (fst (until_colons s)) \<subseteq> set s" for s
    by (induction s rule: until_colons.induct) auto
  have snd: "snd (until_colons s) = Some r \<Longrightarrow> set r \<subseteq> set s" for s r
    by (induction s rule: until_colons.induct) (auto split: if_splits dest: in_set_dropD)
  have last: "set (snd (rsplit_colons q)) \<subseteq> set q" for q
    using fst [of "rev q"] by (simp add: rsplit_colons_def case_prod_unfold Let_def)
  have before: "fst (rsplit_colons q) = Some r \<Longrightarrow> set r \<subseteq> set q" for q r
    using snd [of "rev q"] by (auto simp: rsplit_colons_def case_prod_unfold Let_def)
  obtain b l where bl: "rsplit_colons p = (b, l)" by force
  have "set l \<subseteq> set p" using last [of p] by (simp add: bl)
  moreover have "b = Some r \<Longrightarrow> set (snd (rsplit_colons r)) \<subseteq> set p" for r
    using last [of r] before [of p r] by (simp add: bl)
  moreover have "last_segment p = l \<or> (\<exists>r. b = Some r \<and> last_segment p = snd (rsplit_colons r) @ ''::'' @ l)"
    by (cases b) (simp_all add: last_segment_def bl)
  ultimately show ?thesis by fastforce
qed

lemma push_last_segment_path:
  assumes "\<forall>c \<in> set p. is_path_char c"
  shows "\<forall>c \<in> set (push_last_segment [] p). is_path_char c"
proof -
  have colon: "is_path_char (CHR '':'')" by (simp add: is_path_char_def)
  have "\<forall>c \<in> set q. is_path_char c \<Longrightarrow> \<forall>c \<in> set (last_segment q). is_path_char c" for q
    using last_segment_chars [of q] colon by blast
  then show ?thesis
    using assms colon
    by (cases "strip_prefix ''::'' p") (simp_all add: push_last_segment_def strip_prefix_Some [symmetric], auto simp: strip_prefix_Some)
qed

lemma short_from_out: "short_from out s = out @ short_from [] s"
proof (induction "length s" arbitrary: out s rule: less_induct)
  case less
  show ?case
  proof (cases s)
    case (Cons c cs)
    let ?w = "takeWhile is_path_char (c # cs)" and ?t = "dropWhile is_path_char cs"
    have "length ?t < length s" using length_dropWhile_le [of is_path_char cs] Cons by simp
    note t = less [OF this]
    have "length cs < length s" using Cons by simp
    note cs = less [OF this]
    show ?thesis
    proof (cases "is_path_char c")
      case True
      then show ?thesis
        using Cons t [of "push_last_segment out ?w"] t [of "push_last_segment [] ?w"]
          push_last_segment_out [of out ?w] by simp
    next
      case False
      then show ?thesis using Cons cs [of "out @ [c]"] cs [of "[c]"] by simp
    qed
  qed simp
qed

lemma short_run:
  assumes "\<forall>c \<in> set w. is_path_char c" and "s = [] \<or> \<not> is_path_char (hd s)"
  shows "short_type_name (w @ s) = push_last_segment [] w @ short_type_name s"
proof (cases w)
  case Nil
  then show ?thesis
    by (simp add: push_last_segment_def strip_prefix_def last_segment_def rsplit_colons_def)
next
  case (Cons c cs)
  have "takeWhile is_path_char (cs @ s) = cs" "dropWhile is_path_char (cs @ s) = s"
    using assms Cons by (auto simp: takeWhile_append dropWhile_append) (cases s; simp)+
  then show ?thesis
    using assms(1) Cons short_from_out [of "push_last_segment [] w"] by (simp add: short_type_name_def)
qed

lemma short_split:
  "short_type_name s =
     push_last_segment [] (takeWhile is_path_char s) @ short_type_name (dropWhile is_path_char s)"
  using short_run [of "takeWhile is_path_char s" "dropWhile is_path_char s"]
  by (metis hd_dropWhile set_takeWhileD takeWhile_dropWhile_id)

lemma short_other: "\<not> is_path_char c \<Longrightarrow> short_type_name (c # s) = c # short_type_name s"
  using short_from_out [of "[c]" s] by (simp add: short_type_name_def)

lemma short_type_name_idem: "short_type_name (short_type_name s) = short_type_name s"
proof (induction "length s" arbitrary: s rule: less_induct)
  case less
  define w t where "w = takeWhile is_path_char s" and "t = dropWhile is_path_char s"
  have w: "\<forall>c \<in> set w. is_path_char c" unfolding w_def by (meson set_takeWhileD)
  have s: "short_type_name s = push_last_segment [] w @ short_type_name t"
    unfolding w_def t_def by (rule short_split)
  show ?case
  proof (cases t)
    case Nil
    then show ?thesis
      using s short_run [OF push_last_segment_path [OF w], of "[]"]
      by (simp add: push_last_segment_idem short_type_name_def)
  next
    case (Cons d ds)
    then have d: "\<not> is_path_char d" unfolding t_def by (metis hd_dropWhile list.distinct(1) list.sel(1))
    have "length ds < length s"
      using Cons length_dropWhile_le [of is_path_char s] unfolding t_def by simp
    then have "short_type_name (short_type_name ds) = short_type_name ds" by (rule less)
    then have "short_type_name (short_type_name t) = short_type_name t" using Cons d by (simp add: short_other)
    moreover have "hd (short_type_name t) = d" "short_type_name t \<noteq> []" using Cons d by (simp_all add: short_other)
    ultimately show ?thesis
      using s short_run [OF push_last_segment_path [OF w], of "short_type_name t"] d
      by (simp add: push_last_segment_idem)
  qed
qed

section \<open>Names printed in full\<close>

definition groups :: "('n \<Rightarrow> string) \<Rightarrow> 'n set \<Rightarrow> (string \<times> 'n list) list \<Rightarrow> bool" where
  "groups text seen m \<longleftrightarrow> distinct (map fst m) \<and>
     (\<forall>t alike. map_of m t = Some alike \<longrightarrow> distinct alike \<and> set alike = {n \<in> seen. text n = t}) \<and>
     (\<forall>n \<in> seen. map_of m (text n) \<noteq> None)"

lemma groups_note:
  assumes g: "groups text seen m"
  shows "groups text (insert n seen) (note_alike text n m)"
proof -
  define alike where "alike = (case map_of m (text n) of Some a \<Rightarrow> a | None \<Rightarrow> [])"
  have a: "distinct alike \<and> set alike = {x \<in> seen. text x = text n}"
    using g by (cases "map_of m (text n)") (auto simp: alike_def groups_def)
  define l where "l = (if n \<in> set alike then alike else alike @ [n])"
  have l: "distinct l" "set l = insert n {x \<in> seen. text x = text n}"
    using a by (auto simp: l_def)
  have m': "note_alike text n m = AList.update (text n) l m"
    by (simp only: note_alike_def alike_def l_def Let_def)
  have d: "distinct (map fst (AList.update (text n) l m))" using g by (simp add: groups_def distinct_update)
  have "distinct b \<and> set b = {x \<in> insert n seen. text x = t}" if "((map_of m)(text n \<mapsto> l)) t = Some b" for t b
    using that g l by (cases "t = text n") (auto simp: groups_def)
  then show ?thesis
    using g d unfolding m' groups_def by (auto simp: update_conv)
qed

lemma groups_fold: "groups text (set names \<union> seen) (fold (note_alike text) names m)"
  if "groups text seen m"
  using that
proof (induction names arbitrary: seen m)
  case (Cons n names)
  from Cons.IH [OF groups_note [OF Cons.prems, of n]] show ?case by (simp add: Un_assoc [symmetric])
qed simp

lemma distinct_long_iff: "distinct l \<Longrightarrow> n \<in> set l \<Longrightarrow> 1 < length l \<longleftrightarrow> (\<exists>m \<in> set l. m \<noteq> n)"
proof -
  assume d: "distinct l" and n: "n \<in> set l"
  have "1 < length l \<longleftrightarrow> 0 < card (set l - {n})" using d n by (simp add: distinct_card [symmetric] card_Diff_singleton)
  also have "\<dots> \<longleftrightarrow> (\<exists>m \<in> set l. m \<noteq> n)" by (auto simp: card_gt_0_iff)
  finally show ?thesis .
qed

text \<open>A name collides exactly when a different name of the report prints the same short text.\<close>

lemma colliding_by_iff:
  "n \<in> colliding_by text names \<longleftrightarrow> n \<in> set names \<and> (\<exists>m \<in> set names. m \<noteq> n \<and> text m = text n)"
proof -
  define m where "m = fold (note_alike text) names []"
  have "groups text {} []" by (simp add: groups_def)
  from groups_fold [OF this, of names] have g: "groups text (set names) m" by (simp add: m_def)
  have m: "(t, l) \<in> set m \<longleftrightarrow> map_of m t = Some l" for t l
    using g by (simp add: groups_def)
  have grp: "distinct l" "set l = {x \<in> set names. text x = t}" if "map_of m t = Some l" for t l
    using g that by (auto simp: groups_def)
  have "n \<in> colliding_by text names \<longleftrightarrow> (\<exists>t l. (t, l) \<in> set m \<and> 1 < length l \<and> n \<in> set l)"
    by (force simp: colliding_by_def m_def)
  also have "\<dots> \<longleftrightarrow> (\<exists>t l. map_of m t = Some l \<and> n \<in> set l \<and> (\<exists>x \<in> set l. x \<noteq> n))"
    using m grp(1) distinct_long_iff [of _ n] by metis
  also have "\<dots> \<longleftrightarrow> n \<in> set names \<and> (\<exists>x \<in> set names. x \<noteq> n \<and> text x = text n)" (is "?L = ?R")
  proof
    assume ?R
    then obtain l where "map_of m (text n) = Some l" using g by (auto simp: groups_def)
    then show ?L using \<open>?R\<close> grp(2) [of "text n" l] by auto
  next
    assume ?L
    then obtain t l x where "map_of m t = Some l" "n \<in> set l" "x \<in> set l" "x \<noteq> n" by blast
    then show ?R using grp(2) [of t l] by auto
  qed
  finally show ?thesis .
qed

text \<open>The text of one name under the collision rule, for two names of one report.\<close>

lemma written_apart:
  assumes "a \<in> set names" "b \<in> set names" "tn_full a \<noteq> tn_full b"
  shows "written (colliding names) a \<noteq> written (colliding names) b"
proof
  assume eq: "written (colliding names) a = written (colliding names) b"
  have ab: "a \<noteq> b" using assms(3) by auto
  have coll: "x \<in> colliding names \<longleftrightarrow> x \<in> set names \<and> (\<exists>y \<in> set names. y \<noteq> x \<and> tn_text y = tn_text x)" for x
    by (simp add: colliding_def colliding_by_iff)
  have idem: "short_type_name (written (colliding names) x) = tn_text x" for x
    by (simp add: written_def tn_text_def short_type_name_idem)
  have "tn_text a = tn_text b" using idem [of a] idem [of b] eq by simp
  then have "a \<in> colliding names" "b \<in> colliding names" using assms ab coll by metis+
  then show False using eq assms(3) by (simp add: written_def)
qed

section \<open>Settings\<close>

definition settings_wf :: "module_settings \<Rightarrow> bool" where
  "settings_wf s = distinct (map st_name (ms_entries s))"

lemma settings_with_wf: "settings_wf s \<Longrightarrow> settings_wf (settings_with s n v at)"
  by (auto simp: settings_wf_def settings_with_def find_None_set split: option.splits)

lemma settings_value_None: "settings_value s n = None \<longleftrightarrow> n \<notin> st_name ` set (ms_entries s)"
  by (auto simp: settings_value_def find_None_set)

lemma settings_with_value:
  "settings_value (settings_with s n v at) m =
     (if m = n \<and> settings_value s n = None then Some v else settings_value s m)"
proof -
  have app: "find p (xs @ ys) = (case find p xs of None \<Rightarrow> find p ys | Some x \<Rightarrow> Some x)"
    for p :: "setting \<Rightarrow> bool" and xs ys by (induction xs) auto
  show ?thesis
    by (auto simp: settings_with_def settings_value_def app split: option.splits)
qed

lemma differences_iff:
  "(n, x, y) \<in> set (differences a b) \<longleftrightarrow>
     x = settings_value a n \<and> y = settings_value b n \<and> x \<noteq> y"
proof -
  have "settings_value a n = None \<Longrightarrow> settings_value b n = None \<Longrightarrow> (n, None, None) \<notin> set (differences a b)"
    by (auto simp: differences_def Let_def map_filter_set)
  then show ?thesis
    using settings_value_None [of a n] settings_value_None [of b n]
    by (auto simp: differences_def Let_def map_filter_set split: if_splits)
qed

end
