(* ===== verification/Redact.thy ===== *)
theory Redact
  imports Keys
begin

text \<open>
  Redaction, \<open>crates/ulo/src/redact.rs\<close>: the secrets a graph registers, the function every outside error
  passes through before it is stored, the userinfo strip and the form a URL takes in a module's settings.
  Text is a list of characters, here the Unicode code points below 256: \<open>str::len\<close> counts the bytes of
  its UTF-8 form and \<open>chars().count()\<close> the characters. \<open>Deserialize\<close> for \<open>Secret\<close> and the thread-local
  collector are not modelled.
\<close>

section \<open>The registry of secrets\<close>

definition marker :: string where
  "marker = ''[redacted]''"

definition min_matched :: nat where
  "min_matched = 4"

definition byte_len :: "string \<Rightarrow> nat" where
  "byte_len s = sum_list (map (\<lambda>c. if of_char c < (128 :: nat) then 1 else 2) s)"

definition register_secret :: "string \<Rightarrow> string list \<Rightarrow> string list" where
  "register_secret text texts = (if text \<noteq> [] \<and> text \<notin> set texts then texts @ [text] else texts)"

definition matched_secrets :: "string list \<Rightarrow> string list" where
  "matched_secrets texts = sort_key (\<lambda>s. - int (byte_len s)) (filter (\<lambda>s. min_matched \<le> length s) texts)"

lemma set_matched [simp]: "set (matched_secrets texts) = {s \<in> set texts. 4 \<le> length s}"
  by (auto simp: matched_secrets_def min_matched_def)

lemma strip_prefix_less: "strip_prefix p s = Some t \<Longrightarrow> p \<noteq> [] \<Longrightarrow> length t < length s"
  by (auto simp: strip_prefix_Some)

lemma matched_after_less:
  assumes "find_map (\<lambda>s. strip_prefix s text) (matched_secrets texts) = Some after"
  shows "length after < length text"
proof -
  obtain s where "s \<in> set (matched_secrets texts)" "strip_prefix s text = Some after"
    using assms find_map_Some by metis
  then show ?thesis using strip_prefix_less by fastforce
qed

text \<open>The scan of \<open>SecretRegistry::replace\<close> over what is left of the text.\<close>

function (sequential) replace_scan :: "string list \<Rightarrow> string \<Rightarrow> string" where
  "replace_scan texts [] = []"
| "replace_scan texts (c # cs) =
     (case find_map (\<lambda>s. strip_prefix s (c # cs)) (matched_secrets texts) of
        Some after \<Rightarrow> marker @ replace_scan texts after
      | None \<Rightarrow> c # replace_scan texts cs)"
  by pat_completeness auto
termination
  by (relation "measure (\<lambda>(_, s). length s)") (auto dest: matched_after_less)

definition replace_secrets :: "string list \<Rightarrow> string \<Rightarrow> string" where
  "replace_secrets texts text = (if matched_secrets texts = [] then text else replace_scan texts text)"

section \<open>Userinfo\<close>

text \<open>\<open>find\<close> of a pattern, with the text before and after its first occurrence.\<close>

fun split_text :: "string \<Rightarrow> string \<Rightarrow> (string \<times> string) option" where
  "split_text p s =
     (case strip_prefix p s of
        Some after \<Rightarrow> Some ([], after)
      | None \<Rightarrow>
          (case s of
             [] \<Rightarrow> None
           | c # cs \<Rightarrow> map_option (\<lambda>(before, after). (c # before, after)) (split_text p cs)))"

declare split_text.simps [simp del]

lemma split_text_Some: "split_text p s = Some (before, after) \<Longrightarrow> s = before @ p @ after"
proof (induction s arbitrary: before)
  case (Cons c cs)
  then show ?case
    by (subst (asm) split_text.simps) (auto simp: strip_prefix_Some split: option.splits)
qed (subst (asm) split_text.simps, auto simp: strip_prefix_Some split: option.splits)

definition is_whitespace :: "char \<Rightarrow> bool" where
  "is_whitespace c = (let n = of_char c :: nat in 9 \<le> n \<and> n \<le> 13 \<or> n = 32 \<or> n = 133 \<or> n = 160)"

definition ends_authority :: "char \<Rightarrow> bool" where
  "ends_authority c =
     (c \<in> {CHR ''/'', CHR ''?'', CHR ''#'', CHR 0x22, CHR 0x27, CHR 0x60, CHR ''<'', CHR ''>''} \<or> is_whitespace c)"

text \<open>\<open>rfind\<close> of a character: the text before it and the text from it on.\<close>

definition rsplit_char :: "char \<Rightarrow> string \<Rightarrow> (string \<times> string) option" where
  "rsplit_char c s =
     (if c \<in> set s
      then Some (rev (drop 1 (dropWhile (\<lambda>d. d \<noteq> c) (rev s))), c # rev (takeWhile (\<lambda>d. d \<noteq> c) (rev s)))
      else None)"

definition strip_authority :: "string \<Rightarrow> string" where
  "strip_authority authority =
     (case rsplit_char (CHR ''@'') authority of Some (_, from_at) \<Rightarrow> marker @ from_at | None \<Rightarrow> authority)"

lemma split_text_shorter:
  assumes "split_text ''://'' s = Some (head, tail)"
  shows "length (dropWhile P tail) < length s"
  using split_text_Some [OF assms] length_dropWhile_le [of P tail] by simp

function (sequential) strip_userinfo :: "string \<Rightarrow> string" where
  "strip_userinfo rest =
     (case split_text ''://'' rest of
        Some (head, tail) \<Rightarrow>
          head @ ''://'' @ strip_authority (takeWhile (\<lambda>c. \<not> ends_authority c) tail) @
          strip_userinfo (dropWhile (\<lambda>c. \<not> ends_authority c) tail)
      | None \<Rightarrow> rest)"
  by pat_completeness auto
termination
  by (relation "measure length") (auto intro: split_text_shorter)

declare strip_userinfo.simps [simp del]

definition scrub :: "string list \<Rightarrow> string \<Rightarrow> string" where
  "scrub texts text = strip_userinfo (replace_secrets texts text)"

section \<open>Outside errors\<close>

text \<open>An outside error is its message and the messages down its \<open>source()\<close> chain, however far they go.\<close>

record outside_error =
  oe_message :: string
  oe_sources :: "string list"

record redacted =
  rc_inner :: outside_error
  rc_text :: string

definition max_chain :: nat where
  "max_chain = 32"

fun chain_links :: "nat \<Rightarrow> string \<Rightarrow> string list \<Rightarrow> string" where
  "chain_links 0 text causes = text"
| "chain_links (Suc links) text [] = text"
| "chain_links (Suc links) text (message # causes) =
     chain_links links (if message \<noteq> [] \<and> split_text message text = None then text @ '': '' @ message else text) causes"

definition chain_text :: "outside_error \<Rightarrow> string" where
  "chain_text e = chain_links max_chain (oe_message e) (oe_sources e)"

definition redact :: "string list \<Rightarrow> outside_error \<Rightarrow> redacted" where
  "redact texts e = \<lparr>rc_inner = e, rc_text = scrub texts (chain_text e)\<rparr>"

definition redact_as :: "string list \<Rightarrow> outside_error \<Rightarrow> string \<Rightarrow> redacted" where
  "redact_as texts e text = \<lparr>rc_inner = e, rc_text = scrub texts text\<rparr>"

datatype panic_payload = PayloadText string | PayloadOther

definition redact_panic :: "string list \<Rightarrow> panic_payload \<Rightarrow> redacted" where
  "redact_panic texts payload =
     (let message = (case payload of PayloadText s \<Rightarrow> s | PayloadOther \<Rightarrow> ''a panic whose payload is not a string'')
      in \<lparr>rc_inner = \<lparr>oe_message = message, oe_sources = []\<rparr>, rc_text = scrub texts message\<rparr>)"

section \<open>A URL as a setting reports it\<close>

definition is_ascii_letter :: "char \<Rightarrow> bool" where
  "is_ascii_letter c = (let n = of_char c :: nat in 65 \<le> n \<and> n \<le> 90 \<or> 97 \<le> n \<and> n \<le> 122)"

definition is_ascii_digit :: "char \<Rightarrow> bool" where
  "is_ascii_digit c = (let n = of_char c :: nat in 48 \<le> n \<and> n \<le> 57)"

fun is_scheme :: "string \<Rightarrow> bool" where
  "is_scheme [] = False"
| "is_scheme (c # cs) =
     (is_ascii_letter c \<and> list_all (\<lambda>c. is_ascii_alnum c \<or> c \<in> {CHR ''+'', CHR ''-'', CHR ''.''}) cs)"

definition after_bracket :: "string \<Rightarrow> string option" where
  "after_bracket host =
     (case strip_prefix ''['' host of
        Some inner \<Rightarrow> (if CHR '']'' \<in> set inner then Some (drop 1 (dropWhile (\<lambda>c. c \<noteq> CHR '']'') inner)) else None)
      | None \<Rightarrow> Some host)"

definition port_of :: "string \<Rightarrow> string option" where
  "port_of host =
     (case after_bracket host of
        None \<Rightarrow> None
      | Some after \<Rightarrow>
          (let port =
             (case rsplit_char (CHR '':'') after of
                Some (before, from_colon) \<Rightarrow> if CHR '':'' \<in> set before then None else Some (drop 1 from_colon)
              | None \<Rightarrow> if take 1 host = ''['' \<and> after \<noteq> [] then None else Some [])
           in case port of
                Some p \<Rightarrow> if list_all is_ascii_digit p then Some p else None
              | None \<Rightarrow> None))"

definition trim_controls :: "string \<Rightarrow> string" where
  "trim_controls s =
     rev (dropWhile (\<lambda>c. of_char c \<le> (32 :: nat)) (rev (dropWhile (\<lambda>c. of_char c \<le> (32 :: nat)) s)))"

definition clean_url :: "string \<Rightarrow> string" where
  "clean_url url = filter (\<lambda>c. of_char c \<notin> {9, 10, 13 :: nat}) (trim_controls url)"

definition before_query :: "string \<Rightarrow> string" where
  "before_query url = takeWhile (\<lambda>c. c \<notin> {CHR ''?'', CHR ''#''}) url"

definition split_scheme :: "string \<Rightarrow> string \<times> string" where
  "split_scheme url =
     (case split_text ''://'' url of
        Some (scheme, rest) \<Rightarrow>
          if is_scheme scheme then (scheme @ ''://'', rest)
          else if take 2 url = ''//'' then (''//'', drop 2 url) else ([], url)
      | None \<Rightarrow> if take 2 url = ''//'' then (''//'', drop 2 url) else ([], url))"

definition host_of :: "string \<Rightarrow> string" where
  "host_of authority =
     (case rsplit_char (CHR ''@'') authority of Some (_, from_at) \<Rightarrow> drop 1 from_at | None \<Rightarrow> authority)"

definition setting_url :: "string \<Rightarrow> string" where
  "setting_url url =
     (let url = before_query (clean_url url);
          (scheme, rest) = split_scheme url;
          authority = takeWhile (\<lambda>c. c \<noteq> CHR ''/'') rest;
          path = dropWhile (\<lambda>c. c \<noteq> CHR ''/'') rest;
          host = host_of authority
      in if port_of host \<noteq> None \<and> CHR ''@'' \<notin> set path then scheme @ host @ path
         else scheme @ ''[unreadable]'')"

end
