(* ===== verification/Records.thy ===== *)
theory Records
  imports Redact
begin

text \<open>
  What \<open>Module::register\<close> writes, before and after the graph freezes it: the injection points of
  \<open>dependency/mod.rs\<close>, the bounds of \<open>timer.rs\<close>, the hook records of \<open>hooks.rs\<close>, the binding records
  of \<open>binding/mod.rs\<close>, the module nodes of \<open>module/def.rs\<close>, the handlers of
  \<open>transport/controller.rs\<close> and the wiring errors of \<open>error/wiring.rs\<close>. Closures and built values
  are opaque: a number stands for the \<open>Arc\<close> that holds one.
\<close>

section \<open>Injection points\<close>

datatype scope_kind = SK_Singleton | SK_PerExecution | SK_Transient | SK_Auto

datatype read_kind =
    ReadSingle key
  | ReadCollection key
  | ReadExtension rust_type
  | ReadExecution
  | ReadModule

record read_rec =
  rd_kind :: read_kind
  rd_optional :: bool

type_synonym requirement = "read_rec list"

definition req_dep :: "key \<Rightarrow> requirement \<Rightarrow> requirement" where
  "req_dep k r = r @ [\<lparr>rd_kind = ReadSingle k, rd_optional = False\<rparr>]"

definition req_many :: "key \<Rightarrow> requirement \<Rightarrow> requirement" where
  "req_many k r = r @ [\<lparr>rd_kind = ReadCollection k, rd_optional = False\<rparr>]"

definition req_ext :: "rust_type \<Rightarrow> requirement \<Rightarrow> requirement" where
  "req_ext t r = r @ [\<lparr>rd_kind = ReadExtension t, rd_optional = False\<rparr>]"

definition req_execution :: "requirement \<Rightarrow> requirement" where
  "req_execution r = r @ [\<lparr>rd_kind = ReadExecution, rd_optional = False\<rparr>]"

definition req_module :: "requirement \<Rightarrow> requirement" where
  "req_module r = r @ [\<lparr>rd_kind = ReadModule, rd_optional = False\<rparr>]"

text \<open>\<open>Requirement::optional\<close>: \<open>describe\<close> is the inner injection point's own \<open>describe\<close>, which appends.\<close>

definition req_optional :: "(requirement \<Rightarrow> requirement) \<Rightarrow> requirement \<Rightarrow> requirement" where
  "req_optional describe r =
     (let start = length r; r' = describe r in
      take start r' @ map (\<lambda>rd. rd\<lparr>rd_optional := True\<rparr>) (drop start r'))"

datatype dependency_label = DL_Field string | DL_Param string | DL_Position nat

record dependency_record =
  dr_label :: dependency_label
  dr_type_name :: string
  dr_requirement :: requirement

record dependencies =
  dp_list :: "dependency_record list"
  dp_controller :: "rust_type option"

definition no_deps :: dependencies where
  "no_deps = \<lparr>dp_list = [], dp_controller = None\<rparr>"

text \<open>An injection point as \<open>Dependencies::push\<close> receives it: \<open>type_name\<close> of its type and what its
  \<open>describe\<close> writes into an empty requirement.\<close>

definition deps_push :: "dependency_label \<Rightarrow> string \<Rightarrow> requirement \<Rightarrow> dependencies \<Rightarrow> dependencies" where
  "deps_push l t req d = d\<lparr>dp_list := dp_list d @ [\<lparr>dr_label = l, dr_type_name = t, dr_requirement = req\<rparr>]\<rparr>"

definition deps_field :: "string \<Rightarrow> string \<Rightarrow> requirement \<Rightarrow> dependencies \<Rightarrow> dependencies" where
  "deps_field name t req d = deps_push (DL_Field name) t req d"

definition deps_param :: "string \<Rightarrow> string \<Rightarrow> requirement \<Rightarrow> dependencies \<Rightarrow> dependencies" where
  "deps_param name t req d = deps_push (DL_Param name) t req d"

definition deps_add :: "string \<Rightarrow> requirement \<Rightarrow> dependencies \<Rightarrow> dependencies" where
  "deps_add t req d = deps_push (DL_Position (length (dp_list d))) t req d"

definition deps_reads :: "dependencies \<Rightarrow> read_rec list" where
  "deps_reads d = concat (map dr_requirement (dp_list d))"

section \<open>Bounds\<close>

text \<open>A \<open>Duration\<close> is its nanoseconds.\<close>

datatype bound = B_Default | B_After nat | B_Unbounded

datatype bound_kind = BoundHook | BoundConstruction | BoundReadinessAttempt | BoundReadinessWhole

datatype limit = Limit_Item | Limit_Attempt | Limit_Default

datatype resolved = R_After nat limit | R_Unbounded

record defaults =
  df_hook_timeout :: nat
  df_construct_timeout :: nat

fun resolve_bound :: "bound \<Rightarrow> bound_kind \<Rightarrow> defaults option \<Rightarrow> resolved" where
  "resolve_bound b kind None = R_Unbounded"
| "resolve_bound b kind (Some d) =
     (case b of
        B_Unbounded \<Rightarrow> R_Unbounded
      | B_After after \<Rightarrow>
          R_After after (case kind of BoundReadinessAttempt \<Rightarrow> Limit_Attempt | _ \<Rightarrow> Limit_Item)
      | B_Default \<Rightarrow>
          (case kind of
             BoundHook \<Rightarrow> R_After (df_hook_timeout d) Limit_Default
           | BoundConstruction \<Rightarrow> R_After (df_construct_timeout d) Limit_Default
           | BoundReadinessAttempt \<Rightarrow> R_After (df_construct_timeout d) Limit_Default
           | BoundReadinessWhole \<Rightarrow> R_Unbounded))"

section \<open>Hooks\<close>

datatype hook_kind =
    OnModuleInit | OnApplicationBootstrap | OnModuleDestroy | BeforeApplicationShutdown | OnApplicationShutdown

type_synonym closure_ref = nat
type_synonym instance_ref = nat

record hook_record =
  hk_kind :: hook_kind
  hk_bound :: bound
  hk_bound_at :: "location option"
  hk_run :: closure_ref
  hk_dependencies :: dependencies
  hk_location :: location

section \<open>Bindings\<close>

record also_as =
  aa_key :: key
  aa_coerce :: closure_ref
  aa_location :: location

datatype recipe =
    RecipeConstruct closure_ref
  | RecipeFactory closure_ref
  | RecipeValue instance_ref
  | RecipeAlias key
  | RecipeFailed

record ready_record =
  rr_check :: closure_ref
  rr_dependencies :: dependencies
  rr_retries :: nat
  rr_backoff :: nat
  rr_backoff_location :: "location option"
  rr_whole :: bound
  rr_whole_at :: "location option"
  rr_attempt :: bound
  rr_attempt_at :: "location option"
  rr_location :: location

record binding_record =
  br_primary :: key
  br_qualifier :: rust_type
  br_built :: string
  br_into_primary :: "closure_ref option"
  br_also :: "also_as list"
  br_kind :: binding_kind
  br_scope :: scope_kind
  br_controller :: bool
  br_controller_type :: "type_name option"
  br_recipe :: recipe
  br_dependencies :: dependencies
  br_construct_bound :: bound
  br_construct_bound_at :: "location option"
  br_ready :: "ready_record option"
  br_replaced_ready :: "location list"
  br_hooks :: "hook_record list"
  br_constructs :: bool
  br_location :: location

definition binding_record_new ::
  "key \<Rightarrow> string \<Rightarrow> binding_kind \<Rightarrow> scope_kind \<Rightarrow> recipe \<Rightarrow> dependencies \<Rightarrow> location \<Rightarrow> binding_record" where
  "binding_record_new primary built kind scope rcp deps loc =
     \<lparr>br_primary = primary, br_qualifier = unit_type, br_built = built, br_into_primary = None,
      br_also = [], br_kind = kind, br_scope = scope, br_controller = False,
      br_controller_type = None, br_recipe = rcp, br_dependencies = deps,
      br_construct_bound = B_Default, br_construct_bound_at = None, br_ready = None,
      br_replaced_ready = [], br_hooks = [], br_constructs = False, br_location = loc\<rparr>"

fun is_factory :: "recipe \<Rightarrow> bool" where
  "is_factory (RecipeFactory _) = True"
| "is_factory _ = False"

definition by_closure :: "binding_record \<Rightarrow> bool" where
  "by_closure r = (is_factory (br_recipe r) \<and> \<not> br_constructs r)"

definition keys_located :: "binding_record \<Rightarrow> (key \<times> location) list" where
  "keys_located r =
     map (\<lambda>(k, at). (with_qualifier (br_qualifier r) k, at))
         ((br_primary r, br_location r) # map (\<lambda>a. (aa_key a, aa_location a)) (br_also r))"

definition record_keys :: "binding_record \<Rightarrow> key list" where
  "record_keys r = map fst (keys_located r)"

definition record_key :: "binding_record \<Rightarrow> key" where
  "record_key r = with_qualifier (br_qualifier r) (br_primary r)"

section \<open>Handlers and controllers\<close>

record input_key =
  ik_key :: key
  ik_also :: "type_name list"
  ik_location :: location

record closure_dep =
  cd_id :: nat
  cd_scope :: scope_kind
  cd_dependencies :: dependencies
  cd_role :: string
  cd_tier :: string
  cd_position :: nat
  cd_location :: location

datatype enhancer_dep = ED_Type key | ED_Closure closure_dep

text \<open>\<open>inputs\<close> is what the transport's \<open>Transport::inputs\<close> writes when the freeze calls it.\<close>

record handler_decl =
  hd_transport :: type_name
  hd_key :: string
  hd_reads_prefix :: bool
  hd_inputs :: "input_key list"
  hd_name :: string
  hd_role_keys :: "key list"
  hd_enhancer_deps :: "enhancer_dep list"
  hd_dependencies :: dependencies
  hd_route :: "string option"

text \<open>\<open>mount\<close> is the list of handlers the controller's \<open>Controller::mount\<close> declares.\<close>

record controller_record =
  cr_binding :: nat
  cr_mount :: "handler_decl list"
  cr_prefix :: "(string \<times> location) option"

record handler_record =
  hr_controller :: nat
  hr_module :: nat
  hr_decl :: handler_decl
  hr_prefix :: "string option"

section \<open>Modules as registered\<close>

record export_record =
  ex_key :: key
  ex_reexport :: bool
  ex_location :: location

record input_record =
  ir_key :: key
  ir_seeder :: type_name
  ir_location :: location

record value_failure =
  vf_error :: outside_error
  vf_location :: location

datatype import_ref = ImportNew nat | ImportExisting nat

datatype site = SiteRoot | SiteLoad location | SiteImport import_ref location

record meta_entry =
  me_type :: rust_type
  me_value :: nat
  me_dependencies :: dependencies

text \<open>An import holds a \<open>Box<dyn Module>\<close>: a number that names the module value.\<close>

record import_record =
  im_module :: nat
  im_at :: location

record module_node =
  nd_identity :: module_identity
  nd_global :: bool
  nd_keyed :: "rust_type option"
  nd_nested_keyed :: "(rust_type \<times> rust_type) option"
  nd_inherited_keyed :: "rust_type option"
  nd_imports :: "import_record list"
  nd_bindings :: "binding_record list"
  nd_enhancers :: "nat list"
  nd_exports :: "export_record list"
  nd_controllers :: "controller_record list"
  nd_inputs :: "input_record list"
  nd_hooks :: "hook_record list"
  nd_meta :: "meta_entry list"
  nd_secrets :: "string list"
  nd_failures :: "value_failure list"
  nd_settings :: module_settings
  nd_site :: site

definition module_node_new :: "module_identity \<Rightarrow> module_node" where
  "module_node_new i =
     \<lparr>nd_identity = i, nd_global = False, nd_keyed = None, nd_nested_keyed = None,
      nd_inherited_keyed = None, nd_imports = [], nd_bindings = [], nd_enhancers = [],
      nd_exports = [], nd_controllers = [], nd_inputs = [], nd_hooks = [], nd_meta = [],
      nd_secrets = [], nd_failures = [], nd_settings = settings_new, nd_site = SiteRoot\<rparr>"

section \<open>Wiring errors\<close>

datatype bound_item = BI_Construction | BI_ReadinessWhole | BI_ReadinessAttempt | BI_Hook hook_kind

datatype input_origin =
    OriginTransport type_name location
  | OriginModule mod_name "type_name list" location
  | OriginBinding mod_name location

datatype module_site = MS_Root | MS_Import mod_name location | MS_Load location

text \<open>\<open>shown\<close> is the two values after redaction, which is all a report prints of them.\<close>

record differing_setting =
  ds_name :: string
  ds_first :: "string option"
  ds_second :: "string option"
  ds_shown :: "string option \<times> string option"

definition differing_setting_new :: "string list \<Rightarrow> string \<times> string option \<times> string option \<Rightarrow> differing_setting" where
  "differing_setting_new secrets = (\<lambda>(name, first, second).
     \<lparr>ds_name = name, ds_first = first, ds_second = second,
      ds_shown = (map_option (scrub secrets) first, map_option (scrub secrets) second)\<rparr>)"

datatype (plugins only: code size) wiring_error =
    ImportCycle "mod_name list"
  | ReexportNotVisible mod_name key_name location
  | ReexportAmbiguous mod_name key_name "mod_name list" location
  | KeyedInput mod_name key_name location
  | NestedKeyed mod_name type_name type_name
  | DifferingSettings mod_name module_site module_site "differing_setting list"
  | DuplicateSetting string mod_name location location
  | ExportNotBound mod_name key_name bool "key_name option" location
  | DuplicateBinding key_name mod_name location location
  | KindMix key_name mod_name location location
  | DanglingAlias key_name key_name mod_name location
  | ControllerProvided key_name type_name mod_name location
  | ValueFailed mod_name key_name redacted location
  | QualifiedRoleContribution key_name mod_name location
  | SingleRoleBinding key_name mod_name location
  | DuplicateReadiness key_name mod_name location location
  | InputConflict key_name input_origin input_origin
  | OverrideUnmatched key_name "mod_name option" location
  | OverrideAmbiguous key_name "mod_name list" location
  | OverrideModuleAmbiguous string "mod_name list" location
  | OverrideKind key_name binding_kind binding_kind location
  | TimerOverride location
  | RuntimeOverride location
  | ReplacementMissingExports mod_name mod_name "key_name list"
  | ReplacementUnmatched mod_name location
  | DuplicateReplacement mod_name location location
  | UnreadPrefix key_name mod_name string "type_name list" location
  | Missing key_name string mod_name "(key_name \<times> mod_name) option"
  | Ambiguous key_name string mod_name "(mod_name \<times> location) list"
  | ControllerRead key_name string mod_name mod_name
  | Cycle "(key_name \<times> mod_name) list"
  | ScopeViolation key_name scope_kind bool bool mod_name "string list"
  | HooksOnPerExecution key_name mod_name
  | ClosureScopeViolation string type_name string "string list" location
  | ClosureNeedsExecution string "string list" "location option"
  | InputNotSeeded string type_name key_name type_name "string list"
  | BoundWithoutTimer string location
  | BackoffWithoutTimer string location
  | KnobWithoutTimer string
  | ZeroBound bound_item "key_name option" mod_name location
  | ZeroDefault string location

section \<open>Injection points, shared facts\<close>

lemma req_optional_prefix:
  assumes "describe r = r @ tail"
  shows "req_optional describe r = r @ map (\<lambda>rd. rd\<lparr>rd_optional := True\<rparr>) tail"
  by (simp add: req_optional_def assms Let_def)

lemma record_keys_conv:
  "record_keys r = record_key r # map (\<lambda>a. with_qualifier (br_qualifier r) (aa_key a)) (br_also r)"
  by (simp add: record_keys_def keys_located_def record_key_def case_prod_unfold comp_def)

lemma record_key_in_keys [simp]: "record_key r \<in> set (record_keys r)"
  by (simp add: record_keys_conv)

lemma record_keys_qualifier: "k \<in> set (record_keys r) \<Longrightarrow> tn_id (k_qualifier k) = br_qualifier r"
  by (auto simp: record_keys_conv record_key_def with_qualifier_def)

end
