(* ===== verification/Graph_Model.thy ===== *)
theory Graph_Model
  imports Records
begin

text \<open>
  The frozen graph of \<open>crates/ulo/src/graph/mod.rs\<close>: modules and bindings in collection order, what
  each module sees, the app-wide collections, the execution inputs and the mounted handlers, with
  the accessors the wiring checks and the lifecycle read it through. A \<open>ModuleId\<close> and a \<open>BindingId\<close> is
  its number; \<open>graph.binding(id)\<close> indexes a vector, and \<open>wf_graph\<close> is the invariant under which
  no accessor of this theory indexes out of range.
\<close>

section \<open>The graph\<close>

datatype role = RoleProvider | RoleController | RoleEnhancer

datatype effective = EffSingleton | EffPerExecution | EffTransient

datatype edge_target =
    TargetBinding nat
  | TargetCollection key
  | TargetInput key
  | TargetExecution
  | TargetModule

record edge =
  ed_target :: edge_target
  ed_dependency :: nat
  ed_optional :: bool

datatype visible =
    VisBinding nat
  | VisInput key
  | VisAmbiguous "(nat \<times> nat) list"

type_synonym vis_table = "(key \<times> visible) list"

record input_decl =
  id_key :: key
  id_seeders :: "type_name list"
  id_origin :: input_origin

record frozen_module =
  fm_id :: nat
  fm_identity :: module_identity
  fm_name :: mod_name
  fm_global :: bool
  fm_keyed :: "rust_type option"
  fm_imports :: "nat list"
  fm_bindings :: "nat list"
  fm_hooks :: "hook_record list"
  fm_meta :: "(rust_type \<times> nat) list"
  fm_loaded :: "nat option"
  fm_settings :: module_settings
  fm_site :: site

record frozen_binding =
  fb_id :: nat
  fb_origin :: nat
  fb_record :: binding_record
  fb_role :: role
  fb_effective :: effective
  fb_needs_execution :: bool
  fb_edges :: "edge list"

text \<open>The \<open>HashMap\<close>s of the graph are association lists read with \<^const>\<open>map_of\<close>.\<close>

record graph =
  g_modules :: "frozen_module list"
  g_bindings :: "frozen_binding list"
  g_visibility :: "vis_table list"
  g_collections :: "(key \<times> nat list) list"
  g_inputs :: "(key \<times> input_decl) list"
  g_by_identity :: "(module_identity \<times> nat) list"
  g_root :: nat
  g_connect_order :: "nat list"
  g_handlers :: "handler_record list"
  g_closures :: "(nat \<times> effective) list"
  g_secrets :: "string list"
  g_exported :: "(key \<times> nat) list list"

definition graph_empty :: graph where
  "graph_empty =
     \<lparr>g_modules = [], g_bindings = [], g_visibility = [], g_collections = [], g_inputs = [],
      g_by_identity = [], g_root = 0, g_connect_order = [], g_handlers = [], g_closures = [],
      g_secrets = [], g_exported = []\<rparr>"

section \<open>Accessors\<close>

definition binding :: "graph \<Rightarrow> nat \<Rightarrow> frozen_binding" where
  "binding g b = g_bindings g ! b"

definition gmodule :: "graph \<Rightarrow> nat \<Rightarrow> frozen_module" where
  "gmodule g b = g_modules g ! b"

definition lookup :: "graph \<Rightarrow> nat \<Rightarrow> key \<Rightarrow> visible option" where
  "lookup g m k = map_of (g_visibility g ! m) k"

definition collection :: "graph \<Rightarrow> key \<Rightarrow> nat list" where
  "collection g k = (case map_of (g_collections g) k of Some ids \<Rightarrow> ids | None \<Rightarrow> [])"

definition same_seeders :: "input_decl \<Rightarrow> type_name list \<Rightarrow> bool" where
  "same_seeders d other =
     (length (id_seeders d) = length other \<and> list_all (\<lambda>s. s \<in> set other) (id_seeders d))"

datatype lookup_error =
    LE_NotFoundModule key_name
  | LE_AmbiguousModule string "mod_name list"

definition module_of :: "graph \<Rightarrow> module_identity \<Rightarrow> lookup_error + nat" where
  "module_of g i =
     (case find (\<lambda>(j, _). identity_eq j i) (g_by_identity g) of
        Some (_, b) \<Rightarrow> Inr b
      | None \<Rightarrow>
          (let q = (case mi_qualifier i of Some q \<Rightarrow> q | None \<Rightarrow> unit_type)
           in Inl (LE_NotFoundModule (name_key BK_Single (key_of (mi_ty i) q)))))"

definition find_module :: "graph \<Rightarrow> rust_type \<Rightarrow> rust_type option \<Rightarrow> lookup_error + nat" where
  "find_module g ty qual =
     (let found = filter (\<lambda>m. mi_ty (fm_identity m) = ty \<and>
                              (qual = None \<or> mi_qualifier (fm_identity m) = qual)) (g_modules g)
      in case found of
           [one] \<Rightarrow> Inr (fm_id one)
         | [] \<Rightarrow> (let q = (case qual of Some q \<Rightarrow> q | None \<Rightarrow> unit_type)
                  in Inl (LE_NotFoundModule (name_key BK_Single (key_of ty q))))
         | several \<Rightarrow> Inl (LE_AmbiguousModule (type_text ty) (map fm_name several)))"

definition graph_module_name :: "graph \<Rightarrow> nat \<Rightarrow> mod_name" where
  "graph_module_name g b = fm_name (gmodule g b)"

definition graph_key_name :: "graph \<Rightarrow> nat \<Rightarrow> key_name" where
  "graph_key_name g b =
     (let r = fb_record (binding g b) in name_key (br_kind r) (record_key r))"

definition graph_label :: "graph \<Rightarrow> nat \<Rightarrow> string" where
  "graph_label g b =
     (let r = fb_record (binding g b) in
      short_type_name (br_built r) @
      (if br_qualifier r \<noteq> unit_type then '' @ '' @ short_type_name (type_text (br_qualifier r)) else []))"

definition scoped_label :: "graph \<Rightarrow> nat \<Rightarrow> string" where
  "scoped_label g b =
     graph_label g b @
     (case fb_effective (binding g b) of
        EffPerExecution \<Rightarrow> '' (execution)''
      | EffTransient \<Rightarrow> '' (transient)''
      | EffSingleton \<Rightarrow> [])"

fun dependency_label_text :: "dependency_label \<Rightarrow> string" where
  "dependency_label_text (DL_Field name) = ''field `'' @ name @ ''`''"
| "dependency_label_text (DL_Param name) = ''param `'' @ name @ ''`''"
| "dependency_label_text (DL_Position index) = ''param #'' @ decimal (index + 1)"

definition dependency_text :: "dependency_record \<Rightarrow> string" where
  "dependency_text d = short_type_name (dr_type_name d) @ '' ('' @ dependency_label_text (dr_label d) @ '')''"

definition consumer :: "graph \<Rightarrow> nat \<Rightarrow> nat \<Rightarrow> string" where
  "consumer g b index =
     (let r = fb_record (binding g b);
          text = graph_label g b @ (if is_factory (br_recipe r) \<and> \<not> br_constructs r then '' factory'' else [])
      in case get_nth (dp_list (br_dependencies r)) index of
           Some d \<Rightarrow> text @ '' ('' @ dependency_label_text (dr_label d) @ '')''
         | None \<Rightarrow> text)"

definition alias_target :: "graph \<Rightarrow> nat \<Rightarrow> nat option" where
  "alias_target g b =
     (case br_recipe (fb_record (binding g b)) of
        RecipeAlias target \<Rightarrow>
          (case lookup g (fb_origin (binding g b)) target of
             Some (VisBinding t) \<Rightarrow> Some t
           | _ \<Rightarrow> None)
      | _ \<Rightarrow> None)"

fun edge_deps :: "graph \<Rightarrow> edge_target \<Rightarrow> nat list" where
  "edge_deps g (TargetBinding dep) = [dep]"
| "edge_deps g (TargetCollection k) = collection g k"
| "edge_deps g (TargetInput _) = []"
| "edge_deps g TargetExecution = []"
| "edge_deps g TargetModule = []"

definition construction_deps :: "graph \<Rightarrow> nat \<Rightarrow> nat list" where
  "construction_deps g b =
     concat (map (\<lambda>e. edge_deps g (ed_target e)) (fb_edges (binding g b))) @
     (case alias_target g b of Some t \<Rightarrow> [t] | None \<Rightarrow> [])"

fun read_deps :: "graph \<Rightarrow> nat \<Rightarrow> read_kind \<Rightarrow> nat list" where
  "read_deps g m (ReadSingle k) = (case lookup g m k of Some (VisBinding dep) \<Rightarrow> [dep] | _ \<Rightarrow> [])"
| "read_deps g m (ReadCollection k) = collection g k"
| "read_deps g m (ReadExtension _) = []"
| "read_deps g m ReadExecution = []"
| "read_deps g m ReadModule = []"

definition closure_deps :: "graph \<Rightarrow> nat \<Rightarrow> dependencies \<Rightarrow> nat list" where
  "closure_deps g m deps = concat (map (\<lambda>rd. read_deps g m (rd_kind rd)) (deps_reads deps))"

definition readiness_deps :: "graph \<Rightarrow> nat \<Rightarrow> nat list" where
  "readiness_deps g b =
     (case br_ready (fb_record (binding g b)) of
        Some r \<Rightarrow> filter (\<lambda>dep. dep \<noteq> b) (closure_deps g (fb_origin (binding g b)) (rr_dependencies r))
      | None \<Rightarrow> [])"

definition passes_execution :: "graph \<Rightarrow> nat \<Rightarrow> bool" where
  "passes_execution g b =
     (case fb_effective (binding g b) of
        EffPerExecution \<Rightarrow> True
      | EffTransient \<Rightarrow> fb_needs_execution (binding g b)
      | EffSingleton \<Rightarrow> False)"

fun is_execution_target :: "edge_target \<Rightarrow> bool" where
  "is_execution_target TargetExecution = True"
| "is_execution_target (TargetInput _) = True"
| "is_execution_target _ = False"

definition direct_execution_edge :: "graph \<Rightarrow> nat \<Rightarrow> edge option" where
  "direct_execution_edge g b = find (\<lambda>e. is_execution_target (ed_target e)) (fb_edges (binding g b))"

definition handler_name :: "graph \<Rightarrow> handler_record \<Rightarrow> string" where
  "handler_name g h = graph_label g (hr_controller h) @ ''::'' @ hd_name (hr_decl h)"

definition dependency_step :: "graph \<Rightarrow> nat \<Rightarrow> nat \<Rightarrow> string" where
  "dependency_step g b index =
     (case get_nth (dp_list (br_dependencies (fb_record (binding g b)))) index of
        Some d \<Rightarrow> dependency_text d
      | None \<Rightarrow> [])"

definition boundary_key :: "rust_type option \<Rightarrow> key \<Rightarrow> key" where
  "boundary_key keyed k =
     (case keyed of
        Some q \<Rightarrow> if is_unqualified k then with_qualifier q k else k
      | None \<Rightarrow> k)"

abbreviation binding_count :: "graph \<Rightarrow> nat" where
  "binding_count g \<equiv> length (g_bindings g)"

section \<open>In range\<close>

text \<open>Every number the graph holds names a module or a binding of the graph.\<close>

definition wf_visible :: "graph \<Rightarrow> visible \<Rightarrow> bool" where
  "wf_visible g v = (case v of
      VisBinding c \<Rightarrow> c < binding_count g
    | VisInput _ \<Rightarrow> True
    | VisAmbiguous sources \<Rightarrow> list_all (\<lambda>(m, b). m < length (g_modules g) \<and> b < binding_count g) sources)"

definition wf_edge :: "graph \<Rightarrow> edge \<Rightarrow> bool" where
  "wf_edge g e = (case ed_target e of TargetBinding c \<Rightarrow> c < binding_count g | _ \<Rightarrow> True)"

definition wf_graph :: "graph \<Rightarrow> bool" where
  "wf_graph g \<longleftrightarrow>
     length (g_visibility g) = length (g_modules g) \<and>
     (\<forall>b < binding_count g. fb_id (binding g b) = b \<and> fb_origin (binding g b) < length (g_modules g)) \<and>
     (\<forall>table \<in> set (g_visibility g). \<forall>(k, v) \<in> set table. wf_visible g v) \<and>
     (\<forall>(k, ids) \<in> set (g_collections g). \<forall>b \<in> set ids. b < binding_count g) \<and>
     (\<forall>b \<in> set (g_bindings g). \<forall>e \<in> set (fb_edges b). wf_edge g e)"

lemma lookup_in_range:
  assumes "wf_graph g" "m < length (g_modules g)" "lookup g m k = Some (VisBinding b)"
  shows "b < binding_count g"
proof -
  have "g_visibility g ! m \<in> set (g_visibility g)" using assms(1,2) by (simp add: wf_graph_def)
  moreover have "(k, VisBinding b) \<in> set (g_visibility g ! m)"
    using assms(3) by (auto simp: lookup_def dest: map_of_SomeD)
  ultimately have "wf_visible g (VisBinding b)" using assms(1) unfolding wf_graph_def by blast
  then show ?thesis by (simp add: wf_visible_def)
qed

lemma collection_in_range:
  assumes "wf_graph g" "b \<in> set (collection g k)"
  shows "b < binding_count g"
proof -
  obtain ids where "map_of (g_collections g) k = Some ids" "b \<in> set ids"
    using assms(2) by (cases "map_of (g_collections g) k") (auto simp: collection_def)
  then have "(k, ids) \<in> set (g_collections g)" "b \<in> set ids" by (auto dest: map_of_SomeD)
  then show ?thesis using assms(1) unfolding wf_graph_def by blast
qed

lemma alias_target_in_range:
  "wf_graph g \<Longrightarrow> b < binding_count g \<Longrightarrow> alias_target g b = Some t \<Longrightarrow> t < binding_count g"
  by (auto simp: alias_target_def wf_graph_def split: recipe.splits option.splits visible.splits
      intro: lookup_in_range [of g, unfolded wf_graph_def])

lemma edge_deps_in_range:
  "wf_graph g \<Longrightarrow> wf_edge g e \<Longrightarrow> d \<in> set (edge_deps g (ed_target e)) \<Longrightarrow> d < binding_count g"
  by (cases "ed_target e") (auto simp: wf_edge_def collection_in_range)

lemma construction_deps_in_range:
  assumes "wf_graph g" "b < binding_count g" "d \<in> set (construction_deps g b)"
  shows "d < binding_count g"
proof -
  have "binding g b \<in> set (g_bindings g)" using assms(2) by (simp add: binding_def)
  then have "\<forall>e \<in> set (fb_edges (binding g b)). wf_edge g e" using assms(1) by (simp add: wf_graph_def)
  then show ?thesis
    using assms edge_deps_in_range [OF assms(1)] alias_target_in_range [OF assms(1,2)]
    by (auto simp: construction_deps_def split: option.splits)
qed

lemma closure_deps_in_range:
  assumes "wf_graph g" "m < length (g_modules g)" "d \<in> set (closure_deps g m deps)"
  shows "d < binding_count g"
proof -
  obtain rd :: read_rec where "d \<in> set (read_deps g m (rd_kind rd))" using assms(3) by (auto simp: closure_deps_def)
  then show ?thesis
    using assms(1,2) by (cases "rd_kind rd")
      (auto simp: collection_in_range intro: lookup_in_range split: option.splits visible.splits)
qed

lemma readiness_deps_in_range:
  "wf_graph g \<Longrightarrow> b < binding_count g \<Longrightarrow> d \<in> set (readiness_deps g b) \<Longrightarrow> d < binding_count g"
  by (auto simp: readiness_deps_def wf_graph_def split: option.splits
      intro: closure_deps_in_range [of g, unfolded wf_graph_def])

lemma readiness_deps_other: "b \<notin> set (readiness_deps g b)"
  by (auto simp: readiness_deps_def split: option.splits)

end
