(* ===== verification/Cycles.thy ===== *)
theory Cycles
  imports Tarjan Graph_Model
begin

text \<open>
  Dependency cycles, \<open>crates/ulo/src/graph/cycles.rs\<close>: each strongly connected component of the
  resolved dependency graph that holds a cycle is reported once, as a cycle through its smallest
  member found by a breadth-first walk. The lemmas show that the walk ends with a cycle of the
  graph and that the check reports nothing exactly when the dependency graph is acyclic.
\<close>

section \<open>The walk\<close>

text \<open>The path loop, its variables \<open>current\<close> and \<open>path\<close> and a flag for its \<open>break\<close>.\<close>

definition walk_back_go :: "nat \<Rightarrow> nat \<times> nat list \<times> bool \<Rightarrow> bool" where
  "walk_back_go start = (\<lambda>(current, path, stop). current \<noteq> start \<and> \<not> stop)"

definition walk_back_step :: "(nat \<times> nat) list \<Rightarrow> nat \<times> nat list \<times> bool \<Rightarrow> nat \<times> nat list \<times> bool" where
  "walk_back_step parent = (\<lambda>(current, path, stop).
     case map_of parent current of
       Some previous \<Rightarrow> (previous, path @ [previous], False)
     | None \<Rightarrow> (current, path, True))"

definition walk_back :: "(nat \<times> nat) list \<Rightarrow> nat \<Rightarrow> nat \<Rightarrow> nat list option" where
  "walk_back parent start node =
     map_option (\<lambda>(_, path, _). rev path @ [start])
       (while_option (walk_back_go start) (walk_back_step parent) (node, [node], False))"

record cycle_walk =
  cw_parent :: "(nat \<times> nat) list"
  cw_queue :: "nat list"
  cw_found :: "nat list option option"

text \<open>The inner loop over a node's successors; \<open>cw_found\<close> holds what an early \<open>return\<close> returns.\<close>

fun scan_successors :: "nat list \<Rightarrow> nat \<Rightarrow> nat \<Rightarrow> nat list \<Rightarrow> cycle_walk \<Rightarrow> cycle_walk" where
  "scan_successors members start node [] w = w"
| "scan_successors members start node (s # ss) w =
     (if s \<notin> set members then scan_successors members start node ss w
      else if s = start then w\<lparr>cw_found := Some (walk_back (cw_parent w) start node)\<rparr>
      else if map_of (cw_parent w) s = None
        then scan_successors members start node ss
               (w\<lparr>cw_parent := cw_parent w @ [(s, node)], cw_queue := cw_queue w @ [s]\<rparr>)
      else scan_successors members start node ss w)"

definition cycle_step :: "succ_lists \<Rightarrow> nat list \<Rightarrow> nat \<Rightarrow> cycle_walk \<Rightarrow> cycle_walk" where
  "cycle_step ss members start w =
     (case cw_queue w of
        [] \<Rightarrow> w
      | node # queue \<Rightarrow> scan_successors members start node (ss ! node) (w\<lparr>cw_queue := queue\<rparr>))"

definition cycle_through :: "succ_lists \<Rightarrow> nat list \<Rightarrow> nat list option" where
  "cycle_through ss component =
     (if component = [] then Some []
      else (let start = Min (set component) in
            case while_option (\<lambda>w. cw_queue w \<noteq> [] \<and> cw_found w = None) (cycle_step ss component start)
                   \<lparr>cw_parent = [], cw_queue = [start], cw_found = None\<rparr> of
              None \<Rightarrow> None
            | Some w \<Rightarrow> (case cw_found w of Some path \<Rightarrow> path | None \<Rightarrow> Some [start, start])))"

section \<open>The check\<close>

definition dep_successors :: "graph \<Rightarrow> succ_lists" where
  "dep_successors g = map (\<lambda>b. construction_deps g b @ readiness_deps g b) [0..<binding_count g]"

definition component_cyclic :: "succ_lists \<Rightarrow> nat list \<Rightarrow> bool" where
  "component_cyclic ss component =
     (1 < length component \<or> (case component of [] \<Rightarrow> False | only # _ \<Rightarrow> only \<in> set (ss ! only)))"

definition cycle_entry :: "graph \<Rightarrow> nat list \<Rightarrow> wiring_error" where
  "cycle_entry g path =
     Cycle (map (\<lambda>b. (graph_key_name g b, graph_module_name g (fb_origin (binding g b)))) path)"

definition dependency_cycles :: "graph \<Rightarrow> wiring_error list \<Rightarrow> wiring_error list option" where
  "dependency_cycles g errors =
     (case strongly_connected (dep_successors g) of
        None \<Rightarrow> None
      | Some components \<Rightarrow>
          fold_option (\<lambda>component errors.
              if component_cyclic (dep_successors g) component
              then map_option (\<lambda>path. errors @ [cycle_entry g path]) (cycle_through (dep_successors g) component)
              else Some errors)
            components errors)"

section \<open>A cycle through the smallest member\<close>

definition is_cycle :: "succ_lists \<Rightarrow> nat \<Rightarrow> nat list \<Rightarrow> bool" where
  "is_cycle ss start path \<longleftrightarrow> 2 \<le> length path \<and> hd path = start \<and> last path = start \<and>
     (\<forall>i. Suc i < length path \<longrightarrow> (path ! i, path ! Suc i) \<in> edges_of ss)"

text \<open>The parents, in the order they were found: each was found from the start or from an earlier one.\<close>

definition parent_ok :: "succ_lists \<Rightarrow> nat \<Rightarrow> (nat \<times> nat) list \<Rightarrow> bool" where
  "parent_ok ss start ps \<longleftrightarrow> distinct (map fst ps) \<and> start \<notin> fst ` set ps \<and>
     (\<forall>i < length ps. (snd (ps ! i), fst (ps ! i)) \<in> edges_of ss \<and>
        (snd (ps ! i) = start \<or> snd (ps ! i) \<in> fst ` set (take i ps)))"

lemma parent_ok_snoc:
  assumes "parent_ok ss start ps" "(node, s) \<in> edges_of ss" "node = start \<or> node \<in> fst ` set ps"
    "s \<noteq> start" "map_of ps s = None"
  shows "parent_ok ss start (ps @ [(s, node)])"
  using assms by (auto simp: parent_ok_def nth_append less_Suc_eq map_of_eq_None_iff)

lemma chain_Cons:
  "P a (hd xs) \<Longrightarrow> xs \<noteq> [] \<Longrightarrow> \<forall>i. Suc i < length xs \<longrightarrow> P (xs ! i) (xs ! Suc i) \<Longrightarrow>
   \<forall>i. Suc i < length (a # xs) \<longrightarrow> P ((a # xs) ! i) ((a # xs) ! Suc i)"
  by (auto simp: nth_Cons hd_conv_nth split: nat.splits)

definition parent_rank :: "(nat \<times> nat) list \<Rightarrow> nat \<Rightarrow> nat" where
  "parent_rank ps v = (case position_of (\<lambda>p. fst p = v) ps of Some i \<Rightarrow> Suc i | None \<Rightarrow> 0)"

lemma parent_step:
  assumes ok: "parent_ok ss start ps" and v: "v \<in> fst ` set ps"
  shows "\<exists>q. map_of ps v = Some q \<and> (q, v) \<in> edges_of ss \<and> q \<in> insert start (fst ` set ps) \<and>
    parent_rank ps q < parent_rank ps v"
proof -
  obtain i where i: "position_of (\<lambda>p. fst p = v) ps = Some i"
    using v position_of_None [of "\<lambda>p. fst p = v" ps] by (cases "position_of (\<lambda>p. fst p = v) ps") auto
  then have il: "i < length ps" "fst (ps ! i) = v" using position_of_Some [OF i] by auto
  let ?q = "snd (ps ! i)"
  have "map_of ps v = Some ?q"
    using ok il by (metis map_of_is_SomeI nth_mem parent_ok_def prod.collapse)
  moreover have "(?q, v) \<in> edges_of ss" using ok il by (auto simp: parent_ok_def)
  moreover have q: "?q = start \<or> ?q \<in> fst ` set (take i ps)" using ok il by (auto simp: parent_ok_def)
  moreover have "?q \<in> insert start (fst ` set ps)" using q by (auto dest: in_set_takeD)
  moreover have "parent_rank ps ?q < parent_rank ps v"
  proof (cases "position_of (\<lambda>p. fst p = ?q) ps")
    case (Some j)
    then have "?q \<in> fst ` set ps" using position_of_Some [OF Some] by (metis image_eqI nth_mem)
    then have "?q \<noteq> start" using ok by (auto simp: parent_ok_def)
    then obtain k where k: "k < i" "fst (ps ! k) = ?q" using q il by (auto simp: in_set_conv_nth)
    have "\<not> k < j" using position_of_Some [OF Some] k by auto
    then show ?thesis using k i Some by (simp add: parent_rank_def)
  qed (simp add: parent_rank_def i)
  ultimately show ?thesis by blast
qed

lemma walk_back_cycle:
  assumes ok: "parent_ok ss start ps" and node: "node = start \<or> node \<in> fst ` set ps"
    and close: "(node, start) \<in> edges_of ss"
  shows "\<exists>path. walk_back ps start node = Some path \<and> is_cycle ss start path \<and>
    set path \<subseteq> insert start (fst ` set ps)"
proof -
  define K where "K = insert start (fst ` set ps)"
  define I where "I = (\<lambda>(current, path, stop). \<not> stop \<and> current \<in> K \<and> path \<noteq> [] \<and> last path = current \<and> set path \<subseteq> K \<and>
    (\<forall>i. Suc i < length (rev path @ [start]) \<longrightarrow> ((rev path @ [start]) ! i, (rev path @ [start]) ! Suc i) \<in> edges_of ss))"
  have parent: "\<exists>q. map_of ps v = Some q \<and> (q, v) \<in> edges_of ss \<and> q \<in> K \<and> parent_rank ps q < parent_rank ps v"
    if v: "v \<in> K" "v \<noteq> start" for v
    using parent_step [OF ok, of v] v by (auto simp: K_def)
  have init: "I (node, [node], False)"
    using node close by (auto simp: I_def K_def nth_Cons split: nat.splits)
  have keep: "I (walk_back_step ps s) \<and> parent_rank ps (fst (walk_back_step ps s)) < parent_rank ps (fst s)"
    if s: "I s" "walk_back_go start s" for s
  proof -
    obtain v path where v: "s = (v, path, False)" "v \<in> K" "v \<noteq> start"
      using s by (auto simp: I_def walk_back_go_def)
    obtain q where q: "map_of ps v = Some q" "(q, v) \<in> edges_of ss" "q \<in> K" "parent_rank ps q < parent_rank ps v"
      using parent [OF v(2,3)] by blast
    have p: "path \<noteq> []" "last path = v" "set path \<subseteq> K"
      and c: "\<forall>i. Suc i < length (rev path @ [start]) \<longrightarrow> ((rev path @ [start]) ! i, (rev path @ [start]) ! Suc i) \<in> edges_of ss"
      using s(1) v(1) by (auto simp: I_def)
    have hd: "hd (rev path @ [start]) = v" using p by (simp add: hd_append hd_rev)
    have "\<forall>i. Suc i < length (q # rev path @ [start]) \<longrightarrow>
        ((q # rev path @ [start]) ! i, (q # rev path @ [start]) ! Suc i) \<in> edges_of ss"
      by (rule chain_Cons [of "\<lambda>a b. (a, b) \<in> edges_of ss"]) (use q(2) hd c in auto)
    then show ?thesis using v q p by (simp add: I_def walk_back_step_def)
  qed
  have keep1: "\<And>s. I s \<Longrightarrow> walk_back_go start s \<Longrightarrow> I (walk_back_step ps s)"
    and dec: "\<And>s. I s \<Longrightarrow> walk_back_go start s \<Longrightarrow> (walk_back_step ps s, s) \<in> measure (\<lambda>s. parent_rank ps (fst s))"
    using keep by auto
  obtain t where t: "while_option (walk_back_go start) (walk_back_step ps) (node, [node], False) = Some t"
      "I t" "\<not> walk_back_go start t"
    by (rule while_option_total [of I _ "walk_back_go start" "walk_back_step ps",
          OF init keep1 wf_measure dec])
  obtain path where p: "t = (start, path, False)" "path \<noteq> []" "last path = start" "set path \<subseteq> K"
    "\<forall>i. Suc i < length (rev path @ [start]) \<longrightarrow> ((rev path @ [start]) ! i, (rev path @ [start]) ! Suc i) \<in> edges_of ss"
    using t(2,3) by (auto simp: I_def walk_back_go_def)
  have "walk_back ps start node = Some (rev path @ [start])" by (simp add: walk_back_def t(1) p(1))
  moreover have "is_cycle ss start (rev path @ [start])"
    using p(2,3,5) by (cases path rule: rev_cases) (auto simp: is_cycle_def hd_append hd_rev)
  moreover have "set (rev path @ [start]) \<subseteq> K" using p(4) by (auto simp: K_def)
  ultimately show ?thesis unfolding K_def by blast
qed

text \<open>Between two rounds of the walk, \<open>X\<close> the node whose successors are being read.\<close>

definition walk_ok :: "succ_lists \<Rightarrow> nat list \<Rightarrow> nat \<Rightarrow> nat set \<Rightarrow> cycle_walk \<Rightarrow> bool" where
  "walk_ok ss members start X w \<longleftrightarrow>
     parent_ok ss start (cw_parent w) \<and> fst ` set (cw_parent w) \<subseteq> set members \<and>
     set (cw_queue w) \<subseteq> insert start (fst ` set (cw_parent w)) \<and>
     (cw_found w = None \<longrightarrow>
        (\<forall>v \<in> insert start (fst ` set (cw_parent w)) - set (cw_queue w) - X. \<forall>u \<in> set (ss ! v) \<inter> set members.
           u \<noteq> start \<and> u \<in> fst ` set (cw_parent w))) \<and>
     (\<forall>r. cw_found w = Some r \<longrightarrow> (\<exists>path. r = Some path \<and> is_cycle ss start path \<and> set path \<subseteq> set members))"

lemma walk_ok_push:
  assumes ok: "walk_ok ss members start X w" and none: "cw_found w = None"
    and p: "parent_ok ss start (cw_parent w @ [(u, node)])" and u: "u \<in> set members"
  shows "walk_ok ss members start X (w\<lparr>cw_parent := cw_parent w @ [(u, node)], cw_queue := cw_queue w @ [u]\<rparr>)"
    (is "walk_ok _ _ _ _ ?w")
  unfolding walk_ok_def
proof (intro conjI)
  have old: "fst ` set (cw_parent w) \<subseteq> set members" "set (cw_queue w) \<subseteq> insert start (fst ` set (cw_parent w))"
    using ok unfolding walk_ok_def by blast+
  have closed: "v \<in> insert start (fst ` set (cw_parent w)) - set (cw_queue w) - X \<Longrightarrow> x \<in> set (ss ! v) \<inter> set members \<Longrightarrow>
      x \<noteq> start \<and> x \<in> fst ` set (cw_parent w)" for v x
    using ok none unfolding walk_ok_def by blast
  show "parent_ok ss start (cw_parent ?w)" using p by simp
  show "fst ` set (cw_parent ?w) \<subseteq> set members" using old(1) u by simp
  show "set (cw_queue ?w) \<subseteq> insert start (fst ` set (cw_parent ?w))" using old(2) by auto
  show "cw_found ?w = None \<longrightarrow>
        (\<forall>v \<in> insert start (fst ` set (cw_parent ?w)) - set (cw_queue ?w) - X. \<forall>x \<in> set (ss ! v) \<inter> set members.
           x \<noteq> start \<and> x \<in> fst ` set (cw_parent ?w))"
  proof (intro impI ballI)
    fix v x
    assume "v \<in> insert start (fst ` set (cw_parent ?w)) - set (cw_queue ?w) - X" and x: "x \<in> set (ss ! v) \<inter> set members"
    then have "v \<in> insert start (fst ` set (cw_parent w)) - set (cw_queue w) - X" by auto
    from closed [OF this x] show "x \<noteq> start \<and> x \<in> fst ` set (cw_parent ?w)" by simp
  qed
  show "\<forall>r. cw_found ?w = Some r \<longrightarrow> (\<exists>path. r = Some path \<and> is_cycle ss start path \<and> set path \<subseteq> set members)"
    using none by simp
qed

lemma scan_ok:
  assumes "walk_ok ss members start X w" "cw_found w = None"
    and node: "node \<in> insert start (fst ` set (cw_parent w))" "node < length ss"
    and succs: "set us \<subseteq> set (ss ! node)" and members: "set members \<subseteq> {..<length ss}" "start \<in> set members"
    and t: "t = scan_successors members start node us w"
  shows "walk_ok ss members start X t \<and>
     fst ` set (cw_parent w) \<subseteq> fst ` set (cw_parent t) \<and> set (cw_queue w) \<subseteq> set (cw_queue t) \<and>
     (cw_found t = None \<longrightarrow> (\<forall>u \<in> set us \<inter> set members. u \<noteq> start \<and> u \<in> fst ` set (cw_parent t)))"
  using assms(1,2) node(1) succs t
proof (induction us arbitrary: w)
  case (Cons u us)
  have us: "set us \<subseteq> set (ss ! node)" using Cons.prems(4) by simp
  have e: "u \<in> set members \<Longrightarrow> (node, u) \<in> edges_of ss"
    using Cons.prems(4) node(2) members by (auto simp: edges_of_iff)
  consider "u \<notin> set members" | "u \<in> set members" "u = start"
    | "u \<in> set members" "u \<noteq> start" "map_of (cw_parent w) u = None"
    | "u \<in> set members" "u \<noteq> start" "map_of (cw_parent w) u \<noteq> None" by blast
  then show ?case
  proof cases
    case 1
    then have "t = scan_successors members start node us w" using Cons.prems(5) by simp
    from Cons.IH [OF Cons.prems(1-3) us this] show ?thesis using 1 by auto
  next
    case 2
    have ok: "parent_ok ss start (cw_parent w)" "fst ` set (cw_parent w) \<subseteq> set members"
      using Cons.prems(1) by (simp_all add: walk_ok_def)
    have "node = start \<or> node \<in> fst ` set (cw_parent w)" using Cons.prems(3) by blast
    from walk_back_cycle [OF ok(1) this e [OF 2(1), unfolded 2(2)]]
    obtain path where path: "walk_back (cw_parent w) start node = Some path" "is_cycle ss start path"
      "set path \<subseteq> set members" using ok(2) members(2) by blast
    have "t = w\<lparr>cw_found := Some (Some path)\<rparr>" using Cons.prems(5) 2 path(1) by simp
    then show ?thesis using path(2,3) Cons.prems(1) by (simp add: walk_ok_def)
  next
    case 3
    let ?w = "w\<lparr>cw_parent := cw_parent w @ [(u, node)], cw_queue := cw_queue w @ [u]\<rparr>"
    have t: "t = scan_successors members start node us ?w" using Cons.prems(5) 3 by simp
    have "parent_ok ss start (cw_parent w @ [(u, node)])"
      using Cons.prems(1,3) e [OF 3(1)] 3(2,3) by (intro parent_ok_snoc) (simp_all add: walk_ok_def)
    from walk_ok_push [OF Cons.prems(1,2) this 3(1)]
    have ok: "walk_ok ss members start X ?w" .
    have "cw_found ?w = None" "node \<in> insert start (fst ` set (cw_parent ?w))" using Cons.prems(2,3) by auto
    from Cons.IH [OF ok this us t] show ?thesis using 3 by auto
  next
    case 4
    then have u: "u \<in> fst ` set (cw_parent w)" by (auto simp: map_of_eq_None_iff)
    have "t = scan_successors members start node us w" using Cons.prems(5) 4 by simp
    from Cons.IH [OF Cons.prems(1-3) us this] u 4 show ?thesis by auto
  qed
qed simp

lemma walk_pop:
  assumes "walk_ok ss members start {} w" "cw_queue w = node # queue"
  shows "walk_ok ss members start {node} (w\<lparr>cw_queue := queue\<rparr>)"
proof -
  have "insert start (fst ` set (cw_parent w)) - set queue - {node} \<subseteq>
      insert start (fst ` set (cw_parent w)) - set (cw_queue w)" using assms(2) by auto
  then show ?thesis using assms unfolding walk_ok_def by (simp del: insert_iff) blast
qed

lemma walk_close:
  assumes "walk_ok ss members start {node} w"
    and "cw_found w = None \<Longrightarrow> \<forall>u \<in> set (ss ! node) \<inter> set members. u \<noteq> start \<and> u \<in> fst ` set (cw_parent w)"
  shows "walk_ok ss members start {} w"
proof -
  have old: "cw_found w = None \<Longrightarrow> v \<in> insert start (fst ` set (cw_parent w)) - set (cw_queue w) - {node} \<Longrightarrow>
      x \<in> set (ss ! v) \<inter> set members \<Longrightarrow> x \<noteq> start \<and> x \<in> fst ` set (cw_parent w)" for v x
    using assms(1) unfolding walk_ok_def by blast
  have "cw_found w = None \<longrightarrow> (\<forall>v \<in> insert start (fst ` set (cw_parent w)) - set (cw_queue w) - {}.
      \<forall>x \<in> set (ss ! v) \<inter> set members. x \<noteq> start \<and> x \<in> fst ` set (cw_parent w))"
  proof (intro impI ballI)
    fix v x
    assume n: "cw_found w = None" and v: "v \<in> insert start (fst ` set (cw_parent w)) - set (cw_queue w) - {}"
      and x: "x \<in> set (ss ! v) \<inter> set members"
    show "x \<noteq> start \<and> x \<in> fst ` set (cw_parent w)"
      using assms(2) [OF n] old [OF n _ x] v x by (cases "v = node") blast+
  qed
  then show ?thesis using assms(1) unfolding walk_ok_def by (elim conjE) (intro conjI)
qed

lemma cycle_step_ok:
  assumes ok: "walk_ok ss members start {} w" and go: "cw_queue w \<noteq> []" "cw_found w = None"
    and members: "set members \<subseteq> {..<length ss}" "start \<in> set members"
  shows "walk_ok ss members start {} (cycle_step ss members start w)"
proof -
  obtain node queue where q: "cw_queue w = node # queue" using go by (cases "cw_queue w") auto
  define w0 where "w0 = w\<lparr>cw_queue := queue\<rparr>"
  have ok0: "walk_ok ss members start {node} w0" unfolding w0_def by (rule walk_pop [OF ok q])
  have node: "node \<in> insert start (fst ` set (cw_parent w0))"
    using ok q unfolding walk_ok_def w0_def by (simp del: insert_iff)
  have "fst ` set (cw_parent w0) \<subseteq> set members" using ok0 unfolding walk_ok_def by blast
  then have len: "node < length ss" using node members by blast
  have none: "cw_found w0 = None" using go by (simp add: w0_def)
  have eq: "cycle_step ss members start w = scan_successors members start node (ss ! node) w0"
    by (simp add: cycle_step_def q w0_def)
  note scan = scan_ok [OF ok0 none node len order_refl members eq]
  show ?thesis by (rule walk_close [OF conjunct1 [OF scan]]) (use scan in blast)
qed

text \<open>What the walk has left: members without a parent, then queued nodes.\<close>

lemma scan_measure:
  "t = scan_successors members start node us w \<Longrightarrow>
   card (set members - fst ` set (cw_parent t)) < card (set members - fst ` set (cw_parent w)) \<or>
   cw_parent t = cw_parent w \<and> cw_queue t = cw_queue w"
proof (induction us arbitrary: w)
  case (Cons u us)
  show ?case
  proof (cases "u \<in> set members \<and> u \<noteq> start \<and> map_of (cw_parent w) u = None")
    case True
    let ?w = "w\<lparr>cw_parent := cw_parent w @ [(u, node)], cw_queue := cw_queue w @ [u]\<rparr>"
    have t: "t = scan_successors members start node us ?w" using Cons.prems True by simp
    have "set members - fst ` set (cw_parent ?w) \<subset> set members - fst ` set (cw_parent w)"
      using True by (auto simp: map_of_eq_None_iff)
    then have "card (set members - fst ` set (cw_parent ?w)) < card (set members - fst ` set (cw_parent w))"
      by (intro psubset_card_mono) auto
    then show ?thesis using Cons.IH [OF t] by (elim disjE conjE) (simp_all only: less_trans simp_thms)
  next
    case False
    then show ?thesis
      using Cons.IH [of w] Cons.prems by (cases "u \<in> set members"; cases "u = start") auto
  qed
qed simp

lemma cycle_step_measure:
  assumes "cw_queue w \<noteq> []"
  shows "card (set members - fst ` set (cw_parent (cycle_step ss members start w))) < card (set members - fst ` set (cw_parent w)) \<or>
   card (set members - fst ` set (cw_parent (cycle_step ss members start w))) = card (set members - fst ` set (cw_parent w)) \<and>
   length (cw_queue (cycle_step ss members start w)) < length (cw_queue w)"
proof -
  obtain node queue where q: "cw_queue w = node # queue" using assms by (cases "cw_queue w") auto
  have "cycle_step ss members start w = scan_successors members start node (ss ! node) (w\<lparr>cw_queue := queue\<rparr>)"
    by (simp add: cycle_step_def q)
  from scan_measure [OF this] q show ?thesis by auto
qed

lemma scc_within:
  assumes "v \<in> scc_of r s" "(s, u) \<in> r\<^sup>*" "(u, v) \<in> r\<^sup>*"
  shows "u \<in> scc_of r s"
  using assms(1,2) rtrancl_trans [OF assms(3), of s] by (simp add: scc_of_def)

lemma scc_cover:
  assumes s: "s \<in> X" and closed: "\<And>v u. v \<in> X \<Longrightarrow> (v, u) \<in> r \<Longrightarrow> u \<in> scc_of r s \<Longrightarrow> u \<in> X"
  shows "scc_of r s \<subseteq> X"
proof
  fix v assume v: "v \<in> scc_of r s"
  then have "(s, v) \<in> r\<^sup>*" by (simp add: scc_of_def)
  then show "v \<in> X" using v
  proof (induction rule: rtrancl_induct)
    case (step y z)
    have "y \<in> scc_of r s" using scc_within [OF step.prems step.hyps(1)] step.hyps(2) by blast
    from closed [OF step.IH [OF this] step.hyps(2) step.prems] show ?case .
  qed (rule s)
qed

text \<open>In a component with a cycle some member reads the smallest one.\<close>

lemma cyclic_closing_edge:
  assumes scc: "set c = scc_of (edges_of ss) s" and cyc: "component_cyclic ss c" "distinct c"
    and len: "set c \<subseteq> {..<length ss}"
  shows "\<exists>x \<in> set c. (x, s) \<in> edges_of ss"
proof (cases "set c = {s}")
  case True
  moreover have "length c = card (set c)" using cyc(2) by (simp add: distinct_card)
  ultimately have "length c = 1" "set c = {s}" by simp_all
  then have "c = [s]" by (cases c) auto
  then show ?thesis using cyc(1) len by (auto simp: component_cyclic_def edges_of_iff)
next
  case False
  then obtain w where w: "w \<in> scc_of (edges_of ss) s" "w \<noteq> s" using scc scc_of_self by fastforce
  then have "(w, s) \<in> (edges_of ss)\<^sup>+" by (auto simp: scc_of_def rtrancl_eq_or_trancl)
  then obtain x where x: "(w, x) \<in> (edges_of ss)\<^sup>*" "(x, s) \<in> edges_of ss" by (blast dest: tranclD2)
  have "(s, x) \<in> (edges_of ss)\<^sup>*" using w x(1) by (auto simp: scc_of_def)
  then have "x \<in> scc_of (edges_of ss) s" using x(2) by (auto simp: scc_of_def)
  then show ?thesis using scc x(2) by blast
qed

lemma cycle_through_result:
  assumes scc: "\<forall>v \<in> set c. set c = scc_of (edges_of ss) v" and c: "c \<noteq> []" "distinct c"
    and len: "set c \<subseteq> {..<length ss}" and cyc: "component_cyclic ss c"
  shows "\<exists>path. cycle_through ss c = Some path \<and> is_cycle ss (Min (set c)) path \<and> set path \<subseteq> set c"
proof -
  define s where "s = Min (set c)"
  have s: "s \<in> set c" using c by (simp add: s_def)
  let ?go = "\<lambda>w :: cycle_walk. cw_queue w \<noteq> [] \<and> cw_found w = None"
  let ?w0 = "\<lparr>cw_parent = [], cw_queue = [s], cw_found = None\<rparr>"
  have init: "walk_ok ss c s {} ?w0" by (simp add: walk_ok_def parent_ok_def)
  have keep: "walk_ok ss c s {} (cycle_step ss c s w)" if "walk_ok ss c s {} w" "?go w" for w
    by (rule cycle_step_ok [OF that(1) conjunct1 [OF that(2)] conjunct2 [OF that(2)] len s])
  obtain t where t: "while_option ?go (cycle_step ss c s) ?w0 = Some t" "walk_ok ss c s {} t" "\<not> ?go t"
    by (rule while_option_measure2 [of "walk_ok ss c s {}" ?w0 ?go "cycle_step ss c s"
          "\<lambda>w. card (set c - fst ` set (cw_parent w))" "\<lambda>w. length (cw_queue w)",
          OF init keep cycle_step_measure]) simp_all
  have "cw_found t \<noteq> None"
  proof
    assume none: "cw_found t = None"
    let ?X = "insert s (fst ` set (cw_parent t))"
    have q: "cw_queue t = []" using t(3) none by blast
    have closed: "u \<noteq> s \<and> u \<in> ?X" if "v \<in> ?X" "(v, u) \<in> edges_of ss" "u \<in> set c" for v u
    proof -
      have "u \<in> set (ss ! v) \<inter> set c" using that by (simp add: edges_of_iff)
      moreover have "v \<in> ?X - set (cw_queue t) - {}" using that(1) q by simp
      ultimately show ?thesis using t(2) none unfolding walk_ok_def by blast
    qed
    have "scc_of (edges_of ss) s \<subseteq> ?X"
      by (rule scc_cover) (use closed scc s in blast)+
    moreover obtain x where "x \<in> set c" "(x, s) \<in> edges_of ss"
      using cyclic_closing_edge [OF _ cyc c(2) len] scc s by blast
    ultimately show False using closed [of x s] scc s by blast
  qed
  then obtain path where p: "cw_found t = Some (Some path)" "is_cycle ss s path" "set path \<subseteq> set c"
    using t(2) unfolding walk_ok_def by blast
  have "cycle_through ss c = Some path"
    unfolding cycle_through_def s_def [symmetric] Let_def t(1) using c(1) p(1) by simp
  then show ?thesis using p s_def by blast
qed

section \<open>Every cycle is reported once\<close>

lemma distinct_long: "distinct c \<Longrightarrow> 1 < length c \<Longrightarrow> \<exists>w \<in> set c. w \<noteq> v"
proof (rule ccontr)
  assume d: "distinct c" "1 < length c" and "\<not> (\<exists>w \<in> set c. w \<noteq> v)"
  then have "card (set c) \<le> card {v}" by (intro card_mono) auto
  then show False using d by (simp add: distinct_card)
qed

lemma component_cyclic_iff:
  assumes scc: "set c = scc_of (edges_of ss) v" and v: "v \<in> set c" "v < length ss" and d: "distinct c"
  shows "component_cyclic ss c \<longleftrightarrow> (v, v) \<in> (edges_of ss)\<^sup>+"
proof (cases "c = [v]")
  case True
  then have one: "scc_of (edges_of ss) v = {v}" using scc by simp
  have "(v, v) \<in> edges_of ss" if loop: "(v, v) \<in> (edges_of ss)\<^sup>+"
  proof -
    obtain y where y: "(v, y) \<in> edges_of ss" "(y, v) \<in> (edges_of ss)\<^sup>*" using tranclD [OF loop] by blast
    then have "y \<in> scc_of (edges_of ss) v" by (auto simp: scc_of_def)
    then show ?thesis using one y by simp
  qed
  moreover have "v \<in> set (ss ! v) \<longleftrightarrow> (v, v) \<in> edges_of ss" using v(2) by (simp add: edges_of_iff)
  ultimately show ?thesis using True by (auto simp: component_cyclic_def)
next
  case False
  have long: "1 < length c" using False v(1) by (cases c; cases "tl c") auto
  then obtain w where w: "w \<in> set c" "w \<noteq> v" using distinct_long [OF d] by blast
  note long
  moreover have "(v, w) \<in> (edges_of ss)\<^sup>+" "(w, v) \<in> (edges_of ss)\<^sup>*"
    using w scc by (auto simp: scc_of_def rtrancl_eq_or_trancl)
  ultimately show ?thesis by (simp add: component_cyclic_def)
qed

lemma fold_cycles:
  assumes "\<forall>c \<in> set cs. component_cyclic ss c \<longrightarrow> cycle_through ss c \<noteq> None"
  shows "fold_option (\<lambda>c errors. if component_cyclic ss c
            then map_option (\<lambda>path. errors @ [f path]) (cycle_through ss c) else Some errors) cs errors =
         Some (errors @ map f (map (the \<circ> cycle_through ss) (filter (component_cyclic ss) cs)))"
  using assms by (induction cs arbitrary: errors) auto

lemma cycles_report:
  assumes ss: "ss = dep_successors g"
  shows "\<exists>paths. dependency_cycles g errors = Some (errors @ map (cycle_entry g) paths) \<and>
     (\<forall>path \<in> set paths. is_cycle ss (Min (scc_of (edges_of ss) (hd path))) path) \<and> distinct (map hd paths) \<and>
     (\<forall>v. v < length ss \<and> (v, v) \<in> (edges_of ss)\<^sup>+ \<longleftrightarrow> (\<exists>path \<in> set paths. v \<in> scc_of (edges_of ss) (hd path)))"
proof -
  obtain cs where cs: "strongly_connected ss = Some cs" "distinct (concat cs)" "set (concat cs) = {..<length ss}"
    "[] \<notin> set cs" "\<forall>c \<in> set cs. \<forall>v \<in> set c. set c = scc_of (edges_of ss) v"
    using strongly_connected_result [of ss] by blast
  define bad where "bad = filter (component_cyclic ss) cs"
  define path where "path = (the \<circ> cycle_through ss)"
  have d: "distinct c" "set c \<subseteq> {..<length ss}" "c \<noteq> []" if "c \<in> set cs" for c
    using that cs by (auto simp: distinct_concat_iff)
  have res: "cycle_through ss c = Some (path c) \<and> is_cycle ss (Min (set c)) (path c)" if "c \<in> set bad" for c
  proof -
    have c: "c \<in> set cs" "component_cyclic ss c" using that by (auto simp: bad_def)
    obtain p where "cycle_through ss c = Some p" "is_cycle ss (Min (set c)) p"
      using cycle_through_result [of c ss] cs(5) d [OF c(1)] c by blast
    then show ?thesis by (simp add: path_def)
  qed
  have hd: "hd (path c) = Min (set c)" "Min (set c) \<in> set c" "scc_of (edges_of ss) (hd (path c)) = set c"
    if "c \<in> set bad" for c
  proof -
    show h: "hd (path c) = Min (set c)" using res [OF that] by (simp add: is_cycle_def)
    show m: "Min (set c) \<in> set c" using d(3) [of c] that by (auto simp: bad_def)
    then show "scc_of (edges_of ss) (hd (path c)) = set c" using cs(5) that h by (auto simp: bad_def)
  qed
  have "dependency_cycles g errors = Some (errors @ map (cycle_entry g) (map path bad))"
  proof -
    have "\<forall>c \<in> set cs. component_cyclic ss c \<longrightarrow> cycle_through ss c \<noteq> None" using res by (auto simp: bad_def)
    note fold = fold_cycles [OF this, of "cycle_entry g" errors]
    show ?thesis unfolding dependency_cycles_def ss [symmetric] cs(1) option.case fold bad_def path_def ..
  qed
  moreover have "\<forall>p \<in> set (map path bad). is_cycle ss (Min (scc_of (edges_of ss) (hd p))) p"
    using res hd by auto
  moreover have "distinct (map hd (map path bad))"
  proof -
    have "distinct bad" using cs(2,4) by (simp add: bad_def distinct_concat_iff)
    moreover have "inj_on (hd \<circ> path) (set bad)"
    proof (rule inj_onI)
      fix a b assume ab: "a \<in> set bad" "b \<in> set bad" "(hd \<circ> path) a = (hd \<circ> path) b"
      then have "set a = set b" using hd(3) [OF ab(1)] hd(3) [OF ab(2)] by simp
      moreover have "a \<noteq> b \<Longrightarrow> set a \<inter> set b = {}" using ab(1,2) cs(2) by (simp add: distinct_concat_iff bad_def)
      ultimately show "a = b" using hd(2) [OF ab(1)] by blast
    qed
    ultimately show ?thesis by (simp add: distinct_map)
  qed
  moreover have "v < length ss \<and> (v, v) \<in> (edges_of ss)\<^sup>+ \<longleftrightarrow> (\<exists>p \<in> set (map path bad). v \<in> scc_of (edges_of ss) (hd p))" for v
  proof
    assume v: "v < length ss \<and> (v, v) \<in> (edges_of ss)\<^sup>+"
    then obtain c where c: "c \<in> set cs" "v \<in> set c" using cs(3) by auto
    then have "c \<in> set bad" using v component_cyclic_iff [OF _ c(2)] cs(5) d(1) by (auto simp: bad_def)
    then show "\<exists>p \<in> set (map path bad). v \<in> scc_of (edges_of ss) (hd p)" using hd(3) c(2) by auto
  next
    assume "\<exists>p \<in> set (map path bad). v \<in> scc_of (edges_of ss) (hd p)"
    then obtain c where c: "c \<in> set bad" "v \<in> set c" using hd(3) by auto
    then have "c \<in> set cs" "component_cyclic ss c" by (auto simp: bad_def)
    moreover from this have "v < length ss" using d(2) c(2) by blast
    ultimately show "v < length ss \<and> (v, v) \<in> (edges_of ss)\<^sup>+"
      using component_cyclic_iff [OF _ c(2)] cs(5) d(1) c(2) by blast
  qed
  ultimately show ?thesis by blast
qed

section \<open>Claims\<close>

definition ring_binding :: "nat \<Rightarrow> nat \<Rightarrow> frozen_binding" where
  "ring_binding i j =
     \<lparr>fb_id = i, fb_origin = 0,
      fb_record = binding_record_new (key_of (RustType (Suc i) ''T'') unit_type) ''T'' BK_Single SK_Singleton
        (RecipeConstruct 0) no_deps (''m.rs'', 1, 1),
      fb_role = RoleProvider, fb_effective = EffSingleton, fb_needs_execution = False,
      fb_edges = [\<lparr>ed_target = TargetBinding j, ed_dependency = 0, ed_optional = False\<rparr>]\<rparr>"

definition ring_graph :: graph where
  "ring_graph = graph_empty\<lparr>g_bindings := [ring_binding 0 1, ring_binding 1 0]\<rparr>"

lemma ring_graph_successors: "dep_successors ring_graph = [[1], [0]]"
  by (simp add: dep_successors_def ring_graph_def ring_binding_def construction_deps_def readiness_deps_def
      alias_target_def binding_def binding_record_new_def upt_rec)

text \<open>
  C3. \<open>strongly_connected\<close> ends on every graph, and what it returns is the partition of the nodes into
  the strongly connected components: every node is in exactly one list, no list is empty, and the
  members of a list are exactly the nodes that reach it and are reached from it.
\<close>

theorem strongly_connected_sccs:
  "\<exists>cs. strongly_connected ss = Some cs \<and> distinct (concat cs) \<and> set (concat cs) = {..<length ss} \<and>
     set ` set cs = scc_of (edges_of ss) ` {..<length ss}"
proof -
  obtain cs where cs: "strongly_connected ss = Some cs" "distinct (concat cs)" "set (concat cs) = {..<length ss}"
    "[] \<notin> set cs" "\<forall>c \<in> set cs. \<forall>v \<in> set c. set c = scc_of (edges_of ss) v"
    using strongly_connected_result [of ss] by blast
  have "set ` set cs = scc_of (edges_of ss) ` {..<length ss}"
  proof (intro equalityI subsetI)
    fix X assume "X \<in> set ` set cs"
    then obtain c where c: "c \<in> set cs" "X = set c" by auto
    have h: "hd c \<in> set c" using c cs(4) by (cases "c = []") auto
    then have "hd c \<in> {..<length ss}" using c(1) unfolding cs(3) [symmetric] by auto
    moreover have "X = scc_of (edges_of ss) (hd c)" using c h cs(5) by blast
    ultimately show "X \<in> scc_of (edges_of ss) ` {..<length ss}" by blast
  next
    fix X assume "X \<in> scc_of (edges_of ss) ` {..<length ss}"
    then obtain v where v: "v \<in> {..<length ss}" "X = scc_of (edges_of ss) v" by blast
    then obtain c where "c \<in> set cs" "v \<in> set c" unfolding cs(3) [symmetric] by auto
    then show "X \<in> set ` set cs" using cs(5) v(2) by auto
  qed
  then show ?thesis using cs by blast
qed

text \<open>
  C4. The cycle check ends; it adds one entry per strongly connected component that holds a cycle
  and none for the others. Each entry is a cycle of the dependency graph that starts and ends at the
  smallest binding of its component, and a binding lies on a cycle exactly when it is in the
  component of one of the entries.
\<close>

theorem dependency_cycles_reported:
  "\<exists>paths. dependency_cycles g errors = Some (errors @ map (cycle_entry g) paths) \<and>
     (\<forall>path \<in> set paths. is_cycle (dep_successors g) (Min (scc_of (edges_of (dep_successors g)) (hd path))) path) \<and>
     distinct (map hd paths) \<and>
     (\<forall>v. v < binding_count g \<and> (v, v) \<in> (edges_of (dep_successors g))\<^sup>+ \<longleftrightarrow>
        (\<exists>path \<in> set paths. v \<in> scc_of (edges_of (dep_successors g)) (hd path)))"
proof -
  have "length (dep_successors g) = binding_count g" by (simp add: dep_successors_def)
  then show ?thesis using cycles_report [OF refl, of g errors] by simp
qed

text \<open>Two bindings that read each other.\<close>

theorem dependency_cycles_reported_witness:
  "\<exists>paths. dependency_cycles ring_graph [] = Some (map (cycle_entry ring_graph) paths) \<and>
     (\<exists>path \<in> set paths. 0 \<in> scc_of (edges_of (dep_successors ring_graph)) (hd path))"
proof -
  have e: "(0, 1) \<in> edges_of (dep_successors ring_graph)" "(1, 0) \<in> edges_of (dep_successors ring_graph)"
    by (simp_all add: edges_of_iff ring_graph_successors)
  have "(0, 0) \<in> (edges_of (dep_successors ring_graph))\<^sup>+"
    by (rule trancl_into_trancl [OF r_into_trancl [OF e(1)] e(2)])
  moreover have "binding_count ring_graph = 2" by (simp add: ring_graph_def)
  ultimately show ?thesis using dependency_cycles_reported [of ring_graph "[]"] by fastforce
qed

text \<open>
  The cycle check leaves the report as it is exactly when the dependency graph, over constructions,
  collection reads, aliases and readiness checks, is acyclic.
\<close>

lemma no_cycles_iff_acyclic:
  "dependency_cycles g errors = Some errors \<longleftrightarrow> acyclic (edges_of (dep_successors g))"
proof -
  let ?E = "edges_of (dep_successors g)"
  obtain paths where p: "dependency_cycles g errors = Some (errors @ map (cycle_entry g) paths)"
    "\<forall>v. v < length (dep_successors g) \<and> (v, v) \<in> ?E\<^sup>+ \<longleftrightarrow> (\<exists>path \<in> set paths. v \<in> scc_of ?E (hd path))"
    using cycles_report [OF refl, of g errors] by blast
  have range: "(v, v) \<in> ?E\<^sup>+ \<Longrightarrow> v < length (dep_successors g)" for v
    using tranclD [of v v ?E] by (auto simp: edges_of_iff)
  have "acyclic ?E \<longleftrightarrow> paths = []"
  proof
    assume "acyclic ?E"
    then have "path \<notin> set paths" for path using p(2) scc_of_self [of "hd path" ?E] unfolding acyclic_def by blast
    then show "paths = []" by (cases paths) auto
  next
    assume "paths = []"
    then show "acyclic ?E" using p(2) range by (auto simp: acyclic_def)
  qed
  then show ?thesis using p(1) by simp
qed

end
