(* ===== verification/Connect_Order.thy ===== *)
theory Connect_Order
  imports Cycles "HOL-Library.Multiset"
begin

text \<open>
  The order \<open>connect\<close> builds the singletons in, \<open>connect_order\<close> and \<open>singleton_deps\<close> of
  \<open>crates/ulo/src/graph/order.rs\<close>: what a singleton waits for is read through the transients and
  aliases in between, and among the singletons with nothing left to wait for the smallest comes
  next. The binary heap of the standard library is used through the contract of a min-queue.
\<close>

section \<open>The min-queue\<close>

text \<open>\<open>BinaryHeap<Reverse<BindingId>>\<close>: \<open>pop\<close> answers the smallest id.\<close>

definition heap_push :: "nat \<Rightarrow> nat list \<Rightarrow> nat list" where
  "heap_push x h = insort x h"

fun heap_pop :: "nat list \<Rightarrow> (nat \<times> nat list) option" where
  "heap_pop [] = None"
| "heap_pop (x # h) = Some (x, h)"

locale min_queue =
  fixes valid :: "'h \<Rightarrow> bool" and new :: 'h and push :: "nat \<Rightarrow> 'h \<Rightarrow> 'h"
    and pop :: "'h \<Rightarrow> (nat \<times> 'h) option" and elems :: "'h \<Rightarrow> nat multiset"
  assumes new: "valid new" "elems new = {#}"
    and push: "valid h \<Longrightarrow> valid (push x h)" "valid h \<Longrightarrow> elems (push x h) = add_mset x (elems h)"
    and pop_None: "valid h \<Longrightarrow> pop h = None \<longleftrightarrow> elems h = {#}"
    and pop_Some: "valid h \<Longrightarrow> pop h = Some (x, h') \<Longrightarrow>
      valid h' \<and> elems h = add_mset x (elems h') \<and> (\<forall>y \<in># elems h. x \<le> y)"
begin

lemma pop_nonempty: "valid h \<Longrightarrow> elems h \<noteq> {#} \<Longrightarrow> \<exists>x h'. pop h = Some (x, h')"
  using pop_None by fastforce

lemma fold_push:
  "valid h \<Longrightarrow> valid (fold push xs h) \<and> elems (fold push xs h) = mset xs + elems h"
  by (induction xs arbitrary: h) (auto simp: push)

end

interpretation heap: min_queue sorted "[]" heap_push heap_pop mset
proof unfold_locales
  fix h :: "nat list" and x h'
  assume "sorted h" "heap_pop h = Some (x, h')"
  then show "sorted h' \<and> mset h = add_mset x (mset h') \<and> (\<forall>y \<in># mset h. x \<le> y)" by (cases h) auto
next
  fix h :: "nat list"
  show "heap_pop h = None \<longleftrightarrow> mset h = {#}" by (cases h) auto
qed (auto simp: heap_push_def sorted_insort)

section \<open>What a singleton waits for\<close>

record waits =
  wt_deps :: "nat list"
  wt_seen :: "nat list"
  wt_pending :: "nat list"

definition waits_step :: "graph \<Rightarrow> bool list \<Rightarrow> nat \<Rightarrow> waits \<Rightarrow> waits" where
  "waits_step g singles b s =
     (let dep = last (wt_pending s); s = s\<lparr>wt_pending := butlast (wt_pending s)\<rparr>
      in if dep = b \<or> dep \<in> set (wt_seen s) then s
         else (let s = s\<lparr>wt_seen := dep # wt_seen s\<rparr>
               in if singles ! dep then s\<lparr>wt_deps := wt_deps s @ [dep]\<rparr>
                  else if fb_effective (binding g dep) = EffTransient
                    then s\<lparr>wt_pending := wt_pending s @ construction_deps g dep\<rparr>
                  else s))"

definition singleton_deps :: "graph \<Rightarrow> bool list \<Rightarrow> nat \<Rightarrow> nat list option" where
  "singleton_deps g singles b =
     map_option wt_deps
       (while_option (\<lambda>s. wt_pending s \<noteq> []) (waits_step g singles b)
          \<lparr>wt_deps = [], wt_seen = [], wt_pending = construction_deps g b @ readiness_deps g b\<rparr>)"

section \<open>The order\<close>

definition singleton_flags :: "graph \<Rightarrow> bool list" where
  "singleton_flags g = map (\<lambda>b. fb_effective b = EffSingleton) (g_bindings g)"

definition add_wait :: "nat \<Rightarrow> nat \<Rightarrow> nat list \<times> nat list list \<Rightarrow> nat list \<times> nat list list" where
  "add_wait b dep = (\<lambda>(waiting, dependents).
     (waiting[b := waiting ! b + 1], dependents[dep := dependents ! dep @ [b]]))"

definition add_waits :: "graph \<Rightarrow> bool list \<Rightarrow> nat \<Rightarrow> nat list \<times> nat list list \<Rightarrow> (nat list \<times> nat list list) option" where
  "add_waits g singles b s =
     (if \<not> singles ! b then Some s
      else map_option (\<lambda>deps. fold (add_wait b) deps s) (singleton_deps g singles b))"

record placing =
  pl_order :: "nat list"
  pl_placed :: "bool list"
  pl_ready :: "nat list"
  pl_waiting :: "nat list"

definition release :: "nat \<Rightarrow> placing \<Rightarrow> placing" where
  "release dependent s =
     (let left = pl_waiting s ! dependent - 1;
          s = s\<lparr>pl_waiting := (pl_waiting s)[dependent := left]\<rparr>
      in if left = 0 then s\<lparr>pl_ready := heap_push dependent (pl_ready s)\<rparr> else s)"

definition place_step :: "nat list list \<Rightarrow> placing \<Rightarrow> placing" where
  "place_step dependents s =
     (case heap_pop (pl_ready s) of
        None \<Rightarrow> s
      | Some (b, ready) \<Rightarrow>
          fold release (dependents ! b)
            (s\<lparr>pl_ready := ready, pl_order := pl_order s @ [b], pl_placed := (pl_placed s)[b := True]\<rparr>))"

definition connect_order :: "graph \<Rightarrow> nat list option" where
  "connect_order g =
     (let count = binding_count g; singles = singleton_flags g; ids = map fb_id (g_bindings g) in
      case fold_option (add_waits g singles) ids (replicate count 0, replicate count []) of
        None \<Rightarrow> None
      | Some (waiting, dependents) \<Rightarrow>
          (let ready = fold heap_push (filter (\<lambda>b. singles ! b \<and> waiting ! b = 0) ids) [] in
           map_option (\<lambda>s. pl_order s @ filter (\<lambda>b. singles ! b \<and> \<not> pl_placed s ! b) ids)
             (while_option (\<lambda>s. heap_pop (pl_ready s) \<noteq> None) (place_step dependents)
                \<lparr>pl_order = [], pl_placed = replicate count False, pl_ready = ready, pl_waiting = waiting\<rparr>)))"

section \<open>Reading through transients\<close>

text \<open>
  \<open>waits_for g b d\<close>: the singleton \<open>d\<close> is read by \<open>b\<close>, by its construction or its readiness check,
  through any number of transients built at the read.
\<close>

definition through :: "graph \<Rightarrow> nat \<Rightarrow> (nat \<times> nat) set" where
  "through g b = {(x, y). x \<noteq> b \<and> fb_effective (binding g x) = EffTransient \<and> y \<in> set (construction_deps g x)}"

definition waits_for :: "graph \<Rightarrow> nat \<Rightarrow> nat \<Rightarrow> bool" where
  "waits_for g b d \<longleftrightarrow> d \<noteq> b \<and> fb_effective (binding g d) = EffSingleton \<and>
     (\<exists>x \<in> set (construction_deps g b @ readiness_deps g b). (x, d) \<in> (through g b)\<^sup>*)"

definition read_set :: "graph \<Rightarrow> nat \<Rightarrow> nat set" where
  "read_set g b = (through g b)\<^sup>* `` set (construction_deps g b @ readiness_deps g b)"

lemma waits_for_iff:
  "waits_for g b d \<longleftrightarrow> d \<noteq> b \<and> fb_effective (binding g d) = EffSingleton \<and> d \<in> read_set g b"
  by (auto simp: waits_for_def read_set_def)

lemma read_set_range:
  assumes "wf_graph g" "b < binding_count g"
  shows "read_set g b \<subseteq> {..<binding_count g}"
proof
  fix d assume "d \<in> read_set g b"
  then obtain x where x: "x \<in> set (construction_deps g b @ readiness_deps g b)" "(x, d) \<in> (through g b)\<^sup>*"
    by (auto simp: read_set_def)
  have "x < binding_count g"
    using x(1) construction_deps_in_range [OF assms] readiness_deps_in_range [OF assms] by auto
  with x(2) have "d < binding_count g"
    by (induction rule: rtrancl_induct) (auto simp: through_def intro: construction_deps_in_range [OF assms(1)])
  then show "d \<in> {..<binding_count g}" by simp
qed

lemma flag_nth [simp]: "b < binding_count g \<Longrightarrow> singleton_flags g ! b \<longleftrightarrow> fb_effective (binding g b) = EffSingleton"
  by (simp add: singleton_flags_def binding_def)

definition waits_ok :: "graph \<Rightarrow> nat \<Rightarrow> waits \<Rightarrow> bool" where
  "waits_ok g b s \<longleftrightarrow>
     set (wt_pending s) \<subseteq> read_set g b \<and> set (wt_seen s) \<subseteq> read_set g b - {b} \<and> distinct (wt_seen s) \<and>
     set (construction_deps g b @ readiness_deps g b) \<subseteq> set (wt_seen s) \<union> set (wt_pending s) \<union> {b} \<and>
     (\<forall>x \<in> set (wt_seen s). fb_effective (binding g x) = EffTransient \<longrightarrow>
        set (construction_deps g x) \<subseteq> set (wt_seen s) \<union> set (wt_pending s) \<union> {b}) \<and>
     set (wt_deps s) = {d \<in> set (wt_seen s). fb_effective (binding g d) = EffSingleton} \<and> distinct (wt_deps s)"

lemma waits_okD:
  assumes "waits_ok g b s"
  shows "set (wt_pending s) \<subseteq> read_set g b" "set (wt_seen s) \<subseteq> read_set g b - {b}" "distinct (wt_seen s)"
    "set (construction_deps g b @ readiness_deps g b) \<subseteq> set (wt_seen s) \<union> set (wt_pending s) \<union> {b}"
    "x \<in> set (wt_seen s) \<Longrightarrow> fb_effective (binding g x) = EffTransient \<Longrightarrow>
       set (construction_deps g x) \<subseteq> set (wt_seen s) \<union> set (wt_pending s) \<union> {b}"
    "set (wt_deps s) = {d \<in> set (wt_seen s). fb_effective (binding g d) = EffSingleton}" "distinct (wt_deps s)"
  using assms unfolding waits_ok_def by blast+

lemma waits_ok_see:
  assumes ok: "waits_ok g b s" and pend: "set (wt_pending s) = insert dep P" and dep: "dep \<noteq> b" "dep \<notin> set (wt_seen s)"
    and seen: "wt_seen t = dep # wt_seen s"
    and pending: "set (wt_pending t) = P \<union> (if fb_effective (binding g dep) = EffTransient then set (construction_deps g dep) else {})"
    and deps: "wt_deps t = wt_deps s @ (if fb_effective (binding g dep) = EffSingleton then [dep] else [])"
    and new: "fb_effective (binding g dep) = EffTransient \<Longrightarrow> set (construction_deps g dep) \<subseteq> read_set g b"
  shows "waits_ok g b t"
  unfolding waits_ok_def
proof (intro conjI ballI impI)
  note old = waits_okD [OF ok]
  show "set (wt_pending t) \<subseteq> read_set g b" using old(1) pend pending new by auto
  show "set (wt_seen t) \<subseteq> read_set g b - {b}" using old(1,2) pend dep seen by auto
  show "distinct (wt_seen t)" using old(3) dep seen by simp
  show "set (construction_deps g b @ readiness_deps g b) \<subseteq> set (wt_seen t) \<union> set (wt_pending t) \<union> {b}"
    using old(4) pend pending seen by auto
  show "set (construction_deps g x) \<subseteq> set (wt_seen t) \<union> set (wt_pending t) \<union> {b}"
    if "x \<in> set (wt_seen t)" "fb_effective (binding g x) = EffTransient" for x
    using old(5) [of x] that pend pending seen by auto
  show "set (wt_deps t) = {d \<in> set (wt_seen t). fb_effective (binding g d) = EffSingleton}"
    using old(6) seen deps by auto
  show "distinct (wt_deps t)" using old(6,7) dep deps by auto
qed

lemma waits_ok_drop:
  assumes ok: "waits_ok g b s" and pend: "set (wt_pending s) = insert dep P" and dep: "dep = b \<or> dep \<in> set (wt_seen s)"
    and t: "wt_seen t = wt_seen s" "set (wt_pending t) = P" "wt_deps t = wt_deps s"
  shows "waits_ok g b t"
  unfolding waits_ok_def t
proof (intro conjI ballI impI)
  note old = waits_okD [OF ok]
  show "set (construction_deps g x) \<subseteq> set (wt_seen s) \<union> P \<union> {b}"
    if "x \<in> set (wt_seen s)" "fb_effective (binding g x) = EffTransient" for x
    using old(5) [OF that] pend dep by auto
qed (use waits_okD [OF ok] pend dep in auto)

lemma waits_step_ok:
  assumes wf: "wf_graph g" "b < binding_count g" and ok: "waits_ok g b s" and go: "wt_pending s \<noteq> []"
  shows "waits_ok g b (waits_step g (singleton_flags g) b s)" (is "waits_ok g b ?t")
    and "binding_count g - card (set (wt_seen (waits_step g (singleton_flags g) b s))) < binding_count g - card (set (wt_seen s)) \<or>
         binding_count g - card (set (wt_seen (waits_step g (singleton_flags g) b s))) = binding_count g - card (set (wt_seen s)) \<and>
         length (wt_pending (waits_step g (singleton_flags g) b s)) < length (wt_pending s)"
proof -
  define dep where "dep = last (wt_pending s)"
  have pend: "set (wt_pending s) = insert dep (set (butlast (wt_pending s)))"
    using go unfolding dep_def by (metis append_butlast_last_id list.set(2) rotate1.simps(2) set_rotate1)
  have dep: "dep \<in> read_set g b" using waits_okD(1) [OF ok] pend by auto
  have range: "dep < binding_count g" using dep read_set_range [OF wf] by auto
  have new: "dep \<noteq> b \<Longrightarrow> fb_effective (binding g dep) = EffTransient \<Longrightarrow> set (construction_deps g dep) \<subseteq> read_set g b"
    using dep by (auto simp: read_set_def through_def intro: rtrancl_into_rtrancl)
  have drop: "?t = s\<lparr>wt_pending := butlast (wt_pending s)\<rparr>" if "dep = b \<or> dep \<in> set (wt_seen s)"
    using that by (simp add: waits_step_def dep_def Let_def)
  have see: "wt_seen ?t = dep # wt_seen s"
    "wt_pending ?t = butlast (wt_pending s) @ (if fb_effective (binding g dep) = EffTransient then construction_deps g dep else [])"
    "wt_deps ?t = wt_deps s @ (if fb_effective (binding g dep) = EffSingleton then [dep] else [])"
    if "dep \<noteq> b" "dep \<notin> set (wt_seen s)"
    using that range by (simp_all add: waits_step_def dep_def [symmetric] Let_def)
  show "waits_ok g b ?t"
  proof (cases "dep = b \<or> dep \<in> set (wt_seen s)")
    case True
    then show ?thesis by (rule waits_ok_drop [OF ok pend]) (simp_all add: drop [OF True])
  next
    case False
    then have f: "dep \<noteq> b" "dep \<notin> set (wt_seen s)" by auto
    show ?thesis by (rule waits_ok_see [OF ok pend f see(1) [OF f] _ see(3) [OF f] new [OF f(1)]]) (simp_all add: see(2) [OF f])
  qed
  show "binding_count g - card (set (wt_seen ?t)) < binding_count g - card (set (wt_seen s)) \<or>
         binding_count g - card (set (wt_seen ?t)) = binding_count g - card (set (wt_seen s)) \<and>
         length (wt_pending ?t) < length (wt_pending s)"
  proof (cases "dep = b \<or> dep \<in> set (wt_seen s)")
    case True
    then show ?thesis using go drop by simp
  next
    case False
    then have f: "dep \<noteq> b" "dep \<notin> set (wt_seen s)" by auto
    have "insert dep (set (wt_seen s)) \<subseteq> {..<binding_count g}"
      using waits_okD(2) [OF ok] read_set_range [OF wf] range by auto
    from card_mono [OF _ this] have "card (insert dep (set (wt_seen s))) \<le> binding_count g" by simp
    then show ?thesis using see(1) [OF f] f by (simp, linarith)
  qed
qed

lemma singleton_deps_result:
  assumes wf: "wf_graph g" "b < binding_count g"
  shows "\<exists>deps. singleton_deps g (singleton_flags g) b = Some deps \<and> distinct deps \<and> set deps = {d. waits_for g b d}"
proof -
  let ?s = "\<lparr>wt_deps = [], wt_seen = [], wt_pending = construction_deps g b @ readiness_deps g b\<rparr>"
  let ?go = "\<lambda>s :: waits. wt_pending s \<noteq> []"
  have init: "waits_ok g b ?s" by (auto simp: waits_ok_def read_set_def)
  obtain t where t: "while_option ?go (waits_step g (singleton_flags g) b) ?s = Some t" "waits_ok g b t" "\<not> wt_pending t \<noteq> []"
    by (rule while_option_measure2 [of "waits_ok g b" ?s ?go "waits_step g (singleton_flags g) b"
          "\<lambda>s. binding_count g - card (set (wt_seen s))" "\<lambda>s. length (wt_pending s)",
          OF init waits_step_ok(1) [OF wf] waits_step_ok(2) [OF wf]])
  have closed: "y \<in> set (wt_seen t) \<union> {b}" if "x \<in> set (wt_seen t) \<union> {b}" "(x, y) \<in> through g b" for x y
    using waits_okD(5) [OF t(2)] that t(3) by (auto simp: through_def)
  have "read_set g b \<subseteq> set (wt_seen t) \<union> {b}"
  proof
    fix d assume "d \<in> read_set g b"
    then obtain x where x: "x \<in> set (construction_deps g b @ readiness_deps g b)" "(x, d) \<in> (through g b)\<^sup>*"
      by (auto simp: read_set_def)
    have "x \<in> set (wt_seen t) \<union> {b}" using waits_okD(4) [OF t(2)] t(3) x(1) by auto
    with closed_rtrancl [of "set (wt_seen t) \<union> {b}", OF _ x(2)] closed
    show "d \<in> set (wt_seen t) \<union> {b}" by metis
  qed
  then have "set (wt_deps t) = {d. waits_for g b d}"
    using waits_okD(2,6) [OF t(2)] unfolding waits_for_iff by auto
  moreover have "singleton_deps g (singleton_flags g) b = Some (wt_deps t)" by (simp add: singleton_deps_def t(1))
  ultimately show ?thesis using waits_okD(7) [OF t(2)] by blast
qed

section \<open>Counting what is waited for\<close>

abbreviation single :: "graph \<Rightarrow> nat \<Rightarrow> bool" where
  "single g b \<equiv> b < binding_count g \<and> fb_effective (binding g b) = EffSingleton"

lemma waits_for_single: "wf_graph g \<Longrightarrow> b < binding_count g \<Longrightarrow> waits_for g b d \<Longrightarrow> single g d \<and> d \<noteq> b"
  using read_set_range by (auto simp: waits_for_iff)

lemma finite_waits: "wf_graph g \<Longrightarrow> b < binding_count g \<Longrightarrow> finite {d. waits_for g b d \<and> P d}"
  by (rule finite_subset [of _ "{..<binding_count g}"]) (auto dest: waits_for_single)

lemma fold_add_wait:
  assumes "distinct deps" "set deps \<subseteq> {..<length ds}" "b < length w"
  shows "\<exists>ds'. fold (add_wait b) deps (w, ds) = (w[b := w ! b + length deps], ds') \<and> length ds' = length ds \<and>
     (\<forall>d < length ds. ds' ! d = ds ! d @ (if d \<in> set deps then [b] else []))"
  using assms
proof (induction deps arbitrary: w ds)
  case (Cons dep deps)
  let ?w = "w[b := w ! b + 1]" and ?ds = "ds[dep := ds ! dep @ [b]]"
  obtain ds' where ds': "fold (add_wait b) deps (?w, ?ds) = (?w[b := ?w ! b + length deps], ds')" "length ds' = length ?ds"
    "\<forall>d < length ?ds. ds' ! d = ?ds ! d @ (if d \<in> set deps then [b] else [])"
    using Cons.IH [of ?ds ?w] Cons.prems by auto
  then have "fold (add_wait b) (dep # deps) (w, ds) = (w[b := w ! b + length (dep # deps)], ds')"
    using Cons.prems by (simp add: add_wait_def)
  moreover have "ds' ! d = ds ! d @ (if d \<in> set (dep # deps) then [b] else [])" if "d < length ds" for d
    using ds'(3) that Cons.prems by (auto simp: nth_list_update)
  ultimately show ?case using ds'(2) by auto
qed simp

definition counted :: "graph \<Rightarrow> nat \<Rightarrow> nat list \<times> nat list list \<Rightarrow> bool" where
  "counted g i = (\<lambda>(w, ds). length w = binding_count g \<and> length ds = binding_count g \<and>
     (\<forall>b < binding_count g. w ! b = (if b < i \<and> single g b then card {d. waits_for g b d} else 0)) \<and>
     (\<forall>d < binding_count g. distinct (ds ! d) \<and> set (ds ! d) = {b. b < i \<and> single g b \<and> waits_for g b d}))"

lemma add_waits_counted:
  assumes wf: "wf_graph g" and i: "i < binding_count g" and c: "counted g i s"
  shows "\<exists>t. add_waits g (singleton_flags g) i s = Some t \<and> counted g (Suc i) t"
proof -
  obtain w ds where s: "s = (w, ds)" by force
  show ?thesis
  proof (cases "single g i")
    case False
    then show ?thesis using c i by (auto simp: add_waits_def counted_def s less_Suc_eq)
  next
    case True
    obtain deps where deps: "singleton_deps g (singleton_flags g) i = Some deps" "distinct deps" "set deps = {d. waits_for g i d}"
      using singleton_deps_result [OF wf i] by blast
    have len: "length w = binding_count g" "length ds = binding_count g" using c by (auto simp: counted_def s)
    have sub: "set deps \<subseteq> {..<length ds}" using deps(3) waits_for_single [OF wf i] len by auto
    obtain ds' where ds': "fold (add_wait i) deps (w, ds) = (w[i := w ! i + length deps], ds')" "length ds' = length ds"
      "\<forall>d < length ds. ds' ! d = ds ! d @ (if d \<in> set deps then [i] else [])"
      using fold_add_wait [OF deps(2) sub] i len by metis
    have "length deps = card {d. waits_for g i d}" using deps(2,3) by (simp flip: distinct_card)
    then have "\<forall>b < binding_count g. w[i := w ! i + length deps] ! b =
        (if b < Suc i \<and> single g b then card {d. waits_for g b d} else 0)"
      using c i True len by (auto simp: counted_def s nth_list_update less_Suc_eq)
    moreover have "\<forall>d < binding_count g. distinct (ds' ! d) \<and> set (ds' ! d) = {b. b < Suc i \<and> single g b \<and> waits_for g b d}"
      using c ds'(3) len deps(3) True by (auto simp: counted_def s less_Suc_eq)
    ultimately have "counted g (Suc i) (w[i := w ! i + length deps], ds')"
      using len ds'(2) by (simp add: counted_def)
    then show ?thesis using True deps(1) ds'(1) by (simp add: add_waits_def s)
  qed
qed

lemma wf_ids: "wf_graph g \<Longrightarrow> map fb_id (g_bindings g) = [0..<binding_count g]"
  by (rule nth_equalityI) (auto simp: wf_graph_def binding_def)

lemma all_counted:
  assumes wf: "wf_graph g"
  shows "\<exists>t. fold_option (add_waits g (singleton_flags g)) (map fb_id (g_bindings g))
      (replicate (binding_count g) 0, replicate (binding_count g) []) = Some t \<and> counted g (binding_count g) t"
proof -
  let ?xs = "map fb_id (g_bindings g)"
  have "\<exists>t. fold_option (add_waits g (singleton_flags g)) ?xs
      (replicate (binding_count g) 0, replicate (binding_count g) []) = Some t \<and> counted g (length ?xs) t"
    by (rule fold_option_rule) (use wf_ids [OF wf] add_waits_counted [OF wf] in \<open>auto simp: counted_def\<close>)
  then show ?thesis by simp
qed

section \<open>Placing\<close>

lemma fold_release:
  assumes "distinct cs" "\<forall>c \<in> set cs. c < length (pl_waiting s) \<and> 0 < pl_waiting s ! c" "sorted (pl_ready s)"
  shows "\<exists>w r. fold release cs s = s\<lparr>pl_waiting := w, pl_ready := r\<rparr> \<and> length w = length (pl_waiting s) \<and>
     (\<forall>c. w ! c = (if c \<in> set cs then pl_waiting s ! c - 1 else pl_waiting s ! c)) \<and> sorted r \<and>
     mset r = mset (pl_ready s) + mset (filter (\<lambda>c. pl_waiting s ! c = 1) cs)"
  using assms
proof (induction cs arbitrary: s)
  case Nil
  then show ?case by (intro exI [of _ "pl_waiting s"] exI [of _ "pl_ready s"]) simp
next
  case (Cons c cs)
  define s1 where "s1 = release c s"
  have w1: "pl_waiting s1 = (pl_waiting s)[c := pl_waiting s ! c - 1]"
    and r1: "pl_ready s1 = (if pl_waiting s ! c = 1 then heap_push c (pl_ready s) else pl_ready s)"
    and s1: "s1 = s\<lparr>pl_waiting := pl_waiting s1, pl_ready := pl_ready s1\<rparr>"
    using Cons.prems(2) by (auto simp: s1_def release_def Let_def)
  have n1: "pl_waiting s1 ! x = (if x = c then pl_waiting s ! c - 1 else pl_waiting s ! x)" for x
    using Cons.prems(2) by (simp add: w1)
  have sorted1: "sorted (pl_ready s1)" using Cons.prems(3) by (simp add: r1 heap.push(1))
  have "\<forall>x \<in> set cs. x < length (pl_waiting s1) \<and> 0 < pl_waiting s1 ! x"
    using Cons.prems n1 by (auto simp: w1)
  then obtain w r where wr: "fold release cs s1 = s1\<lparr>pl_waiting := w, pl_ready := r\<rparr>" "length w = length (pl_waiting s1)"
    "\<forall>x. w ! x = (if x \<in> set cs then pl_waiting s1 ! x - 1 else pl_waiting s1 ! x)" "sorted r"
    "mset r = mset (pl_ready s1) + mset (filter (\<lambda>x. pl_waiting s1 ! x = 1) cs)"
    using Cons.IH [of s1] Cons.prems(1) sorted1 by auto
  have f: "filter (\<lambda>x. pl_waiting s1 ! x = 1) cs = filter (\<lambda>x. pl_waiting s ! x = 1) cs"
    using Cons.prems(1) by (intro filter_cong) (auto simp: n1)
  have "fold release (c # cs) s = s\<lparr>pl_waiting := w, pl_ready := r\<rparr>"
    using wr(1) s1 by (simp add: s1_def [symmetric]) (metis placing.update_convs(3,4) placing.surjective)
  moreover have "\<forall>x. w ! x = (if x \<in> set (c # cs) then pl_waiting s ! x - 1 else pl_waiting s ! x)"
    using wr(3) n1 Cons.prems(1) by auto
  moreover have "mset r = mset (pl_ready s) + mset (filter (\<lambda>x. pl_waiting s ! x = 1) (c # cs))"
    using wr(5) [unfolded f] Cons.prems(3) by (simp add: r1 heap.push(2))
  ultimately show ?case using wr(2,4) w1 by (intro exI [of _ w] exI [of _ r]) simp
qed

text \<open>
  What holds between two placements: the counts are what is left to wait for, the ready queue holds
  the singletons with nothing left, and every singleton placed so far came after what it waits for
  and before every other one that was ready.
\<close>

definition ready_at :: "graph \<Rightarrow> nat set \<Rightarrow> nat \<Rightarrow> bool" where
  "ready_at g X b \<longleftrightarrow> single g b \<and> b \<notin> X \<and> {d. waits_for g b d} \<subseteq> X"

definition greedy :: "graph \<Rightarrow> nat list \<Rightarrow> bool" where
  "greedy g order \<longleftrightarrow> (\<forall>i < length order. ready_at g (set (take i order)) (order ! i) \<and>
     (\<forall>c. ready_at g (set (take i order)) c \<longrightarrow> order ! i \<le> c))"

lemma greedy_snoc:
  "greedy g order \<Longrightarrow> ready_at g (set order) b \<Longrightarrow> (\<forall>c. ready_at g (set order) c \<longrightarrow> b \<le> c) \<Longrightarrow> greedy g (order @ [b])"
  by (auto simp: greedy_def nth_append less_Suc_eq)

lemma greedy_distinct: "greedy g order \<Longrightarrow> distinct order"
  by (rule distinct_by_take) (simp add: greedy_def ready_at_def)

lemma greedy_single: "greedy g order \<Longrightarrow> set order \<subseteq> {b. single g b}"
proof
  fix b assume "greedy g order" "b \<in> set order"
  then obtain i where "i < length order" "order ! i = b" "ready_at g (set (take i order)) (order ! i)"
    by (auto simp: greedy_def in_set_conv_nth)
  then show "b \<in> {b. single g b}" by (simp add: ready_at_def)
qed

lemma greedy_before:
  assumes "greedy g order" "c \<in> set order" "waits_for g c d"
  shows "d \<in> set order"
proof -
  obtain i where "i < length order" "order ! i = c" using assms(2) by (auto simp: in_set_conv_nth)
  then have "d \<in> set (take i order)" using assms(1,3) by (auto simp: greedy_def ready_at_def)
  then show ?thesis by (rule in_set_takeD)
qed

definition place_ok :: "graph \<Rightarrow> placing \<Rightarrow> bool" where
  "place_ok g s \<longleftrightarrow> greedy g (pl_order s) \<and>
     length (pl_waiting s) = binding_count g \<and> length (pl_placed s) = binding_count g \<and>
     (\<forall>b < binding_count g. pl_placed s ! b \<longleftrightarrow> b \<in> set (pl_order s)) \<and>
     (\<forall>b. single g b \<longrightarrow> pl_waiting s ! b = card {d. waits_for g b d \<and> d \<notin> set (pl_order s)}) \<and>
     sorted (pl_ready s) \<and> distinct (pl_ready s) \<and> set (pl_ready s) = {b. ready_at g (set (pl_order s)) b}"

lemma ready_iff:
  assumes "wf_graph g" "single g b"
  shows "ready_at g X b \<longleftrightarrow> b \<notin> X \<and> card {d. waits_for g b d \<and> d \<notin> X} = 0"
  using finite_waits [of g b "\<lambda>d. d \<notin> X"] assms by (auto simp: ready_at_def)

text \<open>Placing \<open>b\<close> takes one off the count of everything that waits for it.\<close>

lemma left_after:
  assumes "wf_graph g" "single g c" "b \<notin> X"
  shows "card {d. waits_for g c d \<and> d \<notin> insert b X} = card {d. waits_for g c d \<and> d \<notin> X} - (if waits_for g c b then 1 else 0)"
    and "waits_for g c b \<Longrightarrow> 0 < card {d. waits_for g c d \<and> d \<notin> X}"
proof -
  have fin: "finite {d. waits_for g c d \<and> d \<notin> X}" using finite_waits assms by auto
  show "waits_for g c b \<Longrightarrow> 0 < card {d. waits_for g c d \<and> d \<notin> X}" using fin assms(3) by (auto simp: card_gt_0_iff)
  show "card {d. waits_for g c d \<and> d \<notin> insert b X} = card {d. waits_for g c d \<and> d \<notin> X} - (if waits_for g c b then 1 else 0)"
  proof (cases "waits_for g c b")
    case True
    have "{d. waits_for g c d \<and> d \<notin> insert b X} = {d. waits_for g c d \<and> d \<notin> X} - {b}" by auto
    moreover have "b \<in> {d. waits_for g c d \<and> d \<notin> X}" using True assms(3) by simp
    ultimately show ?thesis using True by (simp add: card_Diff_singleton)
  next
    case False
    then have "{d. waits_for g c d \<and> d \<notin> insert b X} = {d. waits_for g c d \<and> d \<notin> X}" by auto
    then show ?thesis using False by simp
  qed
qed

lemma ready_after:
  assumes wf: "wf_graph g" and b: "b \<notin> X" and before: "waits_for g c b \<Longrightarrow> c \<notin> X"
  shows "ready_at g (insert b X) c \<longleftrightarrow> ready_at g X c \<and> c \<noteq> b \<or>
     single g c \<and> waits_for g c b \<and> card {d. waits_for g c d \<and> d \<notin> X} = 1"
proof (cases "single g c \<and> waits_for g c b")
  case True
  then have "c \<noteq> b" "\<not> ready_at g X c" using b by (auto simp: ready_at_def waits_for_def)
  then show ?thesis
    using True ready_iff [OF wf, of c "insert b X"] left_after [OF wf _ b, of c] before by auto
next
  case False
  then show ?thesis by (auto simp: ready_at_def)
qed

lemma place_step_ok:
  assumes wf: "wf_graph g" and ds: "counted g (binding_count g) (w0, ds)" and ok: "place_ok g s"
    and go: "heap_pop (pl_ready s) \<noteq> None"
  shows "place_ok g (place_step ds s) \<and> (\<exists>b. pl_order (place_step ds s) = pl_order s @ [b] \<and> single g b \<and> b \<notin> set (pl_order s))"
proof -
  let ?O = "set (pl_order s)"
  obtain b r where pop: "heap_pop (pl_ready s) = Some (b, r)" using go by auto
  have o: "greedy g (pl_order s)" "sorted (pl_ready s)" "distinct (pl_ready s)" "set (pl_ready s) = {b. ready_at g ?O b}"
    and len: "length (pl_waiting s) = binding_count g" "length (pl_placed s) = binding_count g"
    and placed: "\<And>b. b < binding_count g \<Longrightarrow> pl_placed s ! b \<longleftrightarrow> b \<in> ?O"
    and wait: "\<And>b. single g b \<Longrightarrow> pl_waiting s ! b = card {d. waits_for g b d \<and> d \<notin> ?O}"
    using ok by (auto simp: place_ok_def)
  have r: "sorted r" "mset (pl_ready s) = add_mset b (mset r)" "\<forall>y \<in># mset (pl_ready s). b \<le> y"
    using heap.pop_Some [OF o(2) pop] by blast+
  have dr: "distinct r" "b \<notin> set r" "set (pl_ready s) = insert b (set r)"
    using pop o(3) by (cases "pl_ready s"; simp)+
  have b: "ready_at g ?O b" "\<forall>c. ready_at g ?O c \<longrightarrow> b \<le> c" using o(4) dr(3) r(3) by auto
  have bs: "single g b" "b \<notin> ?O" using b(1) by (auto simp: ready_at_def)
  have cs: "distinct (ds ! b)" "set (ds ! b) = {c. single g c \<and> waits_for g c b}"
    using ds bs(1) by (auto simp: counted_def)
  have cpos: "c < length (pl_waiting s) \<and> 0 < pl_waiting s ! c" if "c \<in> set (ds ! b)" for c
    using that cs(2) wait [of c] left_after(2) [OF wf _ bs(2), of c] len(1) by auto
  let ?s1 = "s\<lparr>pl_ready := r, pl_order := pl_order s @ [b], pl_placed := (pl_placed s)[b := True]\<rparr>"
  obtain w r' where wr: "fold release (ds ! b) ?s1 = ?s1\<lparr>pl_waiting := w, pl_ready := r'\<rparr>" "length w = length (pl_waiting s)"
    "\<forall>c. w ! c = (if c \<in> set (ds ! b) then pl_waiting s ! c - 1 else pl_waiting s ! c)" "sorted r'"
    "mset r' = mset r + mset (filter (\<lambda>c. pl_waiting s ! c = 1) (ds ! b))"
    using fold_release [of "ds ! b" ?s1] cs(1) cpos r(1) by auto
  have eq: "place_step ds s = ?s1\<lparr>pl_waiting := w, pl_ready := r'\<rparr>" by (simp add: place_step_def pop wr(1))
  have w: "w ! c = card {d. waits_for g c d \<and> d \<notin> insert b ?O}" if "single g c" for c
    using wr(3) cs(2) that wait [OF that] left_after(1) [OF wf that bs(2)] by simp
  have m1: "c \<in> set r' \<longleftrightarrow> c \<in> set r \<or> c \<in> set (ds ! b) \<and> pl_waiting s ! c = 1" for c
    using arg_cong [OF wr(5), of set_mset] by auto
  have m2: "c \<in> set r \<longleftrightarrow> ready_at g ?O c \<and> c \<noteq> b" for c using o(4) dr by auto
  have m3: "c \<in> set (ds ! b) \<and> pl_waiting s ! c = 1 \<longleftrightarrow>
      single g c \<and> waits_for g c b \<and> card {d. waits_for g c d \<and> d \<notin> ?O} = 1" for c
    unfolding cs(2) using wait [of c] by (simp cong: conj_cong)
  have m4: "waits_for g c b \<Longrightarrow> c \<notin> ?O" for c using greedy_before [OF o(1)] bs(2) by blast
  have "c \<in> set r' \<longleftrightarrow> ready_at g (insert b ?O) c" for c by (simp only: m1 m2 m3 ready_after [OF wf bs(2) m4])
  moreover have "distinct r'"
  proof -
    have "distinct (r @ filter (\<lambda>c. pl_waiting s ! c = 1) (ds ! b))"
      using dr cs o(4) bs by (auto simp: ready_at_def)
    then show ?thesis by (metis mset_append mset_eq_imp_distinct_iff wr(5))
  qed
  ultimately have "place_ok g (place_step ds s)"
    unfolding place_ok_def eq
    using greedy_snoc [OF o(1) b] len wr(2,4) placed w bs(1)
    by (auto simp: nth_list_update)
  then show ?thesis using bs by (auto simp: eq)
qed

section \<open>The whole order\<close>

lemma connect_order_placed:
  assumes wf: "wf_graph g"
  shows "\<exists>placed. connect_order g = Some (placed @ filter (\<lambda>b. single g b \<and> b \<notin> set placed) [0..<binding_count g]) \<and>
     greedy g placed \<and> (\<forall>c. \<not> ready_at g (set placed) c)"
proof -
  let ?n = "binding_count g" and ?ids = "map fb_id (g_bindings g)"
  obtain w ds where count: "fold_option (add_waits g (singleton_flags g)) ?ids (replicate ?n 0, replicate ?n []) = Some (w, ds)"
    "counted g ?n (w, ds)" using all_counted [OF wf] by (metis surj_pair)
  define r0 where "r0 = fold heap_push (filter (\<lambda>b. singleton_flags g ! b \<and> w ! b = 0) ?ids) []"
  define s0 where "s0 = \<lparr>pl_order = [], pl_placed = replicate ?n False, pl_ready = r0, pl_waiting = w\<rparr>"
  have w: "length w = ?n" "\<And>b. single g b \<Longrightarrow> w ! b = card {d. waits_for g b d}" using count(2) by (auto simp: counted_def)
  have r0: "sorted r0" "mset r0 = mset (filter (\<lambda>b. singleton_flags g ! b \<and> w ! b = 0) [0..<?n])"
    using heap.fold_push [OF heap.new(1)] by (auto simp: r0_def wf_ids [OF wf])
  have "set r0 = {b. single g b \<and> w ! b = 0}" unfolding mset_eq_setD [OF r0(2)] by auto
  moreover have "single g b \<and> w ! b = 0 \<longleftrightarrow> ready_at g {} b" for b
  proof (cases "single g b")
    case True
    then show ?thesis using ready_iff [OF wf True, of "{}"] w(2) [OF True] by simp
  qed (auto simp: ready_at_def)
  ultimately have "set r0 = {b. ready_at g {} b}" by simp
  moreover have "distinct r0" using mset_eq_imp_distinct_iff [OF r0(2)] by simp
  ultimately have init: "place_ok g s0" using r0(1) w by (simp add: place_ok_def s0_def greedy_def)
  have dec: "?n - length (pl_order (place_step ds s)) < ?n - length (pl_order s)"
    if st: "place_ok g s" "heap_pop (pl_ready s) \<noteq> None" for s
  proof -
    obtain b where b: "pl_order (place_step ds s) = pl_order s @ [b]" "single g b" "b \<notin> set (pl_order s)"
      and g: "greedy g (pl_order s @ [b])" using place_step_ok [OF wf count(2) st] by (auto simp: place_ok_def)
    have "set (pl_order s @ [b]) \<subseteq> {..<?n}" using greedy_single [OF g] by auto
    moreover have "length (pl_order s @ [b]) = card (set (pl_order s @ [b]))"
      using greedy_distinct [OF g] by (metis distinct_card)
    ultimately have "length (pl_order s @ [b]) \<le> ?n" using card_mono [of "{..<?n}"] by fastforce
    then show ?thesis using b(1) by simp
  qed
  obtain t where t: "while_option (\<lambda>s. heap_pop (pl_ready s) \<noteq> None) (place_step ds) s0 = Some t" "place_ok g t"
    "\<not> heap_pop (pl_ready t) \<noteq> None"
    by (rule while_option_total [of "place_ok g" s0 "\<lambda>s. heap_pop (pl_ready s) \<noteq> None" "place_step ds"
          "measure (\<lambda>s. ?n - length (pl_order s))"]) (use init place_step_ok [OF wf count(2)] dec in auto)
  have none: "\<forall>c. \<not> ready_at g (set (pl_order t)) c"
    using t(2,3) heap.pop_None [of "pl_ready t"] by (auto simp: place_ok_def)
  have flt: "filter (\<lambda>b. singleton_flags g ! b \<and> \<not> pl_placed t ! b) ?ids = filter (\<lambda>b. single g b \<and> b \<notin> set (pl_order t)) [0..<?n]"
    unfolding wf_ids [OF wf] using t(2) by (intro filter_cong) (auto simp: place_ok_def)
  have "connect_order g = Some (pl_order t @ filter (\<lambda>b. single g b \<and> b \<notin> set (pl_order t)) [0..<?n])"
    unfolding connect_order_def Let_def count(1) option.case prod.case r0_def [symmetric] s0_def [symmetric] t(1) option.map flt ..
  then show ?thesis using t(2) none unfolding place_ok_def by blast
qed

lemma waits_for_trancl:
  assumes wf: "wf_graph g" "b < binding_count g" and w: "waits_for g b d"
  shows "(b, d) \<in> (edges_of (dep_successors g))\<^sup>+"
proof -
  let ?E = "edges_of (dep_successors g)"
  obtain x where x: "x \<in> set (construction_deps g b @ readiness_deps g b)" "(x, d) \<in> (through g b)\<^sup>*"
    using w by (auto simp: waits_for_def)
  have xr: "x < binding_count g"
    using x(1) construction_deps_in_range [OF wf] readiness_deps_in_range [OF wf] by auto
  have "(b, x) \<in> ?E" using x(1) xr wf(2) by (simp add: edges_of_iff dep_successors_def)
  then have "(b, x) \<in> ?E\<^sup>+ \<and> x < binding_count g" using xr by simp
  with x(2) have "(b, d) \<in> ?E\<^sup>+ \<and> d < binding_count g"
  proof (induction rule: rtrancl_induct)
    case (step y z)
    have z: "z \<in> set (construction_deps g y)" using step.hyps(2) by (simp add: through_def)
    then have "z < binding_count g" using construction_deps_in_range [OF wf(1)] step by blast
    moreover from this have "(y, z) \<in> ?E" using z step by (simp add: edges_of_iff dep_successors_def)
    ultimately show ?case using step by (meson trancl_into_trancl)
  qed
  then show ?thesis ..
qed

lemma acyclic_all_placed:
  assumes wf: "wf_graph g" and ac: "acyclic (edges_of (dep_successors g))" and none: "\<forall>c. \<not> ready_at g X c"
  shows "{b. single g b} \<subseteq> X"
proof (rule ccontr)
  let ?E = "edges_of (dep_successors g)"
  let ?L = "{b. single g b} - X"
  assume "\<not> {b. single g b} \<subseteq> X"
  then obtain b0 where b0: "b0 \<in> ?L" by auto
  have "acyclic (?E\<^sup>+)" using ac by (simp add: acyclic_def)
  then have "wf ((?E\<^sup>+)\<inverse>)" by (intro finite_acyclic_wf) (simp_all add: acyclic_converse)
  from wf_eq_minimal [THEN iffD1, OF this, rule_format, OF b0]
  obtain b where b: "b \<in> ?L" "\<forall>y. (y, b) \<in> (?E\<^sup>+)\<inverse> \<longrightarrow> y \<notin> ?L" by blast
  then have "d \<in> X" if "waits_for g b d" for d
    using waits_for_trancl [OF wf _ that] waits_for_single [OF wf _ that] by auto
  then have "ready_at g X b" using b(1) by (auto simp: ready_at_def)
  then show False using none by blast
qed

section \<open>Claims\<close>

text \<open>A singleton that reads another through a transient: \<open>A\<close> reads \<open>T\<close>, built at the read, which reads \<open>B\<close>.\<close>

definition chain_graph :: graph where
  "chain_graph = graph_empty\<lparr>
     g_modules := [\<lparr>fm_id = 0, fm_identity = \<lparr>mi_ty = RustType 9 ''M'', mi_config = None, mi_qualifier = None, mi_label = None\<rparr>,
       fm_name = \<lparr>mn_text = ''M'', mn_full = ''M''\<rparr>, fm_global = False, fm_keyed = None, fm_imports = [], fm_bindings = [0, 1, 2],
       fm_hooks = [], fm_meta = [], fm_loaded = None, fm_settings = settings_new, fm_site = SiteRoot\<rparr>],
     g_visibility := [[]],
     g_bindings := [ring_binding 0 1, (ring_binding 1 2)\<lparr>fb_effective := EffTransient\<rparr>, (ring_binding 2 0)\<lparr>fb_edges := []\<rparr>]\<rparr>"

lemma chain_graph_wf: "wf_graph chain_graph"
  by (simp add: wf_graph_def chain_graph_def graph_empty_def ring_binding_def binding_def wf_edge_def less_Suc_eq numeral_3_eq_3)

lemma chain_graph_successors: "dep_successors chain_graph = [[1], [2], []]"
  by (simp add: dep_successors_def chain_graph_def ring_binding_def construction_deps_def readiness_deps_def
      alias_target_def binding_def binding_record_new_def upt_rec)

lemma chain_graph_acyclic: "acyclic (edges_of (dep_successors chain_graph))"
proof (rule acyclicI_order [of _ "\<lambda>v. 3 - v"])
  fix a b assume "(a, b) \<in> edges_of (dep_successors chain_graph)"
  then show "3 - b < 3 - a" by (auto simp: edges_of_iff chain_graph_successors less_Suc_eq numeral_3_eq_3)
qed

lemma connect_order_sorted:
  assumes "wf_graph g" "acyclic (edges_of (dep_successors g))"
  shows "\<exists>order. connect_order g = Some order \<and> set order = {b. single g b} \<and> distinct order \<and> greedy g order"
proof -
  obtain placed where p: "connect_order g = Some (placed @ filter (\<lambda>b. single g b \<and> b \<notin> set placed) [0..<binding_count g])"
    "greedy g placed" "\<forall>c. \<not> ready_at g (set placed) c" using connect_order_placed [OF assms(1)] by blast
  have all: "{b. single g b} \<subseteq> set placed" by (rule acyclic_all_placed [OF assms p(3)])
  then have "filter (\<lambda>b. single g b \<and> b \<notin> set placed) [0..<binding_count g] = []" by (auto simp: filter_empty_conv)
  moreover have "set placed \<subseteq> {b. single g b}" by (rule greedy_single [OF p(2)])
  ultimately show ?thesis using p all greedy_distinct by auto
qed

text \<open>
  C5. When the dependency graph is acyclic, \<open>connect_order\<close> lists exactly the singletons, each once, in a
  stable topological order: at every position stands the smallest singleton not yet placed whose
  waits, read through transients, aliases and readiness checks, are all placed before it.
\<close>

theorem connect_order_stable:
  assumes "wf_graph g" "acyclic (edges_of (dep_successors g))"
  shows "\<exists>order. connect_order g = Some order \<and> set order = {b. single g b} \<and> distinct order \<and> greedy g order"
  using assms by (rule connect_order_sorted)

theorem connect_order_stable_witness:
  "\<exists>order. connect_order chain_graph = Some order \<and> set order = {b. single chain_graph b} \<and> greedy chain_graph order"
  using connect_order_stable [OF chain_graph_wf chain_graph_acyclic] by blast

text \<open>
  C6. Whatever the graph holds, cycles included, \<open>connect_order\<close> ends and lists every singleton exactly
  once and nothing else: no singleton is dropped and none is built twice.
\<close>

theorem connect_order_complete:
  assumes "wf_graph g"
  shows "\<exists>order. connect_order g = Some order \<and> distinct order \<and> set order = {b. single g b}"
proof -
  obtain placed where p: "connect_order g = Some (placed @ filter (\<lambda>b. single g b \<and> b \<notin> set placed) [0..<binding_count g])"
    "greedy g placed" using connect_order_placed [OF assms] by blast
  have "set placed \<subseteq> {b. single g b}" by (rule greedy_single [OF p(2)])
  then show ?thesis using p(1) greedy_distinct [OF p(2)] by auto
qed

theorem connect_order_complete_witness:
  "\<exists>order. connect_order chain_graph = Some order \<and> distinct order \<and> set order = {b. single chain_graph b}"
  using connect_order_complete [OF chain_graph_wf] .

text \<open>
  C7. What a singleton waits for: \<open>singleton_deps\<close> ends and answers, each once, exactly the other
  singletons its construction or its readiness check reads through any chain of transients and
  aliases built at the read.
\<close>

theorem singleton_deps_exact:
  assumes "wf_graph g" "b < binding_count g"
  shows "\<exists>deps. singleton_deps g (singleton_flags g) b = Some deps \<and> distinct deps \<and> set deps = {d. waits_for g b d}"
  using assms by (rule singleton_deps_result)

theorem singleton_deps_exact_witness:
  "\<exists>deps. singleton_deps chain_graph (singleton_flags chain_graph) 0 = Some deps \<and> set deps = {d. waits_for chain_graph 0 d}"
  using singleton_deps_exact [OF chain_graph_wf, of 0] by (auto simp: chain_graph_def)

end
