(* ===== verification/Visibility.thy ===== *)
theory Visibility
  imports Graph_Model "HOL-Library.List_Lexorder" "HOL-Library.Product_Lexorder" "HOL-Library.Option_ord"
    "HOL-Library.Char_ord"
begin

text \<open>
  Step 3 of the wiring pass, \<open>crates/ulo/src/graph/visibility.rs\<close>: what each module sees, re-exports
  resolved round by round, every injection point resolved against its module's table, and the reports
  on missing and ambiguous keys. A table is the association list of a \<open>HashMap\<close>'s entries in some order.
\<close>

section \<open>What the wiring declared\<close>

record declared =
  dc_root :: nat
  dc_first_module :: nat
  dc_first_binding :: nat
  dc_first_handler :: nat
  dc_exports :: "(nat \<times> export_record) list"
  dc_inputs :: "(nat \<times> input_record) list"
  dc_transport_inputs :: "input_decl list"
  dc_meta :: "(nat \<times> string \<times> dependencies) list"

section \<open>Tables\<close>

definition own_binding :: "graph \<Rightarrow> nat \<Rightarrow> key \<Rightarrow> nat option" where
  "own_binding g m k =
     find (\<lambda>b. let r = fb_record (binding g b) in br_kind r = BK_Single \<and> k \<in> set (record_keys r))
       (fm_bindings (gmodule g m))"

definition exporters :: "graph \<Rightarrow> nat \<Rightarrow> nat list" where
  "exporters g m = fm_imports (gmodule g m) @ map fm_id (filter fm_global (g_modules g))"

definition add_source :: "nat \<Rightarrow> nat \<Rightarrow> (nat \<times> nat) list \<Rightarrow> (nat \<times> nat) list" where
  "add_source exporter b found = (if b \<in> set (map snd found) then found else found @ [(exporter, b)])"

definition sources :: "graph \<Rightarrow> nat \<Rightarrow> key \<Rightarrow> (nat \<times> nat) list" where
  "sources g m k =
     fold (\<lambda>exporter. fold (\<lambda>(exported, b) found. if exported = k then add_source exporter b found else found)
             (g_exported g ! exporter))
       (exporters g m) (case own_binding g m k of Some b \<Rightarrow> [(m, b)] | None \<Rightarrow> [])"

type_synonym source_map = "(key \<times> (nat \<times> nat) list) list"

definition entry_own :: "nat \<Rightarrow> nat \<Rightarrow> key \<Rightarrow> source_map \<Rightarrow> source_map" where
  "entry_own m b k t = (if map_of t k = None then t @ [(k, [(m, b)])] else t)"

definition add_own :: "graph \<Rightarrow> nat \<Rightarrow> nat \<Rightarrow> source_map \<Rightarrow> source_map" where
  "add_own g m b t =
     (let r = fb_record (binding g b)
      in if br_kind r \<noteq> BK_Single then t else fold (entry_own m b) (record_keys r) t)"

definition add_export :: "nat \<Rightarrow> key \<times> nat \<Rightarrow> source_map \<Rightarrow> source_map" where
  "add_export exporter e t =
     (let list = (case map_of t (fst e) of Some l \<Rightarrow> l | None \<Rightarrow> [])
      in AList.update (fst e) (add_source exporter (snd e) list) t)"

definition table_sources :: "graph \<Rightarrow> nat \<Rightarrow> source_map" where
  "table_sources g m =
     fold (\<lambda>exporter. fold (add_export exporter) (g_exported g ! exporter)) (exporters g m)
       (fold (add_own g m) (fm_bindings (gmodule g m)) [])"

definition visible_of :: "(nat \<times> nat) list \<Rightarrow> visible" where
  "visible_of list = (if length list = 1 then VisBinding (snd (list ! 0)) else VisAmbiguous list)"

definition entry_input :: "key \<Rightarrow> vis_table \<Rightarrow> vis_table" where
  "entry_input k t = (if map_of t k = None then t @ [(k, VisInput k)] else t)"

definition table_for :: "graph \<Rightarrow> nat \<Rightarrow> vis_table" where
  "table_for g m =
     fold entry_input (map fst (g_inputs g)) (map (\<lambda>(k, list). (k, visible_of list)) (table_sources g m))"

definition resize_with :: "nat \<Rightarrow> 'a \<Rightarrow> 'a list \<Rightarrow> 'a list" where
  "resize_with n d xs = take n xs @ replicate (n - length xs) d"

definition push_exported :: "nat \<times> key \<times> nat \<Rightarrow> graph \<Rightarrow> graph" where
  "push_exported = (\<lambda>(m, k, b) g. g\<lparr>g_exported := (g_exported g)[m := g_exported g ! m @ [(k, b)]]\<rparr>)"

definition export_own :: "nat \<times> export_record \<Rightarrow> graph \<Rightarrow> graph" where
  "export_own = (\<lambda>(m, e) g. case own_binding g m (ex_key e) of
       Some b \<Rightarrow> push_exported (m, boundary_key (fm_keyed (gmodule g m)) (ex_key e), b) g
     | None \<Rightarrow> g)"

text \<open>One round over the re-exports left: those with exactly one source, and those kept for the next.\<close>

definition reexport_source :: "graph \<Rightarrow> nat \<times> export_record \<Rightarrow> (nat \<times> key \<times> nat) option" where
  "reexport_source g = (\<lambda>(m, e). case sources g m (ex_key e) of
       [(_, b)] \<Rightarrow> Some (m, boundary_key (fm_keyed (gmodule g m)) (ex_key e), b)
     | _ \<Rightarrow> None)"

definition round_resolved :: "graph \<Rightarrow> (nat \<times> export_record) list \<Rightarrow> (nat \<times> key \<times> nat) list" where
  "round_resolved g pending = List.map_filter (reexport_source g) pending"

definition round_step :: "graph \<times> (nat \<times> export_record) list \<Rightarrow> graph \<times> (nat \<times> export_record) list" where
  "round_step = (\<lambda>(g, pending).
     (fold push_exported (round_resolved g pending) g, filter (\<lambda>e. reexport_source g e = None) pending))"

definition put_table :: "nat \<Rightarrow> graph \<Rightarrow> graph" where
  "put_table m g = g\<lparr>g_visibility := (g_visibility g)[m := table_for g m]\<rparr>"

definition build_tables :: "graph \<Rightarrow> declared \<Rightarrow> graph option" where
  "build_tables g d =
     (let count = length (g_modules g);
          g = g\<lparr>g_visibility := resize_with count [] (g_visibility g), g_exported := resize_with count [] (g_exported g)\<rparr>;
          g = fold export_own (filter (\<lambda>(_, e). \<not> ex_reexport e) (dc_exports d)) g;
          pending = filter (\<lambda>(_, e). ex_reexport e) (dc_exports d)
      in map_option (\<lambda>(g, _). fold put_table [dc_first_module d..<count] g)
           (while_option (\<lambda>(g, pending). round_resolved g pending \<noteq> []) round_step (g, pending)))"

section \<open>Near spellings\<close>

definition auto_suffixes :: "string list" where
  "auto_suffixes = ['' + core::marker::Send'', '' + core::marker::Sync'', '' + Send'', '' + Sync'']"

function (sequential) strip_auto_traits :: "string \<Rightarrow> string" where
  "strip_auto_traits name =
     (case find_map (\<lambda>suffix. strip_suffix suffix name) auto_suffixes of
        Some rest \<Rightarrow> strip_auto_traits rest
      | None \<Rightarrow> name)"
  by pat_completeness auto
termination
proof (relation "measure length")
  fix name rest
  assume "find_map (\<lambda>suffix. strip_suffix suffix name) auto_suffixes = Some rest"
  then obtain p where "p \<in> set auto_suffixes" "strip_suffix p name = Some rest" using find_map_Some by metis
  then obtain t where "strip_prefix (rev p) (rev name) = Some t" "rest = rev t" "rev p \<noteq> []"
    by (auto simp: strip_suffix_def auto_suffixes_def)
  then show "(rest, name) \<in> measure length" using strip_prefix_less by fastforce
qed simp

declare strip_auto_traits.simps [simp del]

definition two_versions :: "key \<Rightarrow> key \<Rightarrow> bool" where
  "two_versions a b = (tn_id (k_ty a) \<noteq> tn_id (k_ty b) \<and> tn_full (k_ty a) = tn_full (k_ty b))"

definition spelled_alike :: "key \<Rightarrow> key \<Rightarrow> bool" where
  "spelled_alike a b =
     (tn_id (k_qualifier a) = tn_id (k_qualifier b) \<and>
      (two_versions a b \<or>
       (tn_full (k_ty a) \<noteq> tn_full (k_ty b) \<and>
        short_type_name (strip_auto_traits (tn_full (k_ty a))) = short_type_name (strip_auto_traits (tn_full (k_ty b))))))"

fun near_provider :: "graph \<Rightarrow> key \<times> visible \<Rightarrow> (key \<times> nat) option" where
  "near_provider g (k, VisBinding b) = Some (k, fb_origin (binding g b))"
| "near_provider g (k, VisAmbiguous list) = (case list of [] \<Rightarrow> None | (source, _) # _ \<Rightarrow> Some (k, source))"
| "near_provider g (k, VisInput _) = None"

definition bound_anywhere :: "graph \<Rightarrow> (key \<times> nat) list" where
  "bound_anywhere g = concat (map (\<lambda>b. map (\<lambda>k. (k, fb_origin b)) (record_keys (fb_record b))) (g_bindings g))"

definition near_spelling :: "graph \<Rightarrow> nat \<Rightarrow> key \<Rightarrow> (key \<times> nat) option" where
  "near_spelling g m missing =
     (let visible = List.map_filter (near_provider g) (filter (\<lambda>(k, _). spelled_alike k missing) (g_visibility g ! m))
      in case sort_key (\<lambda>(k, _). (\<not> two_versions k missing, tn_full (k_ty k))) visible of
           found # _ \<Rightarrow> Some found
         | [] \<Rightarrow>
             (case find (\<lambda>(k, _). spelled_alike k missing \<and> two_versions k missing) (bound_anywhere g) of
                Some found \<Rightarrow> Some found
              | None \<Rightarrow> find (\<lambda>(k, _). spelled_alike k missing) (bound_anywhere g)))"

definition own_near_spelling :: "graph \<Rightarrow> nat \<Rightarrow> key \<Rightarrow> key option" where
  "own_near_spelling g m exported =
     find_map (\<lambda>b. let r = fb_record (binding g b) in
         if br_kind r \<noteq> BK_Single then None else find (\<lambda>k. spelled_alike k exported) (record_keys r))
       (fm_bindings (gmodule g m))"

section \<open>Resolving injection points\<close>

fun hook_text :: "hook_kind \<Rightarrow> string" where
  "hook_text OnModuleInit = ''OnModuleInit''"
| "hook_text OnApplicationBootstrap = ''OnApplicationBootstrap''"
| "hook_text OnModuleDestroy = ''OnModuleDestroy''"
| "hook_text BeforeApplicationShutdown = ''BeforeApplicationShutdown''"
| "hook_text OnApplicationShutdown = ''OnApplicationShutdown''"

definition key_name_text :: "key_name \<Rightarrow> string" where
  "key_name_text kn = with_kind kn (key_text False (kn_key kn))"

text \<open>The errors so far and the keys reported ambiguous, each with the module that reads it.\<close>

type_synonym reports = "wiring_error list \<times> (nat \<times> key) set"

definition ambiguous_sources :: "graph \<Rightarrow> (nat \<times> nat) list \<Rightarrow> (mod_name \<times> location) list" where
  "ambiguous_sources g list = map (\<lambda>(m, b). (graph_module_name g m, br_location (fb_record (binding g b)))) list"

definition check_key :: "graph \<Rightarrow> nat \<Rightarrow> key \<Rightarrow> bool \<Rightarrow> string \<Rightarrow> reports \<Rightarrow> edge_target option \<times> reports" where
  "check_key g m k opt reader = (\<lambda>(errors, reported).
     case lookup g m k of
       Some (VisBinding b) \<Rightarrow> (Some (TargetBinding b), errors, reported)
     | Some (VisInput input) \<Rightarrow> (Some (TargetInput input), errors, reported)
     | Some (VisAmbiguous list) \<Rightarrow>
         (None, errors @ [Ambiguous (name_key BK_Single k) reader (graph_module_name g m) (ambiguous_sources g list)],
          insert (m, k) reported)
     | None \<Rightarrow>
         (None,
          if opt then errors
          else errors @ [Missing (name_key BK_Single k) reader (graph_module_name g m)
                  (map_option (\<lambda>(near, exporter). (name_key BK_Single near, graph_module_name g exporter)) (near_spelling g m k))],
          reported))"

definition check_read :: "graph \<Rightarrow> nat \<Rightarrow> string \<Rightarrow> read_rec \<Rightarrow> reports \<Rightarrow> reports" where
  "check_read g m reader rd st =
     (case rd_kind rd of ReadSingle k \<Rightarrow> snd (check_key g m k (rd_optional rd) reader st) | _ \<Rightarrow> st)"

definition check_dependencies :: "graph \<Rightarrow> nat \<Rightarrow> dependencies \<Rightarrow> string \<Rightarrow> reports \<Rightarrow> reports" where
  "check_dependencies g m deps owner st =
     fold (\<lambda>d. fold (check_read g m (owner @ '' ('' @ dependency_label_text (dr_label d) @ '')'')) (dr_requirement d))
       (dp_list deps) st"

fun read_target :: "graph \<Rightarrow> nat \<Rightarrow> nat \<Rightarrow> read_rec \<Rightarrow> reports \<Rightarrow> edge_target option \<times> reports" where
  "read_target g b index rd st =
     (case rd_kind rd of
        ReadSingle k \<Rightarrow> check_key g (fb_origin (binding g b)) k (rd_optional rd) (consumer g b index) st
      | ReadCollection k \<Rightarrow> (Some (TargetCollection k), st)
      | ReadExtension _ \<Rightarrow> (Some TargetExecution, st)
      | ReadExecution \<Rightarrow> (Some TargetExecution, st)
      | ReadModule \<Rightarrow> (Some TargetModule, st))"

definition push_edge :: "graph \<Rightarrow> nat \<Rightarrow> nat \<Rightarrow> read_rec \<Rightarrow> edge list \<times> reports \<Rightarrow> edge list \<times> reports" where
  "push_edge g b index rd = (\<lambda>(edges, st).
     case read_target g b index rd st of
       (Some t, st) \<Rightarrow> (edges @ [\<lparr>ed_target = t, ed_dependency = index, ed_optional = rd_optional rd\<rparr>], st)
     | (None, st) \<Rightarrow> (edges, st))"

definition binding_edges :: "graph \<Rightarrow> nat \<Rightarrow> reports \<Rightarrow> edge list \<times> reports" where
  "binding_edges g b st =
     fold (\<lambda>(index, d). fold (push_edge g b index) (dr_requirement d))
       (List.enumerate 0 (dp_list (br_dependencies (fb_record (binding g b))))) ([], st)"

definition set_edges :: "nat \<Rightarrow> graph \<times> reports \<Rightarrow> graph \<times> reports" where
  "set_edges b = (\<lambda>(g, st).
     let (edges, st) = binding_edges g b st
     in (g\<lparr>g_bindings := (g_bindings g)[b := (g_bindings g ! b)\<lparr>fb_edges := edges\<rparr>]\<rparr>, st))"

definition check_binding_closures :: "graph \<Rightarrow> frozen_binding \<Rightarrow> reports \<Rightarrow> reports" where
  "check_binding_closures g b st =
     (let label = graph_label g (fb_id b);
          st = (case br_ready (fb_record b) of
                  Some ready \<Rightarrow> check_dependencies g (fb_origin b) (rr_dependencies ready) (''readiness check of '' @ label) st
                | None \<Rightarrow> st)
      in fold (\<lambda>h. check_dependencies g (fb_origin b) (hk_dependencies h) (hook_text (hk_kind h) @ '' hook of '' @ label))
           (br_hooks (fb_record b)) st)"

definition check_module_hooks :: "graph \<Rightarrow> frozen_module \<Rightarrow> reports \<Rightarrow> reports" where
  "check_module_hooks g m st =
     fold (\<lambda>h. check_dependencies g (fm_id m) (hk_dependencies h) (hook_text (hk_kind h) @ '' hook of '' @ mn_text (fm_name m)))
       (fm_hooks m) st"

definition check_meta :: "graph \<Rightarrow> nat \<times> string \<times> dependencies \<Rightarrow> reports \<Rightarrow> reports" where
  "check_meta g = (\<lambda>(m, name, deps).
     check_dependencies g m deps (''metadata `'' @ short_type_name name @ ''` of '' @ mn_text (graph_module_name g m)))"

definition check_handler_controller :: "graph \<Rightarrow> handler_record \<Rightarrow> reports \<Rightarrow> reports" where
  "check_handler_controller g h = (\<lambda>(errors, reported).
     (let k = record_key (fb_record (binding g (hr_controller h)))
      in case lookup g (hr_module h) k of
           Some (VisAmbiguous list) \<Rightarrow>
             if (hr_module h, k) \<in> reported then (errors, reported)
             else (errors @ [Ambiguous (name_key BK_Single k) (handler_name g h @ '' (its controller)'')
                     (graph_module_name g (hr_module h)) (ambiguous_sources g list)],
                   insert (hr_module h, k) reported)
         | _ \<Rightarrow> (errors, reported)))"

fun check_enhancer :: "graph \<Rightarrow> handler_record \<Rightarrow> enhancer_dep \<Rightarrow> reports \<Rightarrow> reports" where
  "check_enhancer g h (ED_Type k) st =
     snd (check_key g (hr_module h) k False (handler_name g h @ '' (enhancer `'' @ tn_text (k_ty k) @ ''`)'') st)"
| "check_enhancer g h (ED_Closure c) st =
     check_dependencies g (hr_module h) (cd_dependencies c) (handler_name g h @ '' (enhancer closure)'') st"

definition check_handler :: "graph \<Rightarrow> handler_record \<Rightarrow> reports \<Rightarrow> reports" where
  "check_handler g h st =
     fold (check_enhancer g h) (hd_enhancer_deps (hr_decl h))
       (check_dependencies g (hr_module h) (hd_dependencies (hr_decl h)) (handler_name g h)
         (check_handler_controller g h st))"

definition unread_ambiguous :: "graph \<Rightarrow> (nat \<times> key) set \<Rightarrow> (key \<times> (nat \<times> nat) list) list" where
  "unread_ambiguous g reported =
     sort_key (\<lambda>(k, _). (tn_full (k_ty k), map_option (\<lambda>q. tn_full q) (key_qualifier k)))
       (List.map_filter (\<lambda>(k, v). case v of
            VisAmbiguous list \<Rightarrow> if (g_root g, k) \<notin> reported then Some (k, list) else None
          | _ \<Rightarrow> None) (g_visibility g ! g_root g))"

definition resolve_dependencies :: "graph \<Rightarrow> declared \<Rightarrow> wiring_error list \<Rightarrow> graph \<times> wiring_error list" where
  "resolve_dependencies g d errors =
     (let (g, st) = fold set_edges [dc_first_binding d..<length (g_bindings g)] (g, errors, {});
          st = fold (check_binding_closures g) (drop (dc_first_binding d) (g_bindings g)) st;
          st = fold (check_module_hooks g) (drop (dc_first_module d) (g_modules g)) st;
          st = fold (check_meta g) (dc_meta d) st;
          (errors, reported) = fold (check_handler g) (drop (dc_first_handler d) (g_handlers g)) st
      in (g, errors @ (if dc_first_module d = 0 then
             map (\<lambda>(k, list). Ambiguous (name_key BK_Single k) ''a lookup that names no module''
                   (graph_module_name g (g_root g)) (ambiguous_sources g list)) (unread_ambiguous g reported)
           else [])))"

section \<open>Controllers are not injected\<close>

definition controller_seen :: "graph \<Rightarrow> nat \<Rightarrow> key \<Rightarrow> nat option" where
  "controller_seen g m k =
     (case lookup g m k of
        Some (VisBinding b) \<Rightarrow> if br_controller (fb_record (binding g b)) then Some b else None
      | _ \<Rightarrow> None)"

definition controller_read :: "graph \<Rightarrow> nat \<Rightarrow> nat \<Rightarrow> string \<Rightarrow> wiring_error" where
  "controller_read g m c reader =
     ControllerRead (graph_key_name g c) reader (graph_module_name g m) (graph_module_name g (fb_origin (binding g c)))"

definition closure_reads :: "graph \<Rightarrow> nat \<Rightarrow> string \<Rightarrow> dependencies \<Rightarrow> wiring_error list" where
  "closure_reads g m owner deps =
     concat (map (\<lambda>d. List.map_filter (\<lambda>rd. case rd_kind rd of
           ReadSingle k \<Rightarrow> map_option (\<lambda>c. controller_read g m c (owner @ '' ('' @ dependency_label_text (dr_label d) @ '')''))
                             (controller_seen g m k)
         | _ \<Rightarrow> None) (dr_requirement d)) (dp_list deps))"

definition binding_reads :: "graph \<Rightarrow> frozen_binding \<Rightarrow> wiring_error list" where
  "binding_reads g b =
     List.map_filter (\<lambda>e. case ed_target e of
         TargetBinding c \<Rightarrow> if br_controller (fb_record (binding g c))
           then Some (controller_read g (fb_origin b) c (consumer g (fb_id b) (ed_dependency e))) else None
       | _ \<Rightarrow> None) (fb_edges b) @
     (case br_recipe (fb_record b) of
        RecipeAlias target \<Rightarrow>
          (case controller_seen g (fb_origin b) target of
             Some c \<Rightarrow> [controller_read g (fb_origin b) c (''the alias `'' @ key_name_text (graph_key_name g (fb_id b)) @ ''`'')]
           | None \<Rightarrow> [])
      | _ \<Rightarrow> []) @
     (case br_ready (fb_record b) of
        Some ready \<Rightarrow> closure_reads g (fb_origin b) (''readiness check of '' @ graph_label g (fb_id b)) (rr_dependencies ready)
      | None \<Rightarrow> []) @
     concat (map (\<lambda>h. closure_reads g (fb_origin b) (hook_text (hk_kind h) @ '' hook of '' @ graph_label g (fb_id b))
               (hk_dependencies h)) (br_hooks (fb_record b)))"

definition check_controller_reads :: "graph \<Rightarrow> declared \<Rightarrow> wiring_error list \<Rightarrow> wiring_error list" where
  "check_controller_reads g d errors =
     errors @
     concat (map (binding_reads g) (filter (\<lambda>b. \<not> br_controller (fb_record b)) (drop (dc_first_binding d) (g_bindings g)))) @
     concat (map (\<lambda>m. concat (map (\<lambda>h. closure_reads g (fm_id m) (hook_text (hk_kind h) @ '' hook of '' @ mn_text (fm_name m))
                (hk_dependencies h)) (fm_hooks m))) (drop (dc_first_module d) (g_modules g))) @
     concat (map (\<lambda>h. concat (map (\<lambda>e. case e of
           ED_Closure c \<Rightarrow> closure_reads g (hr_module h) (handler_name g h @ '' (enhancer closure)'') (cd_dependencies c)
         | ED_Type _ \<Rightarrow> []) (hd_enhancer_deps (hr_decl h)))) (drop (dc_first_handler d) (g_handlers g)))"

end
