(* ===== verification/Scopes.thy ===== *)
theory Scopes
  imports Visibility
begin

text \<open>
  Step 5 of the wiring pass, \<open>crates/ulo/src/graph/scopes.rs\<close>: roles, the needs-execution pass, scope
  violations with the path that introduces the need, the scope of each enhancer declared by closure,
  closures that read execution data where none exists, and the per-handler input check. A loop whose end
  depends on the graph returns \<^const>\<open>None\<close> when it does not end; the laws show that on a graph whose
  numbers are in range it always returns.
\<close>

section \<open>Roles\<close>

definition key_type :: "key \<Rightarrow> rust_type" where
  "key_type k = tn_id (k_ty k)"

definition role_types :: "graph \<Rightarrow> frozen_binding list \<Rightarrow> rust_type list" where
  "role_types g bindings =
     map key_type (concat (map (\<lambda>h. hd_role_keys (hr_decl h)) (g_handlers g))) @
     map (\<lambda>b. key_type (br_primary (fb_record b)))
       (filter (\<lambda>b. br_kind (fb_record b) = BK_Collection \<and> fb_role b = RoleEnhancer) bindings)"

definition mark_role :: "rust_type list \<Rightarrow> frozen_binding \<Rightarrow> frozen_binding" where
  "mark_role roles b =
     (if br_kind (fb_record b) = BK_Collection \<and> fb_role b = RoleProvider \<and> key_type (br_primary (fb_record b)) \<in> set roles
      then b\<lparr>fb_role := RoleEnhancer\<rparr> else b)"

definition role_errors :: "graph \<Rightarrow> nat \<Rightarrow> rust_type list \<Rightarrow> rust_type list \<Rightarrow> frozen_binding \<Rightarrow> wiring_error list" where
  "role_errors g first roles checked b =
     (let r = fb_record b; new = first \<le> fb_id b;
          reported = (\<lambda>k. key_type k \<in> set roles \<and> (new \<or> key_type k \<notin> set checked))
      in case br_kind r of
           BK_Collection \<Rightarrow>
             (let k = record_key r
              in if \<not> is_unqualified k \<and> reported k
                 then [QualifiedRoleContribution (name_key BK_Collection k) (graph_module_name g (fb_origin b)) (br_location r)]
                 else [])
         | BK_Single \<Rightarrow>
             map (\<lambda>(k, at). SingleRoleBinding (name_key BK_Single k) (graph_module_name g (fb_origin b)) at)
               (filter (\<lambda>(k, _). reported k) (keys_located r)))"

definition mark_role_contributions :: "graph \<Rightarrow> nat \<Rightarrow> wiring_error list \<Rightarrow> graph \<times> wiring_error list" where
  "mark_role_contributions g first errors =
     (let roles = role_types g (g_bindings g);
          checked = role_types g (take first (g_bindings g));
          g = g\<lparr>g_bindings := map (mark_role roles) (g_bindings g)\<rparr>
      in (g, errors @ concat (map (role_errors g first roles checked) (g_bindings g))))"

fun follow_aliases :: "nat \<Rightarrow> graph \<Rightarrow> nat \<Rightarrow> nat" where
  "follow_aliases 0 g b = b"
| "follow_aliases (Suc n) g b = (case alias_target g b of Some t \<Rightarrow> follow_aliases n g t | None \<Rightarrow> b)"

definition through_aliases :: "graph \<Rightarrow> nat \<Rightarrow> nat" where
  "through_aliases g b = follow_aliases (length (g_bindings g)) g b"

definition named_enhancers :: "graph \<Rightarrow> nat list" where
  "named_enhancers g =
     concat (map (\<lambda>h. List.map_filter (\<lambda>e. case e of
           ED_Type k \<Rightarrow> (case lookup g (hr_module h) k of Some (VisBinding b) \<Rightarrow> Some (through_aliases g b) | _ \<Rightarrow> None)
         | ED_Closure _ \<Rightarrow> None) (hd_enhancer_deps (hr_decl h))) (g_handlers g))"

definition assign_role :: "nat \<Rightarrow> graph \<Rightarrow> graph" where
  "assign_role b g =
     (if fb_role (binding g b) = RoleProvider
      then g\<lparr>g_bindings := (g_bindings g)[b := (binding g b)\<lparr>fb_role := RoleEnhancer\<rparr>]\<rparr> else g)"

definition assign_roles :: "graph \<Rightarrow> graph" where
  "assign_roles g = fold assign_role (named_enhancers g) g"

section \<open>The needs-execution pass\<close>

definition promote :: "frozen_binding \<Rightarrow> frozen_binding" where
  "promote b =
     (if br_scope (fb_record b) = SK_Auto \<and> fb_role b \<noteq> RoleProvider then b\<lparr>fb_effective := EffPerExecution\<rparr> else b)"

definition declared_effective :: "scope_kind \<Rightarrow> effective" where
  "declared_effective s = (case s of
      SK_Singleton \<Rightarrow> EffSingleton | SK_Auto \<Rightarrow> EffSingleton | SK_PerExecution \<Rightarrow> EffPerExecution | SK_Transient \<Rightarrow> EffTransient)"

definition start_scope :: "frozen_binding \<Rightarrow> frozen_binding" where
  "start_scope b =
     (let needs = br_scope (fb_record b) = SK_PerExecution \<or> list_ex (\<lambda>e. is_execution_target (ed_target e)) (fb_edges b);
          b = b\<lparr>fb_effective := declared_effective (br_scope (fb_record b)), fb_needs_execution := needs\<rparr>
      in if needs then promote b else b)"

definition add_reader :: "nat \<Rightarrow> nat \<Rightarrow> nat list list \<Rightarrow> nat list list" where
  "add_reader reader dep readers = readers[dep := readers ! dep @ [reader]]"

definition readers_of :: "graph \<Rightarrow> nat list list" where
  "readers_of g =
     fold (\<lambda>reader. fold (add_reader reader) (construction_deps g reader)) [0..<length (g_bindings g)]
       (replicate (length (g_bindings g)) [])"

record needing =
  nx_graph :: graph
  nx_queue :: "nat list"

definition spread_reader :: "nat \<Rightarrow> needing \<Rightarrow> needing" where
  "spread_reader reader s =
     (let g = nx_graph s; b = binding g reader
      in if fb_needs_execution b then s
         else (let g = g\<lparr>g_bindings := (g_bindings g)[reader := promote (b\<lparr>fb_needs_execution := True\<rparr>)]\<rparr>
               in s\<lparr>nx_graph := g, nx_queue := (if passes_execution g reader then nx_queue s @ [reader] else nx_queue s)\<rparr>))"

definition spread_step :: "nat list list \<Rightarrow> needing \<Rightarrow> needing" where
  "spread_step readers s =
     (case nx_queue s of
        [] \<Rightarrow> s
      | dep # queue \<Rightarrow> fold spread_reader (readers ! dep) (s\<lparr>nx_queue := queue\<rparr>))"

definition needs_execution :: "graph \<Rightarrow> graph option" where
  "needs_execution g =
     (let g = g\<lparr>g_bindings := map start_scope (g_bindings g)\<rparr>;
          queue = filter (passes_execution g) [0..<length (g_bindings g)]
      in map_option nx_graph (while_option (\<lambda>s. nx_queue s \<noteq> []) (spread_step (readers_of g)) \<lparr>nx_graph = g, nx_queue = queue\<rparr>))"

section \<open>The path that introduces a need\<close>

definition path_reached :: "graph \<Rightarrow> nat \<Rightarrow> nat \<Rightarrow> bool" where
  "path_reached g src b =
     (direct_execution_edge g b \<noteq> None \<or> (b \<noteq> src \<and> fb_effective (binding g b) = EffPerExecution))"

definition path_back_go :: "(nat \<times> nat) list \<Rightarrow> nat \<times> nat list \<times> bool \<Rightarrow> bool" where
  "path_back_go parent = (\<lambda>(current, path, stop). \<not> stop \<and> map_of parent current \<noteq> None)"

definition path_back_step :: "(nat \<times> nat) list \<Rightarrow> nat \<Rightarrow> nat \<times> nat list \<times> bool \<Rightarrow> nat \<times> nat list \<times> bool" where
  "path_back_step parent src = (\<lambda>(current, path, stop).
     case map_of parent current of
       Some previous \<Rightarrow> if previous = src then (current, path @ [previous], True) else (previous, path @ [previous], False)
     | None \<Rightarrow> (current, path, stop))"

definition path_back :: "(nat \<times> nat) list \<Rightarrow> nat \<Rightarrow> nat \<Rightarrow> nat list option" where
  "path_back parent src dep =
     map_option (\<lambda>(_, path, _). rev path) (while_option (path_back_go parent) (path_back_step parent src) (dep, [dep], False))"

record exec_walk =
  ew_parent :: "(nat \<times> nat) list"
  ew_queue :: "nat list"
  ew_found :: "nat list option option"

fun scan_reads :: "graph \<Rightarrow> nat \<Rightarrow> nat \<Rightarrow> nat list \<Rightarrow> exec_walk \<Rightarrow> exec_walk" where
  "scan_reads g src node [] w = w"
| "scan_reads g src node (d # ds) w =
     (if d = src \<or> map_of (ew_parent w) d \<noteq> None \<or> \<not> passes_execution g d then scan_reads g src node ds w
      else (let w = w\<lparr>ew_parent := ew_parent w @ [(d, node)]\<rparr>
            in if path_reached g src d then w\<lparr>ew_found := Some (path_back (ew_parent w) src d)\<rparr>
               else scan_reads g src node ds (w\<lparr>ew_queue := ew_queue w @ [d]\<rparr>)))"

definition exec_step :: "graph \<Rightarrow> nat \<Rightarrow> exec_walk \<Rightarrow> exec_walk" where
  "exec_step g src w =
     (case ew_queue w of
        [] \<Rightarrow> w
      | node # queue \<Rightarrow> scan_reads g src node (construction_deps g node) (w\<lparr>ew_queue := queue\<rparr>))"

definition execution_path :: "graph \<Rightarrow> nat \<Rightarrow> nat list option" where
  "execution_path g src =
     (if path_reached g src src then Some [src]
      else (case while_option (\<lambda>w. ew_queue w \<noteq> [] \<and> ew_found w = None) (exec_step g src)
                   \<lparr>ew_parent = [], ew_queue = [src], ew_found = None\<rparr> of
              None \<Rightarrow> None
            | Some w \<Rightarrow> (case ew_found w of Some path \<Rightarrow> path | None \<Rightarrow> Some [src])))"

definition last_read :: "graph \<Rightarrow> nat list \<Rightarrow> string list" where
  "last_read g ids =
     (if ids = [] then []
      else (case direct_execution_edge g (last ids) of
              Some e \<Rightarrow> [dependency_step g (last ids) (ed_dependency e)]
            | None \<Rightarrow> []))"

definition execution_steps :: "graph \<Rightarrow> nat \<Rightarrow> string list option" where
  "execution_steps g b = map_option (\<lambda>ids. map (scoped_label g) ids @ last_read g ids) (execution_path g b)"

definition printed_path :: "graph \<Rightarrow> nat \<Rightarrow> string list option" where
  "printed_path g src =
     map_option (\<lambda>ids. map (\<lambda>(position, b). if position = 0 then graph_label g b else scoped_label g b) (List.enumerate 0 ids) @
         last_read g ids) (execution_path g src)"

section \<open>Scope violations\<close>

definition scope_refused :: "frozen_binding \<Rightarrow> bool" where
  "scope_refused b \<longleftrightarrow> fb_needs_execution b \<and>
     (case br_scope (fb_record b) of
        SK_Singleton \<Rightarrow> True | SK_Auto \<Rightarrow> fb_role b = RoleProvider | SK_PerExecution \<Rightarrow> False | SK_Transient \<Rightarrow> False)"

fun is_alias_or_failed :: "recipe \<Rightarrow> bool" where
  "is_alias_or_failed (RecipeAlias _) = True"
| "is_alias_or_failed RecipeFailed = True"
| "is_alias_or_failed _ = False"

definition check_scope :: "graph \<Rightarrow> frozen_binding \<Rightarrow> wiring_error list \<Rightarrow> wiring_error list option" where
  "check_scope g b errors =
     (let r = fb_record b in
      if is_alias_or_failed (br_recipe r) then Some errors
      else if scope_refused b then
        map_option (\<lambda>path. errors @ [ScopeViolation (graph_key_name g (fb_id b)) (br_scope r) (by_closure r)
            (fb_role b = RoleController) (graph_module_name g (fb_origin b)) path]) (printed_path g (fb_id b))
      else if fb_effective b = EffPerExecution \<and> (br_hooks r \<noteq> [] \<or> br_ready r \<noteq> None) then
        Some (errors @ [HooksOnPerExecution (graph_key_name g (fb_id b)) (graph_module_name g (fb_origin b))])
      else Some errors)"

definition check_scopes :: "graph \<Rightarrow> wiring_error list \<Rightarrow> wiring_error list option" where
  "check_scopes g errors = fold_option (check_scope g) (g_bindings g) errors"

section \<open>Closures\<close>

text \<open>\<open>find_map\<close> with a body that may not end.\<close>

fun find_map_option :: "('a \<Rightarrow> 'b option option) \<Rightarrow> 'a list \<Rightarrow> 'b option option" where
  "find_map_option f [] = Some None"
| "find_map_option f (x # xs) =
     (case f x of None \<Rightarrow> None | Some (Some y) \<Rightarrow> Some (Some y) | Some None \<Rightarrow> find_map_option f xs)"

definition passes_to :: "graph \<Rightarrow> nat option \<Rightarrow> nat \<Rightarrow> bool" where
  "passes_to g owner b \<longleftrightarrow> Some b \<noteq> owner \<and> passes_execution g b"

definition execution_read_of :: "graph \<Rightarrow> nat \<Rightarrow> nat option \<Rightarrow> read_rec \<Rightarrow> string list option option" where
  "execution_read_of g m owner rd =
     (case rd_kind rd of
        ReadExtension _ \<Rightarrow> Some (Some [])
      | ReadExecution \<Rightarrow> Some (Some [])
      | ReadSingle k \<Rightarrow>
          (case lookup g m k of
             Some (VisInput input) \<Rightarrow> Some (Some [''input `'' @ key_name_text (name_key BK_Single input) @ ''`''])
           | Some (VisBinding b) \<Rightarrow> if passes_to g owner b then map_option Some (execution_steps g b) else Some None
           | _ \<Rightarrow> Some None)
      | ReadCollection k \<Rightarrow>
          (case find (passes_to g owner) (collection g k) of
             Some b \<Rightarrow> map_option Some (execution_steps g b)
           | None \<Rightarrow> Some None)
      | ReadModule \<Rightarrow> Some None)"

definition execution_read :: "graph \<Rightarrow> nat \<Rightarrow> nat option \<Rightarrow> dependency_record \<Rightarrow> string list option option" where
  "execution_read g m owner d = find_map_option (execution_read_of g m owner) (dr_requirement d)"

definition closure_read :: "graph \<Rightarrow> nat \<Rightarrow> dependencies \<Rightarrow> string list option option" where
  "closure_read g m deps =
     find_map_option (\<lambda>d. map_option (map_option (\<lambda>steps. dependency_text d # steps)) (execution_read g m None d)) (dp_list deps)"

definition closure_effective :: "scope_kind \<Rightarrow> bool \<Rightarrow> effective" where
  "closure_effective scope reads = (case scope of
      SK_Auto \<Rightarrow> if reads then EffPerExecution else EffSingleton
    | SK_Singleton \<Rightarrow> EffSingleton
    | SK_PerExecution \<Rightarrow> EffPerExecution
    | SK_Transient \<Rightarrow> EffTransient)"

definition closure_scope ::
  "graph \<Rightarrow> handler_record \<Rightarrow> enhancer_dep \<Rightarrow> (nat \<times> effective) list \<times> wiring_error list \<Rightarrow>
   ((nat \<times> effective) list \<times> wiring_error list) option" where
  "closure_scope g h e = (\<lambda>(decided, errors).
     case e of
       ED_Type _ \<Rightarrow> Some (decided, errors)
     | ED_Closure c \<Rightarrow>
         map_option (\<lambda>read.
           (decided @ [(cd_id c, closure_effective (cd_scope c) (read \<noteq> None))],
            case (cd_scope c, read) of
              (SK_Singleton, Some path) \<Rightarrow>
                errors @ [ClosureScopeViolation
                  (cd_tier c @ ''-level '' @ cd_role c @ '' #'' @ decimal (cd_position c) @ '' of '' @ handler_name g h)
                  (hd_transport (hr_decl h)) (cd_role c) path (cd_location c)]
            | _ \<Rightarrow> errors))
         (closure_read g (hr_module h) (cd_dependencies c)))"

definition closure_scopes :: "graph \<Rightarrow> declared \<Rightarrow> wiring_error list \<Rightarrow> (graph \<times> wiring_error list) option" where
  "closure_scopes g d errors =
     map_option (\<lambda>(decided, errors). (g\<lparr>g_closures := fold (\<lambda>(k, v). AList.update k v) decided (g_closures g)\<rparr>, errors))
       (fold_option (\<lambda>h. fold_option (closure_scope g h) (hd_enhancer_deps (hr_decl h)))
          (drop (dc_first_handler d) (g_handlers g)) ([], errors))"

definition check_closure ::
  "graph \<Rightarrow> nat \<Rightarrow> nat option \<Rightarrow> string \<Rightarrow> location option \<Rightarrow> dependencies \<Rightarrow> wiring_error list \<Rightarrow> wiring_error list option" where
  "check_closure g m owner name at deps errors =
     fold_option (\<lambda>d errors. map_option (\<lambda>read. case read of
           Some steps \<Rightarrow> errors @ [ClosureNeedsExecution name (dependency_text d # steps) at]
         | None \<Rightarrow> errors) (execution_read g m owner d)) (dp_list deps) errors"

definition check_closures_of :: "graph \<Rightarrow> frozen_binding \<Rightarrow> wiring_error list \<Rightarrow> wiring_error list option" where
  "check_closures_of g b errors =
     (let m = mn_text (graph_module_name g (fb_origin b)); label = graph_label g (fb_id b)
      in Option.bind
           (case br_ready (fb_record b) of
              Some ready \<Rightarrow> check_closure g (fb_origin b) (Some (fb_id b)) (''readiness check of `'' @ label @ ''` in '' @ m)
                  (Some (rr_location ready)) (rr_dependencies ready) errors
            | None \<Rightarrow> Some errors)
           (fold_option (\<lambda>h. check_closure g (fb_origin b) (Some (fb_id b))
               (''`'' @ hook_text (hk_kind h) @ ''` hook of `'' @ label @ ''` in '' @ m) (Some (hk_location h)) (hk_dependencies h))
             (br_hooks (fb_record b))))"

definition check_closures :: "graph \<Rightarrow> declared \<Rightarrow> wiring_error list \<Rightarrow> wiring_error list option" where
  "check_closures g d errors =
     Option.bind (fold_option (check_closures_of g) (drop (dc_first_binding d) (g_bindings g)) errors) (\<lambda>errors.
     Option.bind (fold_option (\<lambda>m. fold_option (\<lambda>h. check_closure g (fm_id m) None
         (''`'' @ hook_text (hk_kind h) @ ''` hook of module '' @ mn_text (fm_name m)) (Some (hk_location h)) (hk_dependencies h))
         (fm_hooks m)) (drop (dc_first_module d) (g_modules g)) errors) (\<lambda>errors.
     fold_option (\<lambda>(m, name, deps). check_closure g m None
         (''metadata `'' @ short_type_name name @ ''` of '' @ mn_text (graph_module_name g m)) None deps) (dc_meta d) errors))"

section \<open>Inputs\<close>

definition in_execution :: "graph \<Rightarrow> nat \<Rightarrow> bool" where
  "in_execution g b \<longleftrightarrow> fb_effective (binding g b) \<in> {EffPerExecution, EffTransient}"

record input_read =
  iq_input :: key
  iq_steps :: "string list"

record input_walk =
  iw_seen :: "(key \<times> nat option) set"
  iw_reads :: "input_read list"

definition walk_record :: "key \<Rightarrow> nat option \<Rightarrow> string list \<Rightarrow> input_walk \<Rightarrow> input_walk" where
  "walk_record input reader steps w =
     (if (input, reader) \<in> iw_seen w then w
      else w\<lparr>iw_seen := insert (input, reader) (iw_seen w), iw_reads := iw_reads w @ [\<lparr>iq_input = input, iq_steps = steps\<rparr>]\<rparr>)"

definition read_root ::
  "graph \<Rightarrow> nat \<Rightarrow> string option \<Rightarrow> dependency_record \<Rightarrow> read_rec \<Rightarrow> input_walk \<times> nat list \<Rightarrow> input_walk \<times> nat list" where
  "read_root g m via d rd = (\<lambda>(w, roots).
     case rd_kind rd of
       ReadSingle k \<Rightarrow>
         (case lookup g m k of
            Some (VisInput input) \<Rightarrow>
              if rd_optional rd then (w, roots)
              else (walk_record input None ((case via of Some v \<Rightarrow> [v] | None \<Rightarrow> []) @ [dependency_text d]) w, roots)
          | Some (VisBinding b) \<Rightarrow> (w, roots @ [b])
          | _ \<Rightarrow> (w, roots))
     | ReadCollection k \<Rightarrow> (w, roots @ collection g k)
     | ReadExtension _ \<Rightarrow> (w, roots)
     | ReadExecution \<Rightarrow> (w, roots)
     | ReadModule \<Rightarrow> (w, roots))"

definition read_roots :: "graph \<Rightarrow> nat \<Rightarrow> dependencies \<Rightarrow> string option \<Rightarrow> input_walk \<times> nat list \<Rightarrow> input_walk \<times> nat list" where
  "read_roots g m deps via s = fold (\<lambda>d. fold (read_root g m via d) (dr_requirement d)) (dp_list deps) s"

definition enhancer_roots :: "graph \<Rightarrow> nat \<Rightarrow> enhancer_dep \<Rightarrow> input_walk \<times> nat list \<Rightarrow> input_walk \<times> nat list" where
  "enhancer_roots g m e = (\<lambda>(w, roots).
     case e of
       ED_Type k \<Rightarrow> (case lookup g m k of Some (VisBinding b) \<Rightarrow> (w, roots @ [b]) | _ \<Rightarrow> (w, roots))
     | ED_Closure c \<Rightarrow>
         if map_of (g_closures g) (cd_id c) = Some EffSingleton then (w, roots)
         else read_roots g m (cd_dependencies c) (Some ''enhancer closure'') (w, roots))"

definition handler_roots :: "graph \<Rightarrow> handler_record \<Rightarrow> input_walk \<times> nat list" where
  "handler_roots g h =
     fold (enhancer_roots g (hr_module h)) (hd_enhancer_deps (hr_decl h))
       (read_roots g (hr_module h) (hd_dependencies (hr_decl h)) None
          (\<lparr>iw_seen = {}, iw_reads = []\<rparr>, hr_controller h # concat (map (collection g) (hd_role_keys (hr_decl h)))))"

definition chain_go :: "(nat \<times> nat option) list \<Rightarrow> nat \<times> nat list \<Rightarrow> bool" where
  "chain_go parent = (\<lambda>(current, steps).
     case map_of parent current of Some (Some previous) \<Rightarrow> previous \<notin> set steps | _ \<Rightarrow> False)"

definition chain_step :: "(nat \<times> nat option) list \<Rightarrow> nat \<times> nat list \<Rightarrow> nat \<times> nat list" where
  "chain_step parent = (\<lambda>(current, steps).
     case map_of parent current of Some (Some previous) \<Rightarrow> (previous, steps @ [previous]) | _ \<Rightarrow> (current, steps))"

definition chain :: "(nat \<times> nat option) list \<Rightarrow> nat \<Rightarrow> nat list option" where
  "chain parent node = map_option (\<lambda>(_, steps). rev steps) (while_option (chain_go parent) (chain_step parent) (node, [node]))"

record input_search =
  is_parent :: "(nat \<times> nat option) list"
  is_queue :: "nat list"
  is_walk :: input_walk

definition enter_root :: "graph \<Rightarrow> nat option \<Rightarrow> nat \<Rightarrow> input_search \<Rightarrow> input_search" where
  "enter_root g from_node b s =
     (if in_execution g b \<and> map_of (is_parent s) b = None
      then s\<lparr>is_parent := is_parent s @ [(b, from_node)], is_queue := is_queue s @ [b]\<rparr> else s)"

definition input_edge :: "graph \<Rightarrow> nat \<Rightarrow> edge \<Rightarrow> input_search \<Rightarrow> input_search option" where
  "input_edge g node e s =
     (case ed_target e of
        TargetInput input \<Rightarrow>
          if ed_optional e then Some s
          else map_option (\<lambda>steps. s\<lparr>is_walk := walk_record input (Some node)
                 (map (scoped_label g) steps @ [dependency_step g node (ed_dependency e)]) (is_walk s)\<rparr>)
               (chain (is_parent s) node)
      | _ \<Rightarrow> Some s)"

definition search_step :: "graph \<Rightarrow> input_search option \<Rightarrow> input_search option" where
  "search_step g = (\<lambda>so. Option.bind so (\<lambda>s.
     case is_queue s of
       [] \<Rightarrow> Some s
     | node # queue \<Rightarrow>
         map_option (fold (enter_root g (Some node)) (construction_deps g node))
           (fold_option (input_edge g node) (fb_edges (binding g node)) (s\<lparr>is_queue := queue\<rparr>))))"

definition search_go :: "input_search option \<Rightarrow> bool" where
  "search_go so = (case so of Some s \<Rightarrow> is_queue s \<noteq> [] | None \<Rightarrow> False)"

definition input_reads :: "graph \<Rightarrow> handler_record \<Rightarrow> input_read list option" where
  "input_reads g h =
     (let (w, roots) = handler_roots g h;
          start = fold (enter_root g None) roots \<lparr>is_parent = [], is_queue = [], is_walk = w\<rparr>
      in Option.bind (while_option search_go (search_step g) (Some start)) (map_option (\<lambda>s. iw_reads (is_walk s))))"

definition input_error :: "graph \<Rightarrow> handler_record \<Rightarrow> input_read \<Rightarrow> wiring_error list" where
  "input_error g h r =
     (case map_of (g_inputs g) (iq_input r) of
        None \<Rightarrow> []
      | Some decl \<Rightarrow>
          if hd_transport (hr_decl h) \<in> set (id_seeders decl) then []
          else (case id_seeders decl of
                  [] \<Rightarrow> []
                | seeder # _ \<Rightarrow> [InputNotSeeded (handler_name g h) (hd_transport (hr_decl h))
                    (name_key BK_Single (iq_input r)) seeder (iq_steps r)]))"

definition check_inputs :: "graph \<Rightarrow> wiring_error list \<Rightarrow> wiring_error list option" where
  "check_inputs g errors =
     fold_option (\<lambda>h errors. map_option (\<lambda>reads. errors @ concat (map (input_error g h) reads)) (input_reads g h))
       (g_handlers g) errors"

end
