(* ===== verification/Registry_Walk.thy ===== *)
theory Registry_Walk
  imports Graph_Model
begin

text \<open>
  Registration, \<open>crates/ulo/src/graph/register.rs\<close> and \<open>collection_order\<close> of \<open>graph/order.rs\<close>: the
  walk that calls \<open>Module::register\<close> once per identity and follows imports in the order written, the
  depth-first post-order that numbers the modules, and their diagnostic names. The modules of an
  application are not part of the framework: a module value is a number and \<open>mods\<close> answers its
  identity, its settings and what its \<open>register\<close> makes of a fresh node.
\<close>

section \<open>The registry\<close>

record replaced =
  rp_original :: module_identity
  rp_exports :: "key list"
  rp_replacement :: nat

record differing =
  di_module :: import_ref
  di_first :: site
  di_second_site :: site
  di_settings :: "(string \<times> string option \<times> string option) list"

record registry =
  rg_nodes :: "module_node list"
  rg_by_identity :: "(module_identity \<times> nat) list"
  rg_imports :: "import_ref list list"
  rg_post_order :: "nat list"
  rg_self_imports :: "nat list"
  rg_replaced :: "replaced list"
  rg_differing :: "differing list"
  rg_repeats :: "(import_ref \<times> repeat) list"

definition identity_lookup :: "(module_identity \<times> nat) list \<Rightarrow> module_identity \<Rightarrow> nat option" where
  "identity_lookup t i = map_option snd (find (\<lambda>(j, _). identity_eq j i) t)"

definition differing_of ::
  "import_ref \<Rightarrow> module_settings \<times> site \<Rightarrow> module_settings \<times> site \<Rightarrow> differing option" where
  "differing_of m first second =
     (let settings = differences (fst first) (fst second)
      in if settings \<noteq> []
         then Some \<lparr>di_module = m, di_first = snd first, di_second_site = snd second, di_settings = settings\<rparr>
         else None)"

definition site_name :: "mod_name list \<Rightarrow> graph \<Rightarrow> import_ref \<Rightarrow> mod_name" where
  "site_name names base i = (case i of ImportNew node \<Rightarrow> names ! node | ImportExisting m \<Rightarrow> fm_name (gmodule base m))"

definition site_of :: "mod_name list \<Rightarrow> graph \<Rightarrow> site \<Rightarrow> module_site" where
  "site_of names base s = (case s of
      SiteRoot \<Rightarrow> MS_Root
    | SiteLoad at \<Rightarrow> MS_Load at
    | SiteImport importer at \<Rightarrow> MS_Import (site_name names base importer) at)"

definition differing_error :: "mod_name list \<Rightarrow> graph \<Rightarrow> differing \<Rightarrow> wiring_error" where
  "differing_error names base d =
     DifferingSettings (site_name names base (di_module d)) (site_of names base (di_first d))
       (site_of names base (di_second_site d)) (map (differing_setting_new (g_secrets base)) (di_settings d))"

definition note_repeat ::
  "import_ref \<Rightarrow> module_settings \<Rightarrow> repeat \<Rightarrow> (import_ref \<times> repeat) list \<Rightarrow> (import_ref \<times> repeat) list" where
  "note_repeat m claimed r repeats =
     (if r \<notin> set (ms_repeats claimed) \<and> (m, r) \<notin> set repeats then repeats @ [(m, r)] else repeats)"

definition later_repeats ::
  "(import_ref \<times> repeat) list \<Rightarrow> import_ref \<Rightarrow> module_settings \<Rightarrow> module_settings \<Rightarrow> (import_ref \<times> repeat) list" where
  "later_repeats repeats m claimed later = fold (note_repeat m claimed) (ms_repeats later) repeats"

section \<open>Collection order\<close>

definition imports_of :: "registry \<Rightarrow> nat \<Rightarrow> import_ref list" where
  "imports_of r node = (if node < length (rg_imports r) then rg_imports r ! node else [])"

record collecting =
  co_order :: "nat list"
  co_visited :: "bool list"
  co_stack :: "(nat \<times> nat) list"

definition collect_step :: "registry \<Rightarrow> collecting \<Rightarrow> collecting" where
  "collect_step r s =
     (case co_stack s of
        [] \<Rightarrow> s
      | (node, nxt) # rest \<Rightarrow>
          if nxt < length (imports_of r node) then
            (let s = s\<lparr>co_stack := (node, Suc nxt) # rest\<rparr>
             in case imports_of r node ! nxt of
                  ImportNew child \<Rightarrow>
                    if child < length (rg_nodes r) \<and> \<not> co_visited s ! child
                    then s\<lparr>co_visited := (co_visited s)[child := True], co_stack := (child, 0) # co_stack s\<rparr>
                    else s
                | ImportExisting _ \<Rightarrow> s)
          else s\<lparr>co_order := co_order s @ [node], co_stack := rest\<rparr>)"

definition collection_order :: "registry \<Rightarrow> nat list option" where
  "collection_order r =
     (if rg_nodes r = [] then Some []
      else map_option co_order
        (while_option (\<lambda>s. co_stack s \<noteq> []) (collect_step r)
           \<lparr>co_order = [], co_visited = (replicate (length (rg_nodes r)) False)[0 := True], co_stack = [(0, 0)]\<rparr>))"

section \<open>Names\<close>

definition count_of :: "((rust_type \<times> rust_type option) \<times> nat) list \<Rightarrow> rust_type \<times> rust_type option \<Rightarrow> nat" where
  "count_of counts k = (case map_of counts k of Some n \<Rightarrow> n | None \<Rightarrow> 0)"

definition identity_kind :: "module_identity \<Rightarrow> rust_type \<times> rust_type option" where
  "identity_kind i = (mi_ty i, mi_qualifier i)"

definition count_module ::
  "module_identity \<Rightarrow> ((rust_type \<times> rust_type option) \<times> nat) list \<Rightarrow> ((rust_type \<times> rust_type option) \<times> nat) list" where
  "count_module i counts = AList.update (identity_kind i) (count_of counts (identity_kind i) + 1) counts"

definition name_node ::
  "registry \<Rightarrow> nat \<Rightarrow> ((rust_type \<times> rust_type option) \<times> nat) list \<times> mod_name option list \<Rightarrow>
   ((rust_type \<times> rust_type option) \<times> nat) list \<times> mod_name option list" where
  "name_node r node = (\<lambda>(counts, names).
     (let i = nd_identity (rg_nodes r ! node)
      in (count_module i counts, names[node := Some (module_name_of i (count_of counts (identity_kind i)))])))"

definition registry_names :: "registry \<Rightarrow> graph option \<Rightarrow> mod_name list" where
  "registry_names r base =
     (let counts = (case base of None \<Rightarrow> [] | Some g \<Rightarrow> fold (\<lambda>m. count_module (fm_identity m)) (g_modules g) []);
          (_, names) = fold (name_node r) (rg_post_order r) (counts, replicate (length (rg_nodes r)) None)
      in map (\<lambda>(name, node). case name of Some n \<Rightarrow> n | None \<Rightarrow> module_name_of (nd_identity node) 0)
           (zip names (rg_nodes r)))"

definition self_imports :: "registry \<Rightarrow> mod_name list \<Rightarrow> wiring_error list \<Rightarrow> wiring_error list" where
  "self_imports r names errors =
     errors @ List.map_filter (\<lambda>node. map_option (\<lambda>n. ImportCycle [n, n]) (get_nth names node)) (rg_self_imports r)"

section \<open>The walk\<close>

record module_impl =
  mm_identity :: module_identity
  mm_settings :: module_settings
  mm_register :: "module_node \<Rightarrow> module_node"

record replacement =
  rm_original :: module_identity
  rm_replacement :: nat
  rm_location :: location

record walk =
  wk_registry :: registry
  wk_path :: "nat list"

definition walk_new :: walk where
  "walk_new =
     \<lparr>wk_registry = \<lparr>rg_nodes = [], rg_by_identity = [], rg_imports = [], rg_post_order = [], rg_self_imports = [],
        rg_replaced = [], rg_differing = [], rg_repeats = []\<rparr>, wk_path = []\<rparr>"

text \<open>A registration of an identity already held: settings compared, repeats recorded.\<close>

definition link_existing :: "import_ref \<Rightarrow> module_settings \<times> site \<Rightarrow> module_settings \<times> site \<Rightarrow> registry \<Rightarrow> registry" where
  "link_existing found claimed later r =
     r\<lparr>rg_differing := rg_differing r @ (case differing_of found claimed later of Some d \<Rightarrow> [d] | None \<Rightarrow> []),
       rg_repeats := later_repeats (rg_repeats r) found (fst claimed) (fst later)\<rparr>"

text \<open>The node a new identity is registered as, \<open>register\<close> run and the imports taken out of it.\<close>

definition fresh_node :: "module_impl \<Rightarrow> module_identity \<Rightarrow> site \<Rightarrow> walk \<Rightarrow> module_node" where
  "fresh_node m i s w =
     mm_register m ((module_node_new i)\<lparr>nd_settings := mm_settings m, nd_site := s,
       nd_inherited_keyed := find_map (\<lambda>a. nd_keyed (rg_nodes (wk_registry w) ! a)) (rev (wk_path w))\<rparr>)"

definition push_node :: "module_node \<Rightarrow> module_identity \<Rightarrow> walk \<Rightarrow> walk" where
  "push_node node i w =
     (let r = wk_registry w; index = length (rg_nodes r)
      in w\<lparr>wk_registry := r\<lparr>rg_nodes := rg_nodes r @ [node\<lparr>nd_imports := []\<rparr>],
                             rg_by_identity := rg_by_identity r @ [(i, index)],
                             rg_imports := rg_imports r @ [[]]\<rparr>,
           wk_path := wk_path w @ [index]\<rparr>)"

definition push_import :: "nat \<Rightarrow> import_ref \<Rightarrow> walk \<Rightarrow> walk" where
  "push_import index reached w =
     (let r = wk_registry w
      in w\<lparr>wk_registry := r\<lparr>rg_imports := (rg_imports r)[index := rg_imports r ! index @ [reached]]\<rparr>\<rparr>)"

definition note_replaced :: "module_impl \<Rightarrow> module_identity \<Rightarrow> import_ref \<Rightarrow> walk \<Rightarrow> walk" where
  "note_replaced original i imp w =
     (case imp of
        ImportNew node \<Rightarrow>
          (let r = wk_registry w in
           if list_ex (\<lambda>p. identity_eq (rp_original p) i) (rg_replaced r) then w
           else (let scratch = mm_register original (module_node_new i)
                 in w\<lparr>wk_registry := r\<lparr>rg_replaced := rg_replaced r @
                        [\<lparr>rp_original = i, rp_exports = map (\<lambda>e. boundary_key (nd_keyed scratch) (ex_key e)) (nd_exports scratch),
                          rp_replacement = node\<rparr>]\<rparr>\<rparr>))
      | ImportExisting _ \<Rightarrow> w)"

text \<open>
  \<open>reach\<close> and \<open>enter\<close> call each other through the imports. An application whose modules made up new
  identities without end would register for ever, so the recursion is bounded by \<open>fuel\<close>; the result
  \<^const>\<open>None\<close> is a walk deeper than the bound.
\<close>

fun walk_reach :: "nat \<Rightarrow> (nat \<Rightarrow> module_impl) \<Rightarrow> graph option \<Rightarrow> replacement list \<Rightarrow> nat \<Rightarrow> site \<Rightarrow> walk \<Rightarrow> (import_ref \<times> walk) option"
  and walk_enter :: "nat \<Rightarrow> (nat \<Rightarrow> module_impl) \<Rightarrow> graph option \<Rightarrow> replacement list \<Rightarrow> module_identity \<Rightarrow> nat \<Rightarrow> site \<Rightarrow> walk \<Rightarrow> (import_ref \<times> walk) option"
  and walk_imports :: "nat \<Rightarrow> (nat \<Rightarrow> module_impl) \<Rightarrow> graph option \<Rightarrow> replacement list \<Rightarrow> nat \<Rightarrow> import_record list \<Rightarrow> walk \<Rightarrow> walk option"
where
  "walk_reach fuel mods base plan m s w =
     (let i = mm_identity (mods m) in
      case Option.bind base (\<lambda>g. map_option (\<lambda>e. (g, e)) (identity_lookup (g_by_identity g) i)) of
        Some (g, existing) \<Rightarrow>
          (let frozen = gmodule g existing; found = ImportExisting existing
           in Some (found, w\<lparr>wk_registry := link_existing found (fm_settings frozen, fm_site frozen) (mm_settings (mods m), s) (wk_registry w)\<rparr>))
      | None \<Rightarrow>
          (case find (\<lambda>r. identity_eq (rm_original r) i) plan of
             Some r \<Rightarrow>
               map_option (\<lambda>(imp, w). (imp, note_replaced (mods m) i imp w))
                 (walk_enter fuel mods base plan (mm_identity (mods (rm_replacement r))) (rm_replacement r) s w)
           | None \<Rightarrow> walk_enter fuel mods base plan i m s w))"
| "walk_enter fuel mods base plan i m s w =
     (case identity_lookup (rg_by_identity (wk_registry w)) i of
        Some node \<Rightarrow>
          (let found = ImportNew node; r = wk_registry w in
           if wk_path w \<noteq> [] \<and> last (wk_path w) = node
           then Some (found, w\<lparr>wk_registry := r\<lparr>rg_self_imports := rg_self_imports r @ [node]\<rparr>\<rparr>)
           else (let claimed = rg_nodes r ! node
                 in Some (found, w\<lparr>wk_registry := link_existing found (nd_settings claimed, nd_site claimed) (mm_settings (mods m), s) r\<rparr>)))
      | None \<Rightarrow>
          (case fuel of
             0 \<Rightarrow> None
           | Suc fuel' \<Rightarrow>
               (let index = length (rg_nodes (wk_registry w)); node = fresh_node (mods m) i s w
                in map_option (\<lambda>w. (ImportNew index, w\<lparr>wk_path := butlast (wk_path w)\<rparr>))
                     (walk_imports fuel' mods base plan index (nd_imports node) (push_node node i w)))))"
| "walk_imports fuel mods base plan index [] w = Some w"
| "walk_imports fuel mods base plan index (im # ims) w =
     (case walk_reach fuel mods base plan (im_module im) (SiteImport (ImportNew index) (im_at im)) w of
        None \<Rightarrow> None
      | Some (reached, w) \<Rightarrow> walk_imports fuel mods base plan index ims (push_import index reached w))"

definition walk_finish :: "walk \<Rightarrow> registry option" where
  "walk_finish w =
     map_option (\<lambda>order. (wk_registry w)\<lparr>rg_post_order := order\<rparr>) (collection_order (wk_registry w))"

definition register_all :: "nat \<Rightarrow> (nat \<Rightarrow> module_impl) \<Rightarrow> nat \<Rightarrow> replacement list \<Rightarrow> registry option" where
  "register_all fuel mods root plan =
     Option.bind (walk_reach fuel mods None plan root SiteRoot walk_new) (\<lambda>(_, w). walk_finish w)"

definition register_lazy :: "nat \<Rightarrow> (nat \<Rightarrow> module_impl) \<Rightarrow> graph \<Rightarrow> nat \<Rightarrow> location \<Rightarrow> registry option" where
  "register_lazy fuel mods base m at =
     Option.bind (walk_reach fuel mods (Some base) [] m (SiteLoad at) walk_new) (\<lambda>(_, w). walk_finish w)"

end
