(* ===== verification/Wire.thy ===== *)
theory Wire
  imports Connect_Order Scopes Registry_Walk
begin

text \<open>
  The wiring pass, \<open>crates/ulo/src/graph/wire.rs\<close>: the registry frozen into the graph, the overrides of a test's plan, the
  checks of the six steps run in their order, and the lazy load of a module against a frozen graph. The types of the
  core's own module and keys are numbered apart from every other type, as their \<open>TypeId\<close>s are.
\<close>

section \<open>What wiring is given\<close>

record wire_env =
  we_timer :: "instance_ref option"
  we_runtime :: "instance_ref option"
  we_knobs_set :: "string list"
  we_zero_defaults :: "(string \<times> location) list"

datatype override_target =
    OT_Unscoped
  | OT_ModuleType rust_type string
  | OT_ModuleKeyed rust_type string rust_type
  | OT_Module module_identity
  | OT_Everywhere

record override_rec =
  ov_key :: key
  ov_recipe :: recipe
  ov_dependencies :: dependencies
  ov_target :: override_target
  ov_location :: location

record collection_override =
  cv_key :: key
  cv_items :: "instance_ref list"
  cv_location :: location

record test_plan =
  tp_overrides :: "override_rec list"
  tp_collections :: "collection_override list"
  tp_replacements :: "replacement list"

record steps =
  sp_modules :: "wiring_error list"
  sp_bindings :: "wiring_error list"
  sp_dependencies :: "wiring_error list"
  sp_cycles :: "wiring_error list"
  sp_scopes :: "wiring_error list"
  sp_environment :: "wiring_error list"

definition steps_default :: steps where
  "steps_default =
     \<lparr>sp_modules = [], sp_bindings = [], sp_dependencies = [], sp_cycles = [], sp_scopes = [], sp_environment = []\<rparr>"

definition into_errors :: "steps \<Rightarrow> wiring_error list" where
  "into_errors s =
     sp_modules s @ sp_bindings s @ sp_dependencies s @ sp_cycles s @ sp_scopes s @ sp_environment s"

definition push_modules :: "wiring_error list \<Rightarrow> steps \<Rightarrow> steps" where
  "push_modules es s = s\<lparr>sp_modules := sp_modules s @ es\<rparr>"

definition push_bindings :: "wiring_error list \<Rightarrow> steps \<Rightarrow> steps" where
  "push_bindings es s = s\<lparr>sp_bindings := sp_bindings s @ es\<rparr>"

section \<open>The core's own module\<close>

definition dyn_timer :: rust_type where
  "dyn_timer = RustType 1 ''dyn ulo::timer::Timer''"

definition dyn_runtime :: rust_type where
  "dyn_runtime = RustType 2 ''dyn ulo::runtime::Runtime''"

definition timer_module :: rust_type where
  "timer_module = RustType 3 ''ulo::graph::wire::TimerModule''"

definition timer_location :: location where
  "timer_location = (''crates/ulo/src/graph/wire.rs'', 220, 20)"

definition timer_binding :: "rust_type \<Rightarrow> instance_ref \<Rightarrow> binding_record" where
  "timer_binding ty inst =
     binding_record_new (key_of ty unit_type) (type_text ty) BK_Single SK_Singleton (RecipeValue inst) no_deps timer_location"

definition timer_export :: "rust_type \<Rightarrow> export_record" where
  "timer_export ty = \<lparr>ex_key = key_of ty unit_type, ex_reexport = False, ex_location = timer_location\<rparr>"

text \<open>\<open>HashMap::insert\<close> under the equality of identities: an equal key stays and takes the new value.\<close>

definition identity_insert :: "module_identity \<Rightarrow> nat \<Rightarrow> (module_identity \<times> nat) list \<Rightarrow> (module_identity \<times> nat) list" where
  "identity_insert i v t =
     (if list_ex (\<lambda>(j, _). identity_eq j i) t then map (\<lambda>(j, w). if identity_eq j i then (j, v) else (j, w)) t else t @ [(i, v)])"

definition add_timer_module :: "instance_ref \<Rightarrow> instance_ref option \<Rightarrow> registry \<Rightarrow> registry" where
  "add_timer_module timer runtime r =
     (let label = (if runtime \<noteq> None then ''AppBuilder::runtime'' else ''AppBuilder::timer'');
          i = \<lparr>mi_ty = timer_module, mi_config = None, mi_qualifier = None, mi_label = Some label\<rparr>;
          bound = (dyn_timer, timer) # (case runtime of Some rt \<Rightarrow> [(dyn_runtime, rt)] | None \<Rightarrow> []);
          node = (module_node_new i)\<lparr>nd_global := True, nd_bindings := map (\<lambda>(ty, inst). timer_binding ty inst) bound,
                   nd_exports := map (\<lambda>(ty, _). timer_export ty) bound\<rparr>;
          index = length (rg_nodes r)
      in r\<lparr>rg_nodes := rg_nodes r @ [node], rg_by_identity := identity_insert i index (rg_by_identity r),
           rg_imports := rg_imports r @ [[]], rg_post_order := index # rg_post_order r\<rparr>)"

section \<open>Overrides\<close>

definition unqualified :: "key \<Rightarrow> key" where
  "unqualified k = with_qualifier unit_type k"

definition binds_single :: "key \<Rightarrow> binding_record \<Rightarrow> bool" where
  "binds_single k r \<longleftrightarrow> br_kind r = BK_Single \<and> k \<in> set (record_keys r)"

definition contributes :: "key \<Rightarrow> binding_record \<Rightarrow> bool" where
  "contributes k r \<longleftrightarrow> br_kind r = BK_Collection \<and> record_key r = k"

definition one_instance ::
  "registry \<Rightarrow> mod_name list \<Rightarrow> rust_type \<Rightarrow> rust_type option \<Rightarrow> string \<Rightarrow> override_rec \<Rightarrow> wiring_error + nat" where
  "one_instance r names ty qual name ov =
     (case filter (\<lambda>n. let i = nd_identity (rg_nodes r ! n) in mi_ty i = ty \<and> (qual = None \<or> mi_qualifier i = qual)) (rg_post_order r) of
        [one] \<Rightarrow> Inr one
      | [] \<Rightarrow> Inl (OverrideUnmatched (name_key BK_Single (ov_key ov)) None (ov_location ov))
      | several \<Rightarrow> Inl (OverrideModuleAmbiguous name (map ((!) names) several) (ov_location ov)))"

definition override_modules :: "registry \<Rightarrow> mod_name list \<Rightarrow> override_rec \<Rightarrow> wiring_error + nat list" where
  "override_modules r names ov =
     (case ov_target ov of
        OT_Unscoped \<Rightarrow> Inr (rg_post_order r)
      | OT_Everywhere \<Rightarrow> Inr (rg_post_order r)
      | OT_ModuleType ty name \<Rightarrow> map_sum id (\<lambda>m. [m]) (one_instance r names ty None name ov)
      | OT_ModuleKeyed ty name qual \<Rightarrow> map_sum id (\<lambda>m. [m]) (one_instance r names ty (Some qual) name ov)
      | OT_Module i \<Rightarrow>
          (case identity_lookup (rg_by_identity r) i of
             Some m \<Rightarrow> Inr [m]
           | None \<Rightarrow> Inl (OverrideUnmatched (name_key BK_Single (ov_key ov)) None (ov_location ov))))"

definition override_matches :: "registry \<Rightarrow> nat list \<Rightarrow> key \<Rightarrow> (nat \<times> nat) list" where
  "override_matches r modules k =
     concat (map (\<lambda>m. map (\<lambda>(position, _). (m, position))
       (filter (\<lambda>(_, rec). binds_single k rec) (List.enumerate 0 (nd_bindings (rg_nodes r ! m))))) modules)"

definition keyed_binder :: "registry \<Rightarrow> mod_name list \<Rightarrow> nat list \<Rightarrow> key \<Rightarrow> mod_name option" where
  "keyed_binder r names modules k =
     (if is_unqualified k then None
      else map_option ((!) names)
        (find (\<lambda>m. let node = rg_nodes r ! m in
             nd_keyed node = Some (tn_id (k_qualifier k)) \<and> list_ex (binds_single (unqualified k)) (nd_bindings node)) modules))"

definition replace_recipe :: "nat \<Rightarrow> override_rec \<Rightarrow> module_node \<Rightarrow> module_node" where
  "replace_recipe position ov node =
     (case get_nth (nd_bindings node) position of
        None \<Rightarrow> node
      | Some rec \<Rightarrow>
          if record_key rec = ov_key ov then
            node\<lparr>nd_bindings := (nd_bindings node)[position :=
              rec\<lparr>br_recipe := ov_recipe ov, br_dependencies := ov_dependencies ov\<rparr>]\<rparr>
          else
            (let rest = rec\<lparr>br_also := filter (\<lambda>a. with_qualifier (br_qualifier rec) (aa_key a) \<noteq> ov_key ov) (br_also rec)\<rparr>;
                 split = (binding_record_new (unqualified (ov_key ov)) (tn_full (k_ty (ov_key ov))) BK_Single (br_scope rec)
                   (ov_recipe ov) (ov_dependencies ov) (ov_location ov))\<lparr>br_qualifier := br_qualifier rec\<rparr>
             in node\<lparr>nd_bindings := (nd_bindings node)[position := rest] @ [split]\<rparr>))"

definition map_node :: "nat \<Rightarrow> (module_node \<Rightarrow> module_node) \<Rightarrow> registry \<Rightarrow> registry" where
  "map_node m f r = r\<lparr>rg_nodes := (rg_nodes r)[m := f (rg_nodes r ! m)]\<rparr>"

definition apply_override ::
  "mod_name list \<Rightarrow> override_rec \<Rightarrow> registry \<times> wiring_error list \<Rightarrow> registry \<times> wiring_error list" where
  "apply_override names ov = (\<lambda>(r, errors).
     if ov_key ov = key_of dyn_timer unit_type then (r, errors @ [TimerOverride (ov_location ov)])
     else if ov_key ov = key_of dyn_runtime unit_type then (r, errors @ [RuntimeOverride (ov_location ov)])
     else (case override_modules r names ov of
        Inl e \<Rightarrow> (r, errors @ [e])
      | Inr modules \<Rightarrow>
          (let matches = override_matches r modules (ov_key ov); name = name_key BK_Single (ov_key ov) in
           if matches = [] then
             (r, errors @
                [if list_ex (\<lambda>m. list_ex (contributes (ov_key ov)) (nd_bindings (rg_nodes r ! m))) modules
                 then OverrideKind name BK_Collection BK_Single (ov_location ov)
                 else OverrideUnmatched name (keyed_binder r names modules (ov_key ov)) (ov_location ov)])
           else if 1 < length matches \<and> ov_target ov = OT_Unscoped then
             (r, errors @ [OverrideAmbiguous name (remdups_adj (map (\<lambda>(m, _). names ! m) matches)) (ov_location ov)])
           else (fold (\<lambda>(m, position). map_node m (replace_recipe position ov)) matches r, errors))))"

definition apply_overrides ::
  "mod_name list \<Rightarrow> override_rec list \<Rightarrow> registry \<times> wiring_error list \<Rightarrow> registry \<times> wiring_error list" where
  "apply_overrides names ovs st = fold (apply_override names) ovs st"

text \<open>\<open>removed_before bs k ! p\<close> is how many of the records before position \<open>p\<close> go.\<close>

definition removed_before :: "binding_record list \<Rightarrow> key \<Rightarrow> nat list" where
  "removed_before bs k = map (\<lambda>p. length (filter (contributes k) (take p bs))) [0..<length bs]"

definition shifted :: "nat list \<Rightarrow> nat \<Rightarrow> nat" where
  "shifted before p = (case get_nth before p of Some shift \<Rightarrow> p - shift | None \<Rightarrow> p)"

definition remove_contributions :: "key \<Rightarrow> module_node \<Rightarrow> module_node \<times> nat" where
  "remove_contributions k node =
     (let bs = nd_bindings node; before = removed_before bs k
      in (node\<lparr>nd_bindings := filter (\<lambda>r. \<not> contributes k r) bs,
               nd_controllers := map (\<lambda>c. c\<lparr>cr_binding := shifted before (cr_binding c)\<rparr>) (nd_controllers node),
               nd_enhancers := map (shifted before)
                 (filter (\<lambda>p. case get_nth bs p of Some r \<Rightarrow> \<not> contributes k r | None \<Rightarrow> True) (nd_enhancers node))\<rparr>,
          length (filter (contributes k) bs)))"

definition collection_item :: "collection_override \<Rightarrow> instance_ref \<Rightarrow> binding_record" where
  "collection_item co item =
     (binding_record_new (unqualified (cv_key co)) (tn_full (k_ty (cv_key co))) BK_Collection SK_Singleton (RecipeValue item)
        no_deps (cv_location co))\<lparr>br_qualifier := tn_id (k_qualifier (cv_key co))\<rparr>"

definition apply_collection ::
  "collection_override \<Rightarrow> registry \<times> wiring_error list \<Rightarrow> registry \<times> wiring_error list" where
  "apply_collection co = (\<lambda>(r, errors).
     (let cut = map (remove_contributions (cv_key co)) (rg_nodes r); r = r\<lparr>rg_nodes := map fst cut\<rparr>;
          name = name_key BK_Collection (cv_key co) in
      if sum_list (map snd cut) = 0 then
        (r, errors @
           [if list_ex (\<lambda>node. list_ex (binds_single (cv_key co)) (nd_bindings node)) (rg_nodes r)
            then OverrideKind name BK_Single BK_Collection (cv_location co)
            else OverrideUnmatched name None (cv_location co)])
      else
        (case rg_nodes r of
           [] \<Rightarrow> (r, errors)
         | root # rest \<Rightarrow>
             (r\<lparr>rg_nodes := root\<lparr>nd_bindings := nd_bindings root @ map (collection_item co) (cv_items co)\<rparr> # rest\<rparr>, errors))))"

definition apply_collections ::
  "collection_override list \<Rightarrow> registry \<times> wiring_error list \<Rightarrow> registry \<times> wiring_error list" where
  "apply_collections cos st = fold apply_collection cos st"

section \<open>Reports before the freeze\<close>

definition repeat_error :: "mod_name \<Rightarrow> repeat \<Rightarrow> wiring_error" where
  "repeat_error m rp = DuplicateSetting (rp_name rp) m (rp_first rp) (rp_second rp)"

definition register_secrets :: "registry \<Rightarrow> string list \<Rightarrow> string list" where
  "register_secrets r secrets =
     fold (\<lambda>text secrets. if text \<noteq> [] then register_secret text secrets else secrets) (concat (map nd_secrets (rg_nodes r))) secrets"

definition replaced_error :: "registry \<Rightarrow> mod_name list \<Rightarrow> replaced \<Rightarrow> wiring_error list" where
  "replaced_error r names rp =
     (case get_nth (rg_nodes r) (rp_replacement rp) of
        None \<Rightarrow> []
      | Some node \<Rightarrow>
          (let offered = map (\<lambda>e. boundary_key (nd_keyed node) (ex_key e)) (nd_exports node);
               missing = map (name_key BK_Single) (filter (\<lambda>k. k \<notin> set offered) (rp_exports rp))
           in if missing \<noteq> []
              then [ReplacementMissingExports (module_name_of (rp_original rp) 0) (names ! rp_replacement rp) missing] else []))"

fun replacement_errors :: "registry \<Rightarrow> replacement list \<Rightarrow> replacement list \<Rightarrow> wiring_error list" where
  "replacement_errors r earlier [] = []"
| "replacement_errors r earlier (rm # rest) =
     (case find (\<lambda>e. identity_eq (rm_original e) (rm_original rm)) earlier of
        Some first \<Rightarrow> [DuplicateReplacement (module_name_of (rm_original rm) 0) (rm_location first) (rm_location rm)]
      | None \<Rightarrow>
          if list_ex (\<lambda>rp. identity_eq (rp_original rp) (rm_original rm)) (rg_replaced r) then []
          else [ReplacementUnmatched (module_name_of (rm_original rm) 0) (rm_location rm)]) @
     replacement_errors r (earlier @ [rm]) rest"

text \<open>Each failure with the node and the position of its \<open>Failed\<close> record.\<close>

definition paired_failures :: "registry \<Rightarrow> (nat \<times> nat \<times> value_failure) list" where
  "paired_failures r =
     concat (map (\<lambda>(index, node).
         map (\<lambda>(position, failure). (index, position, failure))
           (zip (map fst (filter (\<lambda>(_, rec). br_recipe rec = RecipeFailed) (List.enumerate 0 (nd_bindings node)))) (nd_failures node)))
       (List.enumerate 0 (rg_nodes r)))"

definition failure_error ::
  "registry \<Rightarrow> mod_name list \<Rightarrow> string list \<Rightarrow> key list \<Rightarrow> nat \<times> nat \<times> value_failure \<Rightarrow> wiring_error list" where
  "failure_error r names secrets replaced_collections = (\<lambda>(index, position, failure).
     case get_nth (nd_bindings (rg_nodes r ! index)) position of
       None \<Rightarrow> []
     | Some rec \<Rightarrow>
         if br_recipe rec \<noteq> RecipeFailed then []
         else if br_kind rec = BK_Collection \<and> record_key rec \<in> set replaced_collections then []
         else [ValueFailed (names ! index) (name_key (br_kind rec) (record_key rec)) (redact secrets (vf_error failure))
                 (vf_location failure)])"

section \<open>Freezing\<close>

record freezing =
  fz_graph :: graph
  fz_declared :: declared
  fz_contributions :: "(key \<times> nat list) list"
  fz_seen :: "type_name set"
  fz_nodes :: "module_node option list"
  fz_steps :: steps

definition contribute :: "key \<Rightarrow> nat \<Rightarrow> (key \<times> nat list) list \<Rightarrow> (key \<times> nat list) list" where
  "contribute k b t = AList.update k ((case map_of t k of Some ids \<Rightarrow> ids | None \<Rightarrow> []) @ [b]) t"

definition freeze_role :: "binding_record \<Rightarrow> nat list \<Rightarrow> nat \<Rightarrow> role" where
  "freeze_role rec enhancers slot =
     (if br_controller rec then RoleController else if slot \<in> set enhancers then RoleEnhancer else RoleProvider)"

definition freeze_binding ::
  "nat \<Rightarrow> nat list \<Rightarrow> nat \<times> binding_record \<Rightarrow> freezing \<times> nat list \<Rightarrow> freezing \<times> nat list" where
  "freeze_binding m enhancers = (\<lambda>(slot, rec) (s, ids).
     (let g = fz_graph s; b = binding_count g;
          frozen = \<lparr>fb_id = b, fb_origin = m, fb_record = rec, fb_role = freeze_role rec enhancers slot,
                    fb_effective = EffSingleton, fb_needs_execution = False, fb_edges = []\<rparr>
      in (s\<lparr>fz_graph := g\<lparr>g_bindings := g_bindings g @ [frozen]\<rparr>,
            fz_contributions := (if br_kind rec = BK_Collection then contribute (record_key rec) b (fz_contributions s)
                                 else fz_contributions s)\<rparr>, ids @ [b])))"

definition entry_decl :: "input_decl \<Rightarrow> (key \<times> input_decl) list \<Rightarrow> (key \<times> input_decl) list" where
  "entry_decl decl t = (if map_of t (id_key decl) = None then t @ [(id_key decl, decl)] else t)"

fun is_module_origin :: "input_origin \<Rightarrow> bool" where
  "is_module_origin (OriginModule _ _ _) = True"
| "is_module_origin _ = False"

definition widen_seeders :: "input_decl \<Rightarrow> (key \<times> input_decl) list \<Rightarrow> (key \<times> input_decl) list" where
  "widen_seeders decl t =
     (case map_of t (id_key decl) of
        Some entry \<Rightarrow>
          if list_all (\<lambda>s. s \<in> set (id_seeders decl)) (id_seeders entry) \<and> is_module_origin (id_origin entry)
          then AList.update (id_key decl) (entry\<lparr>id_seeders := id_seeders decl\<rparr>) t else t
      | None \<Rightarrow> t)"

definition transport_declaration :: "type_name \<Rightarrow> input_key \<Rightarrow> input_decl" where
  "transport_declaration transport input =
     \<lparr>id_key = ik_key input, id_seeders = transport # filter (\<lambda>s. s \<noteq> transport) (ik_also input),
      id_origin = OriginTransport transport (ik_location input)\<rparr>"

definition declare_transport_inputs :: "handler_decl \<Rightarrow> freezing \<Rightarrow> freezing" where
  "declare_transport_inputs decl s =
     (if hd_transport decl \<in> fz_seen s then s
      else (let decls = map (transport_declaration (hd_transport decl)) (hd_inputs decl); g = fz_graph s; d = fz_declared s
            in s\<lparr>fz_seen := insert (hd_transport decl) (fz_seen s),
                 fz_graph := g\<lparr>g_inputs := fold (\<lambda>d t. widen_seeders d (entry_decl d t)) decls (g_inputs g)\<rparr>,
                 fz_declared := d\<lparr>dc_transport_inputs := dc_transport_inputs d @ decls\<rparr>\<rparr>))"

definition unread_prefix :: "key_name \<Rightarrow> mod_name \<Rightarrow> controller_record \<Rightarrow> wiring_error list" where
  "unread_prefix controller_key m c =
     (case cr_prefix c of
        Some (prefix, at) \<Rightarrow>
          if list_ex hd_reads_prefix (cr_mount c) then []
          else [UnreadPrefix controller_key m prefix
                  (fold (\<lambda>decl ts. if hd_transport decl \<in> set ts then ts else ts @ [hd_transport decl]) (cr_mount c) []) at]
      | None \<Rightarrow> [])"

definition freeze_controller :: "nat \<Rightarrow> mod_name \<Rightarrow> nat list \<Rightarrow> controller_record \<Rightarrow> freezing \<Rightarrow> freezing" where
  "freeze_controller m name ids c s =
     (case get_nth ids (cr_binding c) of
        None \<Rightarrow> s
      | Some b \<Rightarrow>
          (let controller_key = graph_key_name (fz_graph s) b;
               s = fold declare_transport_inputs (cr_mount c) s; g = fz_graph s;
               mounted = map (\<lambda>decl. \<lparr>hr_controller = b, hr_module = m, hr_decl = decl, hr_prefix = map_option fst (cr_prefix c)\<rparr>)
                 (cr_mount c)
           in s\<lparr>fz_graph := g\<lparr>g_handlers := g_handlers g @ mounted\<rparr>,
                fz_steps := push_bindings (unread_prefix controller_key name c) (fz_steps s)\<rparr>))"

definition freeze_input :: "nat \<Rightarrow> mod_name \<Rightarrow> input_record \<Rightarrow> freezing \<Rightarrow> freezing" where
  "freeze_input m name input s =
     (let g = fz_graph s; d = fz_declared s;
          decl = \<lparr>id_key = ir_key input, id_seeders = [ir_seeder input],
                  id_origin = OriginModule name [ir_seeder input] (ir_location input)\<rparr>
      in s\<lparr>fz_graph := g\<lparr>g_inputs := entry_decl decl (g_inputs g)\<rparr>,
           fz_declared := d\<lparr>dc_inputs := dc_inputs d @ [(m, input)]\<rparr>\<rparr>)"

definition frozen_import :: "nat list \<Rightarrow> import_ref \<Rightarrow> nat" where
  "frozen_import ids i = (case i of ImportNew node \<Rightarrow> ids ! node | ImportExisting m \<Rightarrow> m)"

definition frozen_site :: "nat list \<Rightarrow> site \<Rightarrow> site" where
  "frozen_site ids s =
     (case s of SiteImport (ImportNew node) at \<Rightarrow> SiteImport (ImportExisting (ids ! node)) at | other \<Rightarrow> other)"

definition meta_entries :: "module_node \<Rightarrow> meta_entry list" where
  "meta_entries node = sort_key (\<lambda>e. type_text (me_type e)) (nd_meta node)"

definition module_reports :: "mod_name \<Rightarrow> module_node \<Rightarrow> wiring_error list" where
  "module_reports name node =
     map (repeat_error name) (ms_repeats (nd_settings node)) @
     (case nd_nested_keyed node of
        Some (outer, inner) \<Rightarrow> [NestedKeyed name \<lparr>tn_id = outer\<rparr> \<lparr>tn_id = inner\<rparr>]
      | None \<Rightarrow> [])"

definition declare_node :: "nat \<Rightarrow> module_node \<Rightarrow> declared \<Rightarrow> declared" where
  "declare_node m node d =
     d\<lparr>dc_meta := dc_meta d @ map (\<lambda>e. (m, type_text (me_type e), me_dependencies e)) (meta_entries node),
       dc_exports := dc_exports d @ map (\<lambda>e. (m, e)) (nd_exports node)\<rparr>"

definition frozen_node :: "nat \<Rightarrow> mod_name \<Rightarrow> nat list \<Rightarrow> import_ref list \<Rightarrow> nat list \<Rightarrow> nat option \<Rightarrow> module_node \<Rightarrow> frozen_module" where
  "frozen_node m name ids imports bound load node =
     \<lparr>fm_id = m, fm_identity = nd_identity node, fm_name = name, fm_global = nd_global node, fm_keyed = nd_keyed node,
      fm_imports = map (frozen_import ids) imports, fm_bindings = bound, fm_hooks = nd_hooks node,
      fm_meta = map (\<lambda>e. (me_type e, me_value e)) (meta_entries node), fm_loaded = load,
      fm_settings = nd_settings node, fm_site = frozen_site ids (nd_site node)\<rparr>"

definition push_frozen :: "frozen_module \<Rightarrow> graph \<Rightarrow> graph" where
  "push_frozen f g =
     g\<lparr>g_by_identity := identity_insert (fm_identity f) (fm_id f) (g_by_identity g), g_modules := g_modules g @ [f]\<rparr>"

definition freeze_node :: "mod_name list \<Rightarrow> nat list \<Rightarrow> registry \<Rightarrow> nat option \<Rightarrow> nat \<Rightarrow> nat \<times> nat \<Rightarrow> freezing \<Rightarrow> freezing" where
  "freeze_node names ids r load first = (\<lambda>(position, index) s.
     case fz_nodes s ! index of
       None \<Rightarrow> s
     | Some node \<Rightarrow>
         (let m = first + position; name = names ! index;
              s = s\<lparr>fz_nodes := (fz_nodes s)[index := None], fz_steps := push_modules (module_reports name node) (fz_steps s)\<rparr>;
              (s, bound) = fold (freeze_binding m (nd_enhancers node)) (List.enumerate 0 (nd_bindings node)) (s, []);
              s = fold (freeze_controller m name bound) (nd_controllers node) s;
              s = fold (freeze_input m name) (nd_inputs node) s
          in s\<lparr>fz_declared := declare_node m node (fz_declared s),
               fz_graph := push_frozen (frozen_node m name ids (rg_imports r ! index) bound load node) (fz_graph s)\<rparr>))"

definition module_ids :: "registry \<Rightarrow> nat \<Rightarrow> nat list" where
  "module_ids r first =
     fold (\<lambda>(position, node) ids. ids[node := first + position]) (List.enumerate 0 (rg_post_order r))
       (replicate (length (rg_nodes r)) first)"

definition merge_collection :: "key \<times> nat list \<Rightarrow> (key \<times> nat list) list \<Rightarrow> (key \<times> nat list) list" where
  "merge_collection = (\<lambda>(k, ids) t. AList.update k ((case map_of t k of Some old \<Rightarrow> old | None \<Rightarrow> []) @ ids) t)"

definition declared_new :: "graph \<Rightarrow> nat list \<Rightarrow> declared" where
  "declared_new g ids =
     \<lparr>dc_root = (case ids of root # _ \<Rightarrow> root | [] \<Rightarrow> length (g_modules g)), dc_first_module = length (g_modules g),
      dc_first_binding = binding_count g, dc_first_handler = length (g_handlers g), dc_exports = [], dc_inputs = [],
      dc_transport_inputs = [], dc_meta = []\<rparr>"

text \<open>The loop over the modules in collection order, the registry already overridden.\<close>

definition freeze_nodes :: "mod_name list \<Rightarrow> registry \<Rightarrow> nat option \<Rightarrow> graph \<Rightarrow> steps \<Rightarrow> freezing" where
  "freeze_nodes names r load g steps =
     (let first = length (g_modules g); ids = module_ids r first
      in fold (freeze_node names ids r load first) (List.enumerate 0 (rg_post_order r))
           \<lparr>fz_graph = g, fz_declared = declared_new g ids, fz_contributions = [],
            fz_seen = (\<lambda>h. hd_transport (hr_decl h)) ` set (g_handlers g), fz_nodes = map Some (rg_nodes r), fz_steps = steps\<rparr>)"

definition registration_reports :: "registry \<Rightarrow> mod_name list \<Rightarrow> test_plan option \<Rightarrow> graph \<Rightarrow> steps \<Rightarrow> steps" where
  "registration_reports r names plan g steps =
     (let replacements = (case plan of Some p \<Rightarrow> tp_replacements p | None \<Rightarrow> [])
      in push_bindings (concat (map (replaced_error r names) (rg_replaced r)) @ replacement_errors r [] replacements)
           (push_modules (map (differing_error names g) (rg_differing r) @
                map (\<lambda>(m, rp). repeat_error (site_name names g m) rp) (rg_repeats r))
             (steps\<lparr>sp_modules := self_imports r names (sp_modules steps)\<rparr>)))"

definition apply_plan :: "registry \<Rightarrow> mod_name list \<Rightarrow> test_plan option \<Rightarrow> graph \<Rightarrow> steps \<Rightarrow> registry \<times> steps" where
  "apply_plan r names plan g steps =
     (let failures = paired_failures r;
          (overrides, collections) = (case plan of Some p \<Rightarrow> (tp_overrides p, tp_collections p) | None \<Rightarrow> ([], []));
          (r, errors) = apply_overrides names overrides (r, sp_bindings steps);
          errors = errors @ concat (map (failure_error r names (g_secrets g) (map cv_key collections)) failures);
          (r, errors) = apply_collections collections (r, errors)
      in (r, steps\<lparr>sp_bindings := errors\<rparr>))"

definition freeze :: "graph \<Rightarrow> registry \<Rightarrow> nat option \<Rightarrow> test_plan option \<Rightarrow> steps \<Rightarrow> graph \<times> declared \<times> steps" where
  "freeze g r load plan steps =
     (let names = registry_names r (Some g);
          g = g\<lparr>g_secrets := register_secrets r (g_secrets g)\<rparr>;
          steps = registration_reports r names plan g steps;
          (r, steps) = apply_plan r names plan g steps;
          s = freeze_nodes names r load g steps;
          g = (fz_graph s)\<lparr>g_collections := fold merge_collection (fz_contributions s) (g_collections (fz_graph s))\<rparr>;
          (g, errors) = mark_role_contributions g (dc_first_binding (fz_declared s)) (sp_bindings (fz_steps s))
      in (g, fz_declared s, (fz_steps s)\<lparr>sp_bindings := errors\<rparr>))"

section \<open>Step 1: modules\<close>

definition export_error :: "graph \<Rightarrow> nat \<times> export_record \<Rightarrow> wiring_error list" where
  "export_error g = (\<lambda>(m, e).
     (let k = name_key BK_Single (ex_key e); seen = lookup g m (ex_key e) in
      if ex_reexport e then
        (case seen of
           Some (VisBinding _) \<Rightarrow> []
         | Some (VisAmbiguous list) \<Rightarrow>
             [ReexportAmbiguous (graph_module_name g m) k (map (\<lambda>(source, _). graph_module_name g source) list) (ex_location e)]
         | Some (VisInput _) \<Rightarrow> [ReexportNotVisible (graph_module_name g m) k (ex_location e)]
         | None \<Rightarrow> [ReexportNotVisible (graph_module_name g m) k (ex_location e)])
      else if own_binding g m (ex_key e) = None then
        [ExportNotBound (graph_module_name g m) k
           (case seen of Some (VisBinding _) \<Rightarrow> True | Some (VisAmbiguous _) \<Rightarrow> True | _ \<Rightarrow> False)
           (map_option (name_key BK_Single) (own_near_spelling g m (ex_key e))) (ex_location e)]
      else []))"

definition keyed_input_error :: "graph \<Rightarrow> nat \<times> input_record \<Rightarrow> wiring_error list" where
  "keyed_input_error g = (\<lambda>(m, input).
     if fm_keyed (gmodule g m) \<noteq> None
     then [KeyedInput (graph_module_name g m) (name_key BK_Single (ir_key input)) (ir_location input)] else [])"

definition check_modules :: "graph \<Rightarrow> declared \<Rightarrow> wiring_error list \<Rightarrow> wiring_error list" where
  "check_modules g d errors =
     errors @ concat (map (export_error g) (dc_exports d)) @ concat (map (keyed_input_error g) (dc_inputs d))"

section \<open>Step 2: bindings\<close>

record doubles =
  db_first :: "(key \<times> nat) list"
  db_pairs :: "(nat \<times> nat) set"
  db_errors :: "wiring_error list"

definition double_key :: "graph \<Rightarrow> mod_name \<Rightarrow> nat \<Rightarrow> key \<Rightarrow> doubles \<Rightarrow> doubles" where
  "double_key g name b k s =
     (case map_of (db_first s) k of
        Some earlier \<Rightarrow>
          if earlier \<noteq> b \<and> (earlier, b) \<notin> db_pairs s then
            s\<lparr>db_pairs := insert (earlier, b) (db_pairs s),
              db_errors := db_errors s @ [DuplicateBinding (name_key BK_Single k) name
                (br_location (fb_record (binding g earlier))) (br_location (fb_record (binding g b)))]\<rparr>
          else s
      | None \<Rightarrow> s\<lparr>db_first := (k, b) # db_first s\<rparr>)"

definition double_binding :: "graph \<Rightarrow> mod_name \<Rightarrow> nat \<Rightarrow> doubles \<Rightarrow> doubles" where
  "double_binding g name b s =
     (let rec = fb_record (binding g b)
      in if br_kind rec \<noteq> BK_Single then s else fold (double_key g name b) (record_keys rec) s)"

definition double_errors :: "graph \<Rightarrow> frozen_module \<Rightarrow> wiring_error list" where
  "double_errors g m =
     db_errors (fold (double_binding g (fm_name m)) (fm_bindings m) \<lparr>db_first = [], db_pairs = {}, db_errors = []\<rparr>)"

definition mix_key ::
  "graph \<Rightarrow> nat \<Rightarrow> rust_type list \<Rightarrow> frozen_binding \<Rightarrow> key \<Rightarrow> key set \<times> wiring_error list \<Rightarrow> key set \<times> wiring_error list" where
  "mix_key g first roles b k = (\<lambda>(mixed, errors).
     if key_type k \<in> set roles then (mixed, errors)
     else (case map_of (g_collections g) k of
        None \<Rightarrow> (mixed, errors)
      | Some contributions \<Rightarrow>
          if (first \<le> fb_id b \<or> list_ex (\<lambda>c. first \<le> c) contributions) \<and> k \<notin> mixed
          then (insert k mixed, errors @ (case contributions of
                  c # _ \<Rightarrow> [KindMix (name_key BK_Single k) (graph_module_name g (fb_origin b)) (br_location (fb_record b))
                             (br_location (fb_record (binding g c)))]
                | [] \<Rightarrow> []))
          else (mixed, errors)))"

definition mix_errors :: "graph \<Rightarrow> nat \<Rightarrow> wiring_error list" where
  "mix_errors g first =
     snd (fold (\<lambda>b st. if br_kind (fb_record b) \<noteq> BK_Single then st
             else fold (mix_key g first (role_types g (g_bindings g)) b) (record_keys (fb_record b)) st)
           (g_bindings g) ({}, []))"

definition alias_error :: "graph \<Rightarrow> frozen_binding \<Rightarrow> wiring_error list" where
  "alias_error g b =
     (case br_recipe (fb_record b) of
        RecipeAlias target \<Rightarrow>
          (let dangling = DanglingAlias (graph_key_name g (fb_id b)) (name_key BK_Single target) (graph_module_name g (fb_origin b))
                 (br_location (fb_record b)) in
           case lookup g (fb_origin b) target of
             Some (VisBinding _) \<Rightarrow> []
           | Some (VisAmbiguous list) \<Rightarrow>
               [Ambiguous (name_key BK_Single target) (''the alias `'' @ key_name_text (graph_key_name g (fb_id b)) @ ''`'')
                  (graph_module_name g (fb_origin b)) (ambiguous_sources g list)]
           | Some (VisInput _) \<Rightarrow> [dangling]
           | None \<Rightarrow> [dangling])
      | _ \<Rightarrow> [])"

definition readiness_error :: "graph \<Rightarrow> frozen_binding \<Rightarrow> wiring_error list" where
  "readiness_error g b =
     (let rec = fb_record b in
      case br_replaced_ready rec of
        [] \<Rightarrow> []
      | first # rest \<Rightarrow>
          (case (case rest of second # _ \<Rightarrow> Some second | [] \<Rightarrow> map_option rr_location (br_ready rec)) of
             Some second \<Rightarrow> [DuplicateReadiness (graph_key_name g (fb_id b)) (graph_module_name g (fb_origin b)) first second]
           | None \<Rightarrow> []))"

definition record_error :: "graph \<Rightarrow> frozen_binding \<Rightarrow> wiring_error list" where
  "record_error g b =
     (case br_controller_type (fb_record b) of
        Some controller \<Rightarrow>
          if \<not> br_controller (fb_record b)
          then [ControllerProvided (graph_key_name g (fb_id b)) controller (graph_module_name g (fb_origin b)) (br_location (fb_record b))]
          else []
      | None \<Rightarrow> []) @ alias_error g b @ readiness_error g b"

definition bound_under :: "graph \<Rightarrow> key \<Rightarrow> frozen_binding list" where
  "bound_under g k = filter (\<lambda>b. binds_single k (fb_record b)) (g_bindings g)"

definition input_double ::
  "graph \<Rightarrow> nat \<times> input_record \<Rightarrow> (key \<times> location) list \<times> wiring_error list \<Rightarrow> (key \<times> location) list \<times> wiring_error list" where
  "input_double g = (\<lambda>(m, input) (first_input, errors).
     (let k = name_key BK_Single (ir_key input);
          bound = map (\<lambda>b. DuplicateBinding k (graph_module_name g (fb_origin b)) (ir_location input) (br_location (fb_record b)))
            (bound_under g (ir_key input))
      in case map_of first_input (ir_key input) of
           Some first \<Rightarrow> (first_input, errors @ [DuplicateBinding k (graph_module_name g m) first (ir_location input)] @ bound)
         | None \<Rightarrow> ((ir_key input, ir_location input) # first_input, errors @ bound)))"

fun transport_errors :: "graph \<Rightarrow> declared \<Rightarrow> input_decl list \<Rightarrow> input_decl list \<Rightarrow> wiring_error list" where
  "transport_errors g d earlier [] = []"
| "transport_errors g d earlier (input # rest) =
     (let k = name_key BK_Single (id_key input); conflict = InputConflict k in
      map (\<lambda>(m, other). conflict (id_origin input)
             (OriginModule (graph_module_name g m) [ir_seeder other] (ir_location other)))
        (filter (\<lambda>(_, other). ir_key other = id_key input \<and> ir_seeder other \<notin> set (id_seeders input)) (dc_inputs d)) @
      map (\<lambda>other. conflict (id_origin other) (id_origin input))
        (filter (\<lambda>other. id_key other = id_key input \<and> \<not> same_seeders other (id_seeders input)) earlier) @
      (if list_ex (\<lambda>(_, other). ir_key other = id_key input) (dc_inputs d) \<or> list_ex (\<lambda>other. id_key other = id_key input) earlier
       then []
       else map (\<lambda>b. conflict (id_origin input) (OriginBinding (graph_module_name g (fb_origin b)) (br_location (fb_record b))))
              (bound_under g (id_key input))) @
      transport_errors g d (earlier @ [input]) rest)"

definition check_bindings :: "graph \<Rightarrow> declared \<Rightarrow> wiring_error list \<Rightarrow> wiring_error list" where
  "check_bindings g d errors =
     errors @ concat (map (double_errors g) (drop (dc_first_module d) (g_modules g))) @
     mix_errors g (dc_first_binding d) @
     concat (map (record_error g) (drop (dc_first_binding d) (g_bindings g))) @
     snd (fold (input_double g) (dc_inputs d) ([], [])) @
     transport_errors g d [] (dc_transport_inputs d)"

section \<open>Step 6: the environment\<close>

definition written_bound :: "bound \<Rightarrow> bool \<Rightarrow> wiring_error \<Rightarrow> wiring_error \<Rightarrow> wiring_error list" where
  "written_bound b timed zero untimed =
     (case b of
        B_After after \<Rightarrow> if after = 0 then [zero] else if \<not> timed then [untimed] else []
      | B_Default \<Rightarrow> []
      | B_Unbounded \<Rightarrow> [])"

definition or_location :: "location option \<Rightarrow> location \<Rightarrow> location" where
  "or_location at otherwise = (case at of Some l \<Rightarrow> l | None \<Rightarrow> otherwise)"

definition bound_errors :: "graph \<Rightarrow> bool \<Rightarrow> frozen_binding \<Rightarrow> bound_item \<Rightarrow> bound \<Rightarrow> location \<Rightarrow> string \<Rightarrow> wiring_error list" where
  "bound_errors g timed b item bnd at text =
     written_bound bnd timed
       (ZeroBound item (Some (graph_key_name g (fb_id b))) (graph_module_name g (fb_origin b)) at) (BoundWithoutTimer text at)"

definition timed_record :: "graph \<Rightarrow> bool \<Rightarrow> frozen_binding \<Rightarrow> wiring_error list" where
  "timed_record g timed b =
     (let rec = fb_record b; name = graph_label g (fb_id b) in
      bound_errors g timed b BI_Construction (br_construct_bound rec) (or_location (br_construct_bound_at rec) (br_location rec))
        (''construction of `'' @ name @ ''`'') @
      (case br_ready rec of
         Some ready \<Rightarrow>
           (if \<not> timed \<and> rr_backoff ready \<noteq> 0
            then [BackoffWithoutTimer name (or_location (rr_backoff_location ready) (rr_location ready))] else []) @
           bound_errors g timed b BI_ReadinessWhole (rr_whole ready) (or_location (rr_whole_at ready) (rr_location ready))
             (''readiness `.timeout` of `'' @ name @ ''`'') @
           bound_errors g timed b BI_ReadinessAttempt (rr_attempt ready) (or_location (rr_attempt_at ready) (rr_location ready))
             (''readiness `.attempt_timeout` of `'' @ name @ ''`'')
       | None \<Rightarrow> []) @
      concat (map (\<lambda>h. bound_errors g timed b (BI_Hook (hk_kind h)) (hk_bound h) (or_location (hk_bound_at h) (hk_location h))
          (''`'' @ hook_text (hk_kind h) @ ''` hook of `'' @ name @ ''`'')) (br_hooks rec)))"

definition timed_module :: "bool \<Rightarrow> frozen_module \<Rightarrow> wiring_error list" where
  "timed_module timed m =
     concat (map (\<lambda>h. let at = or_location (hk_bound_at h) (hk_location h) in
         written_bound (hk_bound h) timed (ZeroBound (BI_Hook (hk_kind h)) None (fm_name m) at)
           (BoundWithoutTimer (''`'' @ hook_text (hk_kind h) @ ''` hook of module '' @ mn_text (fm_name m)) at)) (fm_hooks m))"

definition check_environment :: "graph \<Rightarrow> wire_env \<Rightarrow> declared \<Rightarrow> wiring_error list \<Rightarrow> wiring_error list" where
  "check_environment g env d errors =
     (let timed = we_timer env \<noteq> None in
      errors @
      (if \<not> timed \<and> dc_first_module d = 0 then map KnobWithoutTimer (we_knobs_set env) else []) @
      (if dc_first_module d = 0 then map (\<lambda>(knob, at). ZeroDefault knob at) (we_zero_defaults env) else []) @
      concat (map (timed_record g timed) (drop (dc_first_binding d) (g_bindings g))) @
      concat (map (timed_module timed) (drop (dc_first_module d) (g_modules g))))"

section \<open>Wiring\<close>

definition check :: "graph \<Rightarrow> declared \<Rightarrow> wire_env \<Rightarrow> steps \<Rightarrow> (graph \<times> steps) option" where
  "check g d env s =
     Option.bind (build_tables g d) (\<lambda>g.
     let s = s\<lparr>sp_modules := check_modules g d (sp_modules s), sp_bindings := check_bindings g d (sp_bindings s)\<rparr>;
         (g, dependencies) = resolve_dependencies g d (sp_dependencies s);
         dependencies = check_controller_reads g d dependencies
     in Option.bind (dependency_cycles g (sp_cycles s)) (\<lambda>cycles.
        Option.bind (needs_execution (assign_roles g)) (\<lambda>g.
        Option.bind (check_scopes g (sp_scopes s)) (\<lambda>scopes.
        Option.bind (closure_scopes g d scopes) (\<lambda>(g, scopes).
        Option.bind (check_closures g d scopes) (\<lambda>scopes.
        Option.bind (check_inputs g scopes) (\<lambda>scopes.
        Some (g, s\<lparr>sp_dependencies := dependencies, sp_cycles := cycles, sp_scopes := scopes,
                   sp_environment := check_environment g env d (sp_environment s)\<rparr>))))))))"

definition wire_registry :: "registry \<Rightarrow> wire_env \<Rightarrow> test_plan option \<Rightarrow> (wiring_error list + graph) option" where
  "wire_registry r env plan =
     (let r = (case we_timer env of Some timer \<Rightarrow> add_timer_module timer (we_runtime env) r | None \<Rightarrow> r);
          (g, d, s) = freeze graph_empty r None plan steps_default
      in Option.bind (check (g\<lparr>g_root := dc_root d\<rparr>) d env s) (\<lambda>(g, s).
           if into_errors s \<noteq> [] then Some (Inl (into_errors s))
           else map_option (\<lambda>order. Inr (g\<lparr>g_connect_order := order\<rparr>)) (connect_order g)))"

definition wire :: "nat \<Rightarrow> (nat \<Rightarrow> module_impl) \<Rightarrow> nat \<Rightarrow> wire_env \<Rightarrow> test_plan option \<Rightarrow> (wiring_error list + graph) option" where
  "wire fuel mods root env plan =
     Option.bind (register_all fuel mods root (case plan of Some p \<Rightarrow> tp_replacements p | None \<Rightarrow> []))
       (\<lambda>r. wire_registry r env plan)"

section \<open>Lazy loads\<close>

datatype load_refusal =
    RefusedControllers mod_name
  | RefusedMiddleware mod_name
  | RefusedContribution mod_name key_name
  | RefusedGlobalExport mod_name key_name
  | RefusedInput mod_name key_name

record lazy_wiring =
  lw_graph :: graph
  lw_module :: nat
  lw_singletons :: "nat list"

datatype (plugins only: code size) lazy_failure = LazyWiringErrors "wiring_error list" | LazyRefused load_refusal

definition reload_differs :: "graph \<Rightarrow> nat \<Rightarrow> module_impl \<Rightarrow> location \<Rightarrow> wiring_error list option" where
  "reload_differs base existing m at =
     (let frozen = gmodule base existing;
          differing = (case differing_of (ImportExisting existing) (fm_settings frozen, fm_site frozen) (mm_settings m, SiteLoad at) of
                         Some d \<Rightarrow> [differing_error [] base d] | None \<Rightarrow> []);
          repeats = later_repeats [] (ImportExisting existing) (fm_settings frozen) (mm_settings m);
          errors = differing @ map (\<lambda>(_, rp). repeat_error (fm_name frozen) rp) repeats
      in if errors \<noteq> [] then Some errors else None)"

fun reads_as_collection :: "key \<Rightarrow> read_kind \<Rightarrow> bool" where
  "reads_as_collection k (ReadCollection c) = (c = k)"
| "reads_as_collection k _ = False"

definition in_dependencies :: "key \<Rightarrow> dependencies \<Rightarrow> bool" where
  "in_dependencies k deps = list_ex (\<lambda>rd. reads_as_collection k (rd_kind rd)) (deps_reads deps)"

definition reads_collection :: "graph \<Rightarrow> key \<Rightarrow> bool" where
  "reads_collection base k =
     (list_ex (\<lambda>b. list_ex (\<lambda>e. ed_target e = TargetCollection k) (fb_edges b) \<or>
           (case br_ready (fb_record b) of Some ready \<Rightarrow> in_dependencies k (rr_dependencies ready) | None \<Rightarrow> False) \<or>
           list_ex (\<lambda>h. in_dependencies k (hk_dependencies h)) (br_hooks (fb_record b))) (g_bindings base) \<or>
      list_ex (\<lambda>m. list_ex (\<lambda>h. in_dependencies k (hk_dependencies h)) (fm_hooks m)) (g_modules base) \<or>
      list_ex (\<lambda>h. k \<in> set (hd_role_keys (hr_decl h)) \<or> in_dependencies k (hd_dependencies (hr_decl h)) \<or>
           list_ex (\<lambda>e. case e of ED_Closure c \<Rightarrow> in_dependencies k (cd_dependencies c) | ED_Type _ \<Rightarrow> False)
             (hd_enhancer_deps (hr_decl h))) (g_handlers base))"

definition node_refusal :: "graph \<Rightarrow> mod_name \<Rightarrow> module_node \<Rightarrow> load_refusal option" where
  "node_refusal base name node =
     (if nd_controllers node \<noteq> [] then Some (RefusedControllers name)
      else if nd_meta node \<noteq> [] then Some (RefusedMiddleware name)
      else case nd_inputs node of
        input # _ \<Rightarrow> Some (RefusedInput name (name_key BK_Single (ir_key input)))
      | [] \<Rightarrow>
          (if nd_global node \<and> nd_exports node \<noteq> []
           then Some (RefusedGlobalExport name (name_key BK_Single (boundary_key (nd_keyed node) (ex_key (hd (nd_exports node))))))
           else map_option (\<lambda>rec. RefusedContribution name (name_key BK_Collection (record_key rec)))
             (find (\<lambda>rec. br_kind rec = BK_Collection \<and>
                  (map_of (g_collections base) (record_key rec) \<noteq> None \<or> reads_collection base (record_key rec))) (nd_bindings node))))"

definition refusal :: "graph \<Rightarrow> registry \<Rightarrow> load_refusal option" where
  "refusal base r =
     (let names = registry_names r (Some base)
      in find_map (\<lambda>index. node_refusal base (names ! index) (rg_nodes r ! index)) (rg_post_order r))"

definition next_load :: "graph \<Rightarrow> nat" where
  "next_load base = (case List.map_filter fm_loaded (g_modules base) of [] \<Rightarrow> 0 | n # ns \<Rightarrow> fold max ns n + 1)"

definition wire_lazy ::
  "nat \<Rightarrow> (nat \<Rightarrow> module_impl) \<Rightarrow> graph \<Rightarrow> nat \<Rightarrow> wire_env \<Rightarrow> location \<Rightarrow> (lazy_failure + lazy_wiring) option" where
  "wire_lazy fuel mods base m env at =
     (case identity_lookup (g_by_identity base) (mm_identity (mods m)) of
        Some existing \<Rightarrow>
          Some (case reload_differs base existing (mods m) at of
             Some errors \<Rightarrow> Inl (LazyWiringErrors errors)
           | None \<Rightarrow> Inr \<lparr>lw_graph = base, lw_module = existing, lw_singletons = []\<rparr>)
      | None \<Rightarrow>
          Option.bind (register_lazy fuel mods base m at) (\<lambda>r.
          case refusal base r of
            Some refused \<Rightarrow> Some (Inl (LazyRefused refused))
          | None \<Rightarrow>
              (let (g, d, s) = freeze base r (Some (next_load base)) None steps_default
               in Option.bind (check g d env s) (\<lambda>(g, s).
                  if into_errors s \<noteq> [] then Some (Inl (LazyWiringErrors (into_errors s)))
                  else map_option (\<lambda>order. Inr \<lparr>lw_graph = g\<lparr>g_connect_order := order\<rparr>, lw_module = dc_root d,
                         lw_singletons = filter (\<lambda>b. dc_first_binding d \<le> b) order\<rparr>) (connect_order g)))))"

end
