(* ===== verification/Collection_Order.thy ===== *)
theory Collection_Order
  imports Registry_Walk
begin

text \<open>
  The modules' collection order: \<^const>\<open>collection_order\<close> always returns the list of the recursive depth-first walk, which
  places every module reachable from the root once and the root last, and a module after each module it imports,
  an import that leads back to the module excepted. The names of a registry number the modules of one type and
  qualifier in that order.
\<close>

section \<open>The collection order is a depth-first post-order\<close>

definition import_edges :: "registry \<Rightarrow> (nat \<times> nat) set" where
  "import_edges r = {(u, v). ImportNew v \<in> set (imports_of r u) \<and> v < length (rg_nodes r)}"

text \<open>
  What holds of the walk between two steps: the visited modules are those placed and those on the
  stack, the stack is a path of imports from the root, the imports before a frame's position have
  been visited, and every import of a placed module was placed before it or leads back to it.
\<close>

definition placed_ok :: "registry \<Rightarrow> nat list \<Rightarrow> bool" where
  "placed_ok r order \<longleftrightarrow>
     (\<forall>i < length order. \<forall>v. (order ! i, v) \<in> import_edges r \<longrightarrow>
        v \<in> set (take i order) \<or> (v, order ! i) \<in> (import_edges r)\<^sup>*)"

definition collect_inv :: "registry \<Rightarrow> collecting \<Rightarrow> bool" where
  "collect_inv r s \<longleftrightarrow>
     length (co_visited s) = length (rg_nodes r) \<and>
     (\<forall>v. v < length (rg_nodes r) \<longrightarrow> (co_visited s ! v \<longleftrightarrow> v \<in> set (co_order s) \<union> fst ` set (co_stack s))) \<and>
     set (co_order s) \<union> fst ` set (co_stack s) \<subseteq> {v. v < length (rg_nodes r) \<and> (0, v) \<in> (import_edges r)\<^sup>*} \<and>
     distinct (co_order s @ map fst (co_stack s)) \<and>
     sorted_wrt (\<lambda>f g. (fst g, fst f) \<in> (import_edges r)\<^sup>*) (co_stack s) \<and>
     (\<forall>(u, p) \<in> set (co_stack s). \<forall>k < p. k < length (imports_of r u) \<longrightarrow>
        (\<forall>v. imports_of r u ! k = ImportNew v \<longrightarrow> v < length (rg_nodes r) \<longrightarrow>
           v \<in> set (co_order s) \<union> fst ` set (co_stack s))) \<and>
     placed_ok r (co_order s) \<and>
     (\<forall>u \<in> set (co_order s). \<forall>v. (u, v) \<in> import_edges r \<longrightarrow> v \<in> set (co_order s) \<union> fst ` set (co_stack s)) \<and>
     (if co_stack s = [] then co_order s \<noteq> [] \<and> last (co_order s) = 0 else fst (last (co_stack s)) = 0)"

lemma placed_ok_snoc:
  "placed_ok r (order @ [u]) \<longleftrightarrow> placed_ok r order \<and>
     (\<forall>v. (u, v) \<in> import_edges r \<longrightarrow> v \<in> set order \<or> (v, u) \<in> (import_edges r)\<^sup>*)"
  unfolding placed_ok_def by (auto simp: less_Suc_eq nth_append all_conj_distrib)

lemma collect_invD:
  assumes "collect_inv r s"
  shows "length (co_visited s) = length (rg_nodes r)"
    and "\<And>v. v < length (rg_nodes r) \<Longrightarrow> co_visited s ! v \<longleftrightarrow> v \<in> set (co_order s) \<union> fst ` set (co_stack s)"
    and "\<And>v. v \<in> set (co_order s) \<union> fst ` set (co_stack s) \<Longrightarrow> v < length (rg_nodes r) \<and> (0, v) \<in> (import_edges r)\<^sup>*"
    and "distinct (co_order s @ map fst (co_stack s))"
    and "sorted_wrt (\<lambda>f g. (fst g, fst f) \<in> (import_edges r)\<^sup>*) (co_stack s)"
    and "\<And>u p k v. (u, p) \<in> set (co_stack s) \<Longrightarrow> k < p \<Longrightarrow> k < length (imports_of r u) \<Longrightarrow>
           imports_of r u ! k = ImportNew v \<Longrightarrow> v < length (rg_nodes r) \<Longrightarrow> v \<in> set (co_order s) \<union> fst ` set (co_stack s)"
    and "placed_ok r (co_order s)"
    and "\<And>u v. u \<in> set (co_order s) \<Longrightarrow> (u, v) \<in> import_edges r \<Longrightarrow> v \<in> set (co_order s) \<union> fst ` set (co_stack s)"
    and "if co_stack s = [] then co_order s \<noteq> [] \<and> last (co_order s) = 0 else fst (last (co_stack s)) = 0"
  using assms unfolding collect_inv_def by (blast+)

lemma collect_invI:
  assumes "length (co_visited s) = length (rg_nodes r)"
    and "\<And>v. v < length (rg_nodes r) \<Longrightarrow> co_visited s ! v \<longleftrightarrow> v \<in> set (co_order s) \<union> fst ` set (co_stack s)"
    and "\<And>v. v \<in> set (co_order s) \<union> fst ` set (co_stack s) \<Longrightarrow> v < length (rg_nodes r) \<and> (0, v) \<in> (import_edges r)\<^sup>*"
    and "distinct (co_order s @ map fst (co_stack s))"
    and "sorted_wrt (\<lambda>f g. (fst g, fst f) \<in> (import_edges r)\<^sup>*) (co_stack s)"
    and "\<And>u p k v. (u, p) \<in> set (co_stack s) \<Longrightarrow> k < p \<Longrightarrow> k < length (imports_of r u) \<Longrightarrow>
           imports_of r u ! k = ImportNew v \<Longrightarrow> v < length (rg_nodes r) \<Longrightarrow> v \<in> set (co_order s) \<union> fst ` set (co_stack s)"
    and "placed_ok r (co_order s)"
    and "\<And>u v. u \<in> set (co_order s) \<Longrightarrow> (u, v) \<in> import_edges r \<Longrightarrow> v \<in> set (co_order s) \<union> fst ` set (co_stack s)"
    and "if co_stack s = [] then co_order s \<noteq> [] \<and> last (co_order s) = 0 else fst (last (co_stack s)) = 0"
  shows "collect_inv r s"
  unfolding collect_inv_def using assms by (intro conjI) (blast+)

lemma collect_inv_place:
  assumes inv: "collect_inv r s" and st: "co_stack s = (node, nxt) # rest" and fin: "\<not> nxt < length (imports_of r node)"
  shows "collect_inv r (s\<lparr>co_order := co_order s @ [node], co_stack := rest\<rparr>)"
proof (rule collect_invI)
  note D = collect_invD [OF inv]
  have imps: "v \<in> set (co_order s) \<union> fst ` set (co_stack s)" if e: "(node, v) \<in> import_edges r" for v
  proof -
    from e obtain k where "k < length (imports_of r node)" "imports_of r node ! k = ImportNew v" "v < length (rg_nodes r)"
      by (auto simp: import_edges_def in_set_conv_nth)
    then show ?thesis using D(6) [of node nxt k v] st fin by auto
  qed
  show "placed_ok r (co_order (s\<lparr>co_order := co_order s @ [node], co_stack := rest\<rparr>))"
    unfolding select_convs update_convs
  proof (simp add: placed_ok_snoc D(7), intro allI impI)
    fix v assume e: "(node, v) \<in> import_edges r"
    have "(x, node) \<in> (import_edges r)\<^sup>*" if "x \<in> fst ` set rest" for x using that D(5) st by auto
    then show "v \<in> set (co_order s) \<or> (v, node) \<in> (import_edges r)\<^sup>*" using imps [OF e] st by auto
  qed
  show "v \<in> set (co_order (s\<lparr>co_order := co_order s @ [node], co_stack := rest\<rparr>)) \<union> fst ` set (co_stack (s\<lparr>co_order := co_order s @ [node], co_stack := rest\<rparr>))"
    if "u \<in> set (co_order (s\<lparr>co_order := co_order s @ [node], co_stack := rest\<rparr>))" "(u, v) \<in> import_edges r" for u v
    using that D(8) [of u v] imps [of v] st by auto
  show "\<And>u p k v. (u, p) \<in> set (co_stack (s\<lparr>co_order := co_order s @ [node], co_stack := rest\<rparr>)) \<Longrightarrow> k < p \<Longrightarrow>
     k < length (imports_of r u) \<Longrightarrow> imports_of r u ! k = ImportNew v \<Longrightarrow> v < length (rg_nodes r) \<Longrightarrow>
     v \<in> set (co_order (s\<lparr>co_order := co_order s @ [node], co_stack := rest\<rparr>)) \<union> fst ` set (co_stack (s\<lparr>co_order := co_order s @ [node], co_stack := rest\<rparr>))"
    using D(6) st by fastforce
qed (use collect_invD [OF inv] st in \<open>auto split: if_splits\<close>)

lemma collect_inv_next:
  assumes inv: "collect_inv r s" and st: "co_stack s = (node, nxt) # rest" and more: "nxt < length (imports_of r node)"
    and seen: "\<And>v. imports_of r node ! nxt = ImportNew v \<Longrightarrow> v < length (rg_nodes r) \<Longrightarrow> co_visited s ! v"
  shows "collect_inv r (s\<lparr>co_stack := (node, Suc nxt) # rest\<rparr>)"
proof -
  note D = collect_invD [OF inv]
  have same: "fst ` set ((node, Suc nxt) # rest) = fst ` set (co_stack s)" using st by auto
  show ?thesis
  proof (rule collect_invI, goal_cases)
    case (2 v) then show ?case using D(2) [of v] same by (simp add: st)
  next
    case (6 u p k v)
    consider "u = node" "p = Suc nxt" | "(u, p) \<in> set (co_stack s)" using 6(1) st by auto
    then show ?case
    proof cases
      case 1
      have "v \<in> set (co_order s) \<union> fst ` set (co_stack s)"
      proof (cases "k = nxt")
        case True then show ?thesis using seen [of v] D(2) [of v] 6 1 by simp
      next
        case False then show ?thesis using D(6) [of node nxt k v] 6 1 st by auto
      qed
      then show ?thesis using same by simp
    next
      case 2 then show ?thesis using D(6) [of u p k v] 6 same by simp
    qed
  next
    case (8 u v) then show ?case using D(8) [of u v] same by (simp add: st)
  qed (use D(1,3,4,5,7,9) st in \<open>auto split: if_splits\<close>)
qed

lemma collect_inv_enter:
  assumes inv: "collect_inv r s" and st: "co_stack s = (node, nxt) # rest"
    and e: "(node, child) \<in> import_edges r" and new: "\<not> co_visited s ! child"
  shows "collect_inv r (s\<lparr>co_visited := (co_visited s)[child := True], co_stack := (child, 0) # co_stack s\<rparr>)"
proof -
  note D = collect_invD [OF inv]
  have range: "child < length (rg_nodes r)" using e by (simp add: import_edges_def)
  have fresh: "child \<notin> set (co_order s) \<union> fst ` set (co_stack s)" using D(2) [OF range] new by simp
  have node: "(0, node) \<in> (import_edges r)\<^sup>*" using D(3) [of node] st by simp
  have below: "(fst g, child) \<in> (import_edges r)\<^sup>*" if "g \<in> set (co_stack s)" for g
  proof -
    have "(fst g, node) \<in> (import_edges r)\<^sup>*" using that D(5) st by auto
    then show ?thesis using e by (rule rtrancl_into_rtrancl)
  qed
  show ?thesis
  proof (rule collect_invI, goal_cases)
    case (2 v) then show ?case using D(1) D(2) [of v] range by (auto simp: nth_list_update)
  next
    case (3 v) then show ?case using D(3) [of v] range node e by (auto intro: rtrancl_into_rtrancl)
  next
    case 4 then show ?case using D(4) fresh by auto
  next
    case 5 then show ?case using D(5) below by auto
  next
    case (6 u p k v) then show ?case using D(6) [of u p k v] by auto
  next
    case (8 u v) then show ?case using D(8) [of u v] by auto
  qed (use D(1,7,9) st in \<open>auto\<close>)
qed

lemma collect_step_inv:
  assumes inv: "collect_inv r s" and st: "co_stack s \<noteq> []"
  shows "collect_inv r (collect_step r s)"
proof -
  obtain node nxt rest where top: "co_stack s = (node, nxt) # rest" using st by (metis neq_Nil_conv surj_pair)
  show ?thesis
  proof (cases "nxt < length (imports_of r node)")
    case False then show ?thesis using collect_inv_place [OF inv top] top by (simp add: collect_step_def)
  next
    case more: True
    show ?thesis
    proof (cases "\<exists>child. imports_of r node ! nxt = ImportNew child \<and> child < length (rg_nodes r) \<and> \<not> co_visited s ! child")
      case True
      then obtain child where c: "imports_of r node ! nxt = ImportNew child" "child < length (rg_nodes r)" "\<not> co_visited s ! child"
        by blast
      have e: "(node, child) \<in> import_edges r" using c more nth_mem [OF more] by (simp add: import_edges_def)
      let ?s = "s\<lparr>co_visited := (co_visited s)[child := True], co_stack := (child, 0) # co_stack s\<rparr>"
      let ?t = "s\<lparr>co_visited := (co_visited s)[child := True], co_stack := (child, 0) # (node, Suc nxt) # rest\<rparr>"
      have "collect_inv r ?s" using collect_inv_enter [OF inv top e c(3)] .
      note D = collect_invD [OF this]
      have "collect_inv r ?t"
      proof (rule collect_invI, goal_cases)
        case (2 v) then show ?case using D(2) [of v] top by simp
      next
        case (6 u p k v)
        then show ?case using D(6) [of u p k v] D(6) [of node nxt k v] c top by (auto simp: less_Suc_eq)
      next
        case (8 u v) then show ?case using D(8) [of u v] top by auto
      qed (use D(1,3,4,5,7,9) top in \<open>auto split: if_splits\<close>)
      then show ?thesis using c more top by (simp add: collect_step_def)
    next
      case False
      then have "collect_inv r (s\<lparr>co_stack := (node, Suc nxt) # rest\<rparr>)" using collect_inv_next [OF inv top more] by blast
      then show ?thesis using False more top by (auto simp: collect_step_def Let_def split: import_ref.splits)
    qed
  qed
qed

definition unvisited :: "collecting \<Rightarrow> nat" where
  "unvisited s = length (filter Not (co_visited s))"

definition unfollowed :: "registry \<Rightarrow> collecting \<Rightarrow> nat" where
  "unfollowed r s = (\<Sum>(u, p) \<leftarrow> co_stack s. Suc (length (imports_of r u) - p))"

lemma filter_Not_update:
  "i < length bs \<Longrightarrow> \<not> bs ! i \<Longrightarrow> length (filter Not (bs[i := True])) < length (filter Not bs)"
  by (induction bs arbitrary: i) (auto split: nat.splits)

lemma collect_step_dec:
  assumes inv: "collect_inv r s" and st: "co_stack s \<noteq> []"
  shows "unvisited (collect_step r s) < unvisited s \<or>
    unvisited (collect_step r s) = unvisited s \<and> unfollowed r (collect_step r s) < unfollowed r s"
proof -
  obtain node nxt rest where top: "co_stack s = (node, nxt) # rest" using st by (metis neq_Nil_conv surj_pair)
  show ?thesis using collect_invD(1) [OF inv] filter_Not_update [of _ "co_visited s"] top
    by (auto simp: collect_step_def unvisited_def unfollowed_def Let_def split: import_ref.splits)
qed

lemma collect_inv_init:
  assumes "rg_nodes r \<noteq> []"
  shows "collect_inv r \<lparr>co_order = [], co_visited = (replicate (length (rg_nodes r)) False)[0 := True], co_stack = [(0, 0)]\<rparr>"
  using assms by (auto simp: collect_inv_def placed_ok_def nth_list_update)

lemma collection_order_result:
  assumes "rg_nodes r \<noteq> []"
  obtains order where "collection_order r = Some order" "distinct order" "order \<noteq> []" "last order = 0"
    "set order = {v. v < length (rg_nodes r) \<and> (0, v) \<in> (import_edges r)\<^sup>*}" "placed_ok r order"
proof -
  obtain s where run: "while_option (\<lambda>s. co_stack s \<noteq> []) (collect_step r)
      \<lparr>co_order = [], co_visited = (replicate (length (rg_nodes r)) False)[0 := True], co_stack = [(0, 0)]\<rparr> = Some s"
    and inv: "collect_inv r s" and fin: "\<not> co_stack s \<noteq> []"
    by (rule while_option_measure2 [of "collect_inv r" _ "\<lambda>s. co_stack s \<noteq> []" "collect_step r" unvisited "unfollowed r",
          OF collect_inv_init [OF assms] collect_step_inv collect_step_dec])
  note D = collect_invD [OF inv]
  have ord: "co_order s \<noteq> []" "last (co_order s) = 0" using D(9) fin by auto
  have zero: "0 \<in> set (co_order s)" using ord last_in_set by metis
  have "v \<in> set (co_order s)" if "(0, v) \<in> (import_edges r)\<^sup>*" for v
    using that by (induction rule: rtrancl_induct) (use zero D(8) fin in auto)
  then have "set (co_order s) = {v. v < length (rg_nodes r) \<and> (0, v) \<in> (import_edges r)\<^sup>*}"
    using D(3) by blast
  then show thesis using that [of "co_order s"] run ord D(4,7) fin assms by (simp add: collection_order_def)
qed

section \<open>The recursive walk\<close>

text \<open>
  The depth-first walk as a recursion, the reference for the loop: \<open>dfs r V imports out\<close> follows the imports in the order
  written, with \<open>V\<close> visited before, and \<open>out\<close> lists the modules it enters, each after everything entered below it.
\<close>

inductive dfs :: "registry \<Rightarrow> nat set \<Rightarrow> import_ref list \<Rightarrow> nat list \<Rightarrow> bool" for r where
  dfs_end: "dfs r V [] []"
| dfs_earlier: "dfs r V is out \<Longrightarrow> dfs r V (ImportExisting m # is) out"
| dfs_skip: "\<not> child < length (rg_nodes r) \<or> child \<in> V \<Longrightarrow> dfs r V is out \<Longrightarrow> dfs r V (ImportNew child # is) out"
| dfs_enter: "child < length (rg_nodes r) \<Longrightarrow> child \<notin> V \<Longrightarrow> dfs r (insert child V) (imports_of r child) below \<Longrightarrow>
     dfs r (insert child V \<union> set below) is out \<Longrightarrow> dfs r V (ImportNew child # is) (below @ [child] @ out)"

inductive_cases dfs_NilE: "dfs r V [] out"
inductive_cases dfs_ExistingE: "dfs r V (ImportExisting m # is) out"
inductive_cases dfs_NewE: "dfs r V (ImportNew child # is) out"

text \<open>The walk has one result.\<close>

lemma dfs_deterministic: "dfs r V is out \<Longrightarrow> dfs r V is out' \<Longrightarrow> out' = out"
proof (induction arbitrary: out' rule: dfs.induct)
  case (dfs_end V)
  then show ?case by (rule dfs_NilE)
next
  case (dfs_earlier V "is" out m)
  from dfs_earlier.prems have "dfs r V is out'" by (rule dfs_ExistingE)
  then show ?case by (rule dfs_earlier.IH)
next
  case (dfs_skip child V "is" out)
  from dfs_skip.prems have "dfs r V is out'" by (rule dfs_NewE) (use dfs_skip.hyps(1) in blast)+
  then show ?case by (rule dfs_skip.IH)
next
  case (dfs_enter child V below "is" out)
  from dfs_enter.prems obtain below' rest where o: "out' = below' @ child # rest"
    "dfs r (insert child V) (imports_of r child) below'" "dfs r (insert child (V \<union> set below')) is rest"
    by (rule dfs_NewE) (use dfs_enter.hyps(1,2) in blast)+
  have "below' = below" by (rule dfs_enter.IH(1) [OF o(2)])
  then show ?case using dfs_enter.IH(2) o(1,3) by simp
qed

text \<open>What a stack of frames still has to list.\<close>

inductive walks :: "registry \<Rightarrow> nat set \<Rightarrow> (nat \<times> nat) list \<Rightarrow> nat list \<Rightarrow> bool" for r where
  walks_end: "walks r V [] []"
| walks_frame: "dfs r V (drop p (imports_of r u)) out \<Longrightarrow> walks r (V \<union> set out) rest later \<Longrightarrow>
     walks r V ((u, p) # rest) (out @ [u] @ later)"

inductive_cases walks_frameE: "walks r V ((u, p) # rest) out"

definition visited_set :: "collecting \<Rightarrow> nat set" where
  "visited_set s = {v. v < length (co_visited s) \<and> co_visited s ! v}"

lemma visited_set_update: "child < length (co_visited s) \<Longrightarrow>
    visited_set (s\<lparr>co_visited := (co_visited s)[child := True], co_stack := st\<rparr>) = insert child (visited_set s)"
  by (auto simp: visited_set_def nth_list_update)

lemma collect_step_walks:
  assumes inv: "collect_inv r s" and top: "co_stack s = (u, p) # rest"
    and walk: "walks r (visited_set (collect_step r s)) (co_stack (collect_step r s)) out"
    and order: "order = co_order (collect_step r s) @ out"
  shows "\<exists>out. walks r (visited_set s) (co_stack s) out \<and> order = co_order s @ out"
proof (cases "p < length (imports_of r u)")
  case False
  then have st: "collect_step r s = s\<lparr>co_order := co_order s @ [u], co_stack := rest\<rparr>" using top by (simp add: collect_step_def)
  have "walks r (visited_set s) ((u, p) # rest) ([] @ [u] @ out)"
    using walk False st by (intro walks_frame) (auto simp: visited_set_def intro: dfs_end)
  then show ?thesis using order st top by auto
next
  case more: True
  note here = Cons_nth_drop_Suc [OF more, symmetric]
  have len: "length (co_visited s) = length (rg_nodes r)" by (rule collect_invD(1) [OF inv])
  show ?thesis
  proof (cases "\<exists>child. imports_of r u ! p = ImportNew child \<and> child < length (rg_nodes r) \<and> \<not> co_visited s ! child")
    case True
    then obtain child where c: "imports_of r u ! p = ImportNew child" "child < length (rg_nodes r)" "\<not> co_visited s ! child" by blast
    have st: "collect_step r s = s\<lparr>co_visited := (co_visited s)[child := True], co_stack := (child, 0) # (u, Suc p) # rest\<rparr>"
      using c more top by (simp add: collect_step_def)
    have vis: "visited_set (collect_step r s) = insert child (visited_set s)" using visited_set_update c(2) len unfolding st by simp
    obtain below o1 o2 where o: "out = below @ [child] @ o1 @ [u] @ o2" "dfs r (insert child (visited_set s)) (imports_of r child) below"
      "dfs r (insert child (visited_set s) \<union> set below) (drop (Suc p) (imports_of r u)) o1"
      "walks r (insert child (visited_set s) \<union> set below \<union> set o1) rest o2"
      using walk unfolding vis unfolding st by (auto elim!: walks_frameE)
    have "dfs r (visited_set s) (drop p (imports_of r u)) (below @ [child] @ o1)"
      unfolding here c(1) by (rule dfs_enter) (use c o in \<open>auto simp: visited_set_def\<close>)
    moreover have "visited_set s \<union> set (below @ [child] @ o1) = insert child (visited_set s) \<union> set below \<union> set o1" by auto
    ultimately have "walks r (visited_set s) ((u, p) # rest) ((below @ [child] @ o1) @ [u] @ o2)" using o(4) by (intro walks_frame) auto
    then show ?thesis using order o(1) st top by auto
  next
    case False
    then have st: "collect_step r s = s\<lparr>co_stack := (u, Suc p) # rest\<rparr>"
      using more top by (auto simp: collect_step_def Let_def split: import_ref.splits)
    obtain o1 o2 where o: "out = o1 @ [u] @ o2" "dfs r (visited_set s) (drop (Suc p) (imports_of r u)) o1" "walks r (visited_set s \<union> set o1) rest o2"
      using walk unfolding st by (auto simp: visited_set_def elim!: walks_frameE)
    have "dfs r (visited_set s) (drop p (imports_of r u)) o1" unfolding here
      using False o(2) len by (cases "imports_of r u ! p") (auto simp: visited_set_def intro!: dfs_earlier dfs_skip)
    then have "walks r (visited_set s) ((u, p) # rest) (o1 @ [u] @ o2)" using o(3) by (rule walks_frame)
    then show ?thesis using order o(1) st top by auto
  qed
qed

lemma collect_loop_walks:
  assumes "collect_inv r s" "while_option (\<lambda>s. co_stack s \<noteq> []) (collect_step r) s = Some t"
  shows "\<exists>out. walks r (visited_set s) (co_stack s) out \<and> co_order t = co_order s @ out"
  using assms
proof (induction s rule: wf_induct [OF wf_measures [of "[unvisited, unfollowed r]"]])
  case (1 s)
  show ?case
  proof (cases "co_stack s")
    case Nil
    then show ?thesis using 1(3) by (subst (asm) while_option_unfold) (auto intro: walks_end)
  next
    case (Cons f rest)
    then obtain u p where top: "co_stack s = (u, p) # rest" by (cases f) auto
    have run: "while_option (\<lambda>s. co_stack s \<noteq> []) (collect_step r) (collect_step r s) = Some t"
      using 1(3) Cons by (subst (asm) while_option_unfold) simp
    have "(collect_step r s, s) \<in> measures [unvisited, unfollowed r]" using collect_step_dec [OF 1(2)] Cons by auto
    moreover have "collect_inv r (collect_step r s)" using collect_step_inv [OF 1(2)] Cons by simp
    ultimately obtain out where "walks r (visited_set (collect_step r s)) (co_stack (collect_step r s)) out" "co_order t = co_order (collect_step r s) @ out"
      using 1(1) run by blast
    then show ?thesis by (rule collect_step_walks [OF 1(2) top])
  qed
qed

lemma collection_order_dfs:
  assumes ne: "rg_nodes r \<noteq> []" and run: "collection_order r = Some order"
  shows "\<exists>below. order = below @ [0] \<and> dfs r {0} (imports_of r 0) below"
proof -
  let ?s = "\<lparr>co_order = [], co_visited = (replicate (length (rg_nodes r)) False)[0 := True], co_stack = [(0, 0)]\<rparr>"
  obtain t where t: "while_option (\<lambda>s. co_stack s \<noteq> []) (collect_step r) ?s = Some t" "order = co_order t"
    using run ne by (auto simp: collection_order_def)
  have "visited_set ?s = {0}" using ne by (auto simp: visited_set_def nth_list_update split: if_splits)
  then obtain out where "walks r {0} [(0, 0)] out" "co_order t = out"
    using collect_loop_walks [OF collect_inv_init [OF ne] t(1)] by auto
  then show ?thesis using t(2) by (auto elim!: walks_frameE elim: walks.cases)
qed

text \<open>
  C8. \<open>collection_order\<close> returns for every registry, and the order is the depth-first post-order: the list the recursive
  walk from the root gives, which follows each module's imports in the order written, enters a module when it is
  first met and lists it after everything entered below it. It therefore holds each registered module that the
  root reaches through imports exactly once, the root last; a module stands after every module it imports,
  except an import from which the module itself is reached again, an import cycle.
\<close>

theorem collection_order_post_order:
  assumes "rg_nodes r \<noteq> []"
  shows "\<exists>below. collection_order r = Some (below @ [0]) \<and> dfs r {0} (imports_of r 0) below \<and>
           (\<forall>out. dfs r {0} (imports_of r 0) out \<longrightarrow> out = below) \<and> distinct (below @ [0]) \<and>
           set (below @ [0]) = {v. v < length (rg_nodes r) \<and> (0, v) \<in> (import_edges r)\<^sup>*} \<and>
           (\<forall>i < length (below @ [0]). \<forall>v. ((below @ [0]) ! i, v) \<in> import_edges r \<longrightarrow>
              v \<in> set (take i (below @ [0])) \<or> (v, (below @ [0]) ! i) \<in> (import_edges r)\<^sup>*)"
proof -
  obtain order where run: "collection_order r = Some order" "distinct order" and ok: "placed_ok r order"
    and set: "set order = {v. v < length (rg_nodes r) \<and> (0, v) \<in> (import_edges r)\<^sup>*}"
    using collection_order_result [OF assms] by blast
  obtain below where below: "order = below @ [0]" "dfs r {0} (imports_of r 0) below" using collection_order_dfs [OF assms run(1)] by blast
  then show ?thesis using run set ok [unfolded placed_ok_def] dfs_deterministic [OF below(2)] unfolding below(1)
    by (intro exI [of _ below] conjI) (assumption | blast)+
qed

text \<open>A registry of three modules: the root imports the second and the third, the second imports the third and the root.\<close>

definition sample_registry :: registry where
  "sample_registry =
     (let n = module_node_new \<lparr>mi_ty = unit_type, mi_config = None, mi_qualifier = None, mi_label = None\<rparr>
      in (wk_registry walk_new)\<lparr>rg_nodes := [n, n, n],
           rg_imports := [[ImportNew 1, ImportNew 2], [ImportNew 2, ImportNew 0], []]\<rparr>)"

theorem collection_order_post_order_witness:
  "rg_nodes sample_registry \<noteq> [] \<and>
   (\<exists>below. collection_order sample_registry = Some (below @ [0]) \<and> dfs sample_registry {0} [ImportNew 1, ImportNew 2] below)"
proof -
  have ne: "rg_nodes sample_registry \<noteq> []" by (simp add: sample_registry_def Let_def)
  have "imports_of sample_registry 0 = [ImportNew 1, ImportNew 2]" by (simp add: sample_registry_def Let_def imports_of_def)
  then show ?thesis using ne collection_order_post_order [OF ne] by auto
qed

lemma collection_order_sample: "collection_order sample_registry = Some [2, 1, 0]"
  by code_simp

end
