(* ===== verification/Registry_Laws.thy ===== *)
theory Registry_Laws
  imports Collection_Order "HOL-Library.Sublist"
begin

text \<open>
  The registration walk: it ends when the application's modules have finitely many identities, it
  registers one node per identity, and each node's imports are the nodes of the identities its module
  imported, in the order written. Every node is reached from the root, so the collection order places
  all of them.
\<close>

section \<open>What a walk adds\<close>

definition node_by :: "module_impl \<Rightarrow> site \<Rightarrow> rust_type option \<Rightarrow> module_node" where
  "node_by m s inherited =
     mm_register m ((module_node_new (mm_identity m))\<lparr>nd_settings := mm_settings m, nd_site := s,
       nd_inherited_keyed := inherited\<rparr>)"

definition stand_in :: "(nat \<Rightarrow> module_impl) \<Rightarrow> replacement list \<Rightarrow> nat \<Rightarrow> nat" where
  "stand_in mods plan m =
     (case find (\<lambda>r. identity_eq (rm_original r) (mm_identity (mods m))) plan of Some r \<Rightarrow> rm_replacement r | None \<Rightarrow> m)"

definition import_target ::
  "(nat \<Rightarrow> module_impl) \<Rightarrow> graph option \<Rightarrow> replacement list \<Rightarrow> registry \<Rightarrow> nat \<Rightarrow> import_ref option" where
  "import_target mods base plan r m =
     (case Option.bind base (\<lambda>g. identity_lookup (g_by_identity g) (mm_identity (mods m))) of
        Some e \<Rightarrow> Some (ImportExisting e)
      | None \<Rightarrow> map_option ImportNew (identity_lookup (rg_by_identity r) (mm_identity (mods (stand_in mods plan m)))))"

definition node_ok :: "(nat \<Rightarrow> module_impl) \<Rightarrow> graph option \<Rightarrow> replacement list \<Rightarrow> registry \<Rightarrow> nat \<Rightarrow> bool" where
  "node_ok mods base plan r k \<longleftrightarrow>
     (\<exists>m s inherited. let n = node_by (mods m) s inherited in
        fst (rg_by_identity r ! k) = mm_identity (mods m) \<and>
        rg_nodes r ! k = n\<lparr>nd_imports := []\<rparr> \<and>
        map Some (rg_imports r ! k) = map (\<lambda>im. import_target mods base plan r (im_module im)) (nd_imports n))"

definition same_identities :: "registry \<Rightarrow> bool" where
  "same_identities r \<longleftrightarrow> sorted_wrt (\<lambda>a b. \<not> identity_eq (fst a) (fst b)) (rg_by_identity r)"

definition walk_inv :: "(nat \<Rightarrow> module_impl) \<Rightarrow> graph option \<Rightarrow> replacement list \<Rightarrow> walk \<Rightarrow> bool" where
  "walk_inv mods base plan w \<longleftrightarrow>
     (let r = wk_registry w in
      length (rg_imports r) = length (rg_nodes r) \<and>
      map snd (rg_by_identity r) = [0..<length (rg_nodes r)] \<and>
      same_identities r \<and> set (wk_path w) \<subseteq> {..<length (rg_nodes r)} \<and>
      (\<forall>k < length (rg_nodes r). k \<notin> set (wk_path w) \<longrightarrow> node_ok mods base plan r k))"

definition grows :: "nat set \<Rightarrow> walk \<Rightarrow> walk \<Rightarrow> bool" where
  "grows X w w' \<longleftrightarrow>
     (let r = wk_registry w; r' = wk_registry w' in
      prefix (rg_nodes r) (rg_nodes r') \<and> prefix (rg_by_identity r) (rg_by_identity r') \<and>
      length (rg_imports r') \<ge> length (rg_imports r) \<and> wk_path w' = wk_path w \<and>
      (\<forall>k < length (rg_imports r). k \<notin> X \<longrightarrow> rg_imports r' ! k = rg_imports r ! k))"

definition linked :: "nat set \<Rightarrow> walk \<Rightarrow> walk \<Rightarrow> bool" where
  "linked X w w' \<longleftrightarrow>
     (\<forall>k. length (rg_nodes (wk_registry w)) \<le> k \<longrightarrow> k < length (rg_nodes (wk_registry w')) \<longrightarrow> k \<notin> X \<longrightarrow>
        (\<exists>p < k. ImportNew k \<in> set (rg_imports (wk_registry w') ! p)))"

lemma fresh_node_by:
  "fresh_node m (mm_identity m) s w = node_by m s (find_map (\<lambda>a. nd_keyed (rg_nodes (wk_registry w) ! a)) (rev (wk_path w)))"
  by (simp add: fresh_node_def node_by_def)

lemma identity_lookup_append:
  "identity_lookup xs i = Some n \<Longrightarrow> identity_lookup (xs @ ys) i = Some n"
  by (induction xs) (auto simp: identity_lookup_def)

lemma identity_lookup_snoc_fresh:
  "identity_lookup xs i = None \<Longrightarrow> identity_lookup (xs @ [(i, n)]) i = Some n"
  by (induction xs) (auto simp: identity_lookup_def identity_eq_def split: if_splits)

lemma identity_lookup_None:
  "identity_lookup xs i = None \<longleftrightarrow> (\<forall>x \<in> set xs. \<not> identity_eq (fst x) i)"
  by (auto simp: identity_lookup_def find_None_iff split: prod.splits)

lemma import_target_grows:
  assumes "grows X w w'" and "import_target mods base plan (wk_registry w) m = Some t"
  shows "import_target mods base plan (wk_registry w') m = Some t"
  using assms by (auto simp: grows_def import_target_def Let_def prefix_def intro: identity_lookup_append split: option.splits)

lemma grows_refl: "grows X w w"
  by (simp add: grows_def)

lemma grows_trans: "grows X w w' \<Longrightarrow> grows X w' w'' \<Longrightarrow> grows X w w''"
  unfolding grows_def Let_def by (auto intro: prefix_order.trans)

lemma grows_mono: "grows X w w' \<Longrightarrow> X \<subseteq> Y \<Longrightarrow> grows Y w w'"
  unfolding grows_def Let_def by auto

lemma targets_grow:
  assumes g: "grows X w w'"
  shows "map Some ts = map (\<lambda>im. import_target mods base plan (wk_registry w) (im_module im)) ims \<Longrightarrow>
    map Some ts = map (\<lambda>im. import_target mods base plan (wk_registry w') (im_module im)) ims"
proof (induction ims arbitrary: ts)
  case (Cons im ims)
  from Cons.prems obtain z zs where ts: "ts = z # zs"
    and z: "import_target mods base plan (wk_registry w) (im_module im) = Some z"
    and zs: "map Some zs = map (\<lambda>im. import_target mods base plan (wk_registry w) (im_module im)) ims"
    by (cases ts) simp_all
  show ?case using ts import_target_grows [OF g z] Cons.IH [OF zs] by simp
qed simp

lemma node_ok_grows:
  assumes ok: "node_ok mods base plan (wk_registry w) k" and g: "grows X w w'" and k: "k \<notin> X"
    and inv: "walk_inv mods base plan w" and range: "k < length (rg_nodes (wk_registry w))"
  shows "node_ok mods base plan (wk_registry w') k"
proof -
  obtain m s inh where n: "fst (rg_by_identity (wk_registry w) ! k) = mm_identity (mods m)"
    "rg_nodes (wk_registry w) ! k = (node_by (mods m) s inh)\<lparr>nd_imports := []\<rparr>"
    "map Some (rg_imports (wk_registry w) ! k) =
       map (\<lambda>im. import_target mods base plan (wk_registry w) (im_module im)) (nd_imports (node_by (mods m) s inh))"
    using ok by (auto simp: node_ok_def Let_def)
  have len: "length (rg_imports (wk_registry w)) = length (rg_nodes (wk_registry w))"
    "length (rg_by_identity (wk_registry w)) = length (rg_nodes (wk_registry w))"
    using inv by (auto simp: walk_inv_def Let_def dest: arg_cong [of _ _ length])
  have eqs: "rg_nodes (wk_registry w') ! k = rg_nodes (wk_registry w) ! k"
    "rg_by_identity (wk_registry w') ! k = rg_by_identity (wk_registry w) ! k"
    "rg_imports (wk_registry w') ! k = rg_imports (wk_registry w) ! k"
    using g k range len by (auto simp: grows_def Let_def prefix_def nth_append)
  show ?thesis unfolding node_ok_def Let_def eqs by (intro exI conjI, fact n(1), fact n(2), rule targets_grow [OF g n(3)])
qed

section \<open>Every step keeps the invariant\<close>

lemma walk_invD:
  assumes "walk_inv mods base plan w"
  shows "length (rg_imports (wk_registry w)) = length (rg_nodes (wk_registry w))"
    and "map snd (rg_by_identity (wk_registry w)) = [0..<length (rg_nodes (wk_registry w))]"
    and "length (rg_by_identity (wk_registry w)) = length (rg_nodes (wk_registry w))"
    and "same_identities (wk_registry w)"
    and "\<And>k. k \<in> set (wk_path w) \<Longrightarrow> k < length (rg_nodes (wk_registry w))"
    and "\<And>k. k < length (rg_nodes (wk_registry w)) \<Longrightarrow> k \<notin> set (wk_path w) \<Longrightarrow> node_ok mods base plan (wk_registry w) k"
proof -
  note inv = assms [unfolded walk_inv_def Let_def]
  show "length (rg_imports (wk_registry w)) = length (rg_nodes (wk_registry w))"
    and seconds: "map snd (rg_by_identity (wk_registry w)) = [0..<length (rg_nodes (wk_registry w))]"
    and "same_identities (wk_registry w)"
    using inv by blast+
  show "\<And>k. k \<in> set (wk_path w) \<Longrightarrow> k < length (rg_nodes (wk_registry w))"
    and "\<And>k. k < length (rg_nodes (wk_registry w)) \<Longrightarrow> k \<notin> set (wk_path w) \<Longrightarrow> node_ok mods base plan (wk_registry w) k"
    using inv by blast+
  show "length (rg_by_identity (wk_registry w)) = length (rg_nodes (wk_registry w))"
    using arg_cong [OF seconds, of length] by simp
qed

lemma import_target_cong:
  "rg_by_identity r' = rg_by_identity r \<Longrightarrow> import_target mods base plan r' = import_target mods base plan r"
  by (rule ext) (simp add: import_target_def split: option.split)

lemma node_ok_cong:
  assumes "rg_nodes r' = rg_nodes r" "rg_by_identity r' = rg_by_identity r" "rg_imports r' ! k = rg_imports r ! k"
  shows "node_ok mods base plan r' k \<longleftrightarrow> node_ok mods base plan r k"
  unfolding node_ok_def assms import_target_cong [OF assms(2)] ..

text \<open>A change of the report fields alone: self-imports, differing settings, repeats, replaced modules.\<close>

definition same_nodes :: "walk \<Rightarrow> walk \<Rightarrow> bool" where
  "same_nodes w w' \<longleftrightarrow> rg_nodes (wk_registry w') = rg_nodes (wk_registry w) \<and>
     rg_by_identity (wk_registry w') = rg_by_identity (wk_registry w) \<and>
     rg_imports (wk_registry w') = rg_imports (wk_registry w) \<and> wk_path w' = wk_path w"

lemma same_nodes_inv: "same_nodes w w' \<Longrightarrow> walk_inv mods base plan w' \<longleftrightarrow> walk_inv mods base plan w"
proof -
  assume same: "same_nodes w w'"
  have "node_ok mods base plan (wk_registry w') k \<longleftrightarrow> node_ok mods base plan (wk_registry w) k" for k
    using same by (intro node_ok_cong) (simp_all add: same_nodes_def)
  then show "walk_inv mods base plan w' \<longleftrightarrow> walk_inv mods base plan w"
    using same by (simp add: same_nodes_def walk_inv_def same_identities_def Let_def)
qed

lemma same_nodes_grows: "same_nodes w w' \<Longrightarrow> grows X w w' \<and> linked Y w w'"
  by (simp add: same_nodes_def grows_def linked_def)

lemma same_nodes_grows_left: "same_nodes w' w'' \<Longrightarrow> grows X w w'' \<longleftrightarrow> grows X w w'"
  by (simp add: same_nodes_def grows_def Let_def)

lemma same_nodes_linked_left: "same_nodes w' w'' \<Longrightarrow> linked X w w'' \<longleftrightarrow> linked X w w'"
  by (simp add: same_nodes_def linked_def)

lemma same_nodes_target: "same_nodes w w' \<Longrightarrow> import_target mods base plan (wk_registry w') m = import_target mods base plan (wk_registry w) m"
  unfolding same_nodes_def by (metis import_target_cong)

lemma link_existing_same [simp]: "same_nodes w (w\<lparr>wk_registry := link_existing f a b (wk_registry w)\<rparr>)"
  by (simp add: same_nodes_def link_existing_def)

lemma self_import_same [simp]: "same_nodes w (w\<lparr>wk_registry := (wk_registry w)\<lparr>rg_self_imports := xs\<rparr>\<rparr>)"
  by (simp add: same_nodes_def)

lemma note_replaced_same [simp]: "same_nodes w (note_replaced m i imp w)"
  by (simp add: same_nodes_def note_replaced_def Let_def split: import_ref.splits)

lemma identity_eq_sym: "identity_eq a b \<longleftrightarrow> identity_eq b a"
  by (auto simp: identity_eq_def)

lemma push_node_inv:
  assumes inv: "walk_inv mods base plan w" and new: "identity_lookup (rg_by_identity (wk_registry w)) i = None"
  shows "walk_inv mods base plan (push_node node i w)"
proof -
  note D = walk_invD [OF inv]
  let ?w = "push_node node i w"
  have len: "length (rg_nodes (wk_registry ?w)) = Suc (length (rg_nodes (wk_registry w)))" by (simp add: push_node_def Let_def)
  have g: "grows {} w (?w\<lparr>wk_path := wk_path w\<rparr>)" by (simp add: grows_def push_node_def Let_def nth_append)
  have same: "same_identities (wk_registry ?w)"
    using D(4) new by (auto simp: same_identities_def push_node_def Let_def sorted_wrt_append identity_lookup_None)
  have "node_ok mods base plan (wk_registry ?w) k" if "k < length (rg_nodes (wk_registry ?w))" "k \<notin> set (wk_path ?w)" for k
  proof -
    have k: "k < length (rg_nodes (wk_registry w))" "k \<notin> set (wk_path w)" using that by (auto simp: push_node_def Let_def)
    show ?thesis using node_ok_grows [OF D(6) [OF k] g _ inv k(1)] by simp
  qed
  moreover have "length (rg_imports (wk_registry ?w)) = length (rg_nodes (wk_registry ?w))" "set (wk_path ?w) \<subseteq> {..<length (rg_nodes (wk_registry ?w))}"
    "map snd (rg_by_identity (wk_registry ?w)) = [0..<length (rg_nodes (wk_registry ?w))]"
    using D(1,2,5) by (auto simp: push_node_def Let_def less_Suc_eq)
  ultimately show ?thesis using same unfolding walk_inv_def Let_def by blast
qed

lemma push_import_inv:
  assumes inv: "walk_inv mods base plan w" and "index \<in> set (wk_path w)"
  shows "walk_inv mods base plan (push_import index t w)"
proof -
  have "node_ok mods base plan (wk_registry (push_import index t w)) k"
    if "k < length (rg_nodes (wk_registry w))" "k \<notin> set (wk_path w)" for k
  proof (rule node_ok_cong [THEN iffD2])
    show "node_ok mods base plan (wk_registry w) k" using walk_invD(6) [OF inv that] .
    show "rg_imports (wk_registry (push_import index t w)) ! k = rg_imports (wk_registry w) ! k"
      using that assms(2) by (cases "k = index") (simp_all add: push_import_def Let_def)
  qed (simp_all add: push_import_def Let_def)
  moreover have "rg_nodes (wk_registry (push_import index t w)) = rg_nodes (wk_registry w)"
    "rg_by_identity (wk_registry (push_import index t w)) = rg_by_identity (wk_registry w)"
    "length (rg_imports (wk_registry (push_import index t w))) = length (rg_imports (wk_registry w))"
    "wk_path (push_import index t w) = wk_path w"
    by (simp_all add: push_import_def Let_def)
  ultimately show ?thesis using inv by (simp add: walk_inv_def Let_def same_identities_def)
qed

lemma push_import_grows: "index \<in> X \<Longrightarrow> grows X w (push_import index t w)"
  unfolding grows_def push_import_def Let_def by (auto intro!: nth_list_update_neq)

section \<open>What the walk establishes\<close>

definition reach_post where
  "reach_post mods base plan w m t w' \<longleftrightarrow>
     walk_inv mods base plan w' \<and> grows {} w w' \<and> linked {k. t = ImportNew k} w w' \<and>
     import_target mods base plan (wk_registry w') m = Some t"

definition enter_post where
  "enter_post mods base plan w i t w' \<longleftrightarrow>
     walk_inv mods base plan w' \<and> grows {} w w' \<and> linked {k. t = ImportNew k} w w' \<and>
     map_option ImportNew (identity_lookup (rg_by_identity (wk_registry w')) i) = Some t"

definition imports_post where
  "imports_post mods base plan w index ims w' \<longleftrightarrow>
     walk_inv mods base plan w' \<and> grows {index} w w' \<and> linked {} w w' \<and>
     (\<exists>ts. rg_imports (wk_registry w') ! index = rg_imports (wk_registry w) ! index @ ts \<and>
        map Some ts = map (\<lambda>im. import_target mods base plan (wk_registry w') (im_module im)) ims)"

lemma enter_post_found:
  assumes "walk_inv mods base plan w" "identity_lookup (rg_by_identity (wk_registry w)) i = Some node" "same_nodes w w'"
  shows "enter_post mods base plan w i (ImportNew node) w'"
  using assms same_nodes_inv [OF assms(3)] same_nodes_grows [OF assms(3)]
  by (simp add: enter_post_def) (simp add: same_nodes_def)

lemma linked_trans:
  assumes "linked X w w'" "grows Y w' w''" "linked Z w' w''"
    and len: "length (rg_imports (wk_registry w')) = length (rg_nodes (wk_registry w'))"
    and keep: "\<And>k. k \<in> Y \<Longrightarrow> set (rg_imports (wk_registry w') ! k) \<subseteq> set (rg_imports (wk_registry w'') ! k)"
  shows "linked (X \<union> Z) w w''"
  unfolding linked_def
proof (intro allI impI)
  fix k
  assume k: "length (rg_nodes (wk_registry w)) \<le> k" "k < length (rg_nodes (wk_registry w''))" "k \<notin> X \<union> Z"
  show "\<exists>p<k. ImportNew k \<in> set (rg_imports (wk_registry w'') ! p)"
  proof (cases "k < length (rg_nodes (wk_registry w'))")
    case True
    then obtain p where p: "p < k" "ImportNew k \<in> set (rg_imports (wk_registry w') ! p)"
      using assms(1) k unfolding linked_def by blast
    have "p < length (rg_imports (wk_registry w'))" using p(1) True len by simp
    then have "set (rg_imports (wk_registry w') ! p) \<subseteq> set (rg_imports (wk_registry w'') ! p)"
      using keep [of p] assms(2) unfolding grows_def Let_def by (cases "p \<in> Y") auto
    then show ?thesis using p by blast
  next
    case False then show ?thesis using assms(3) k unfolding linked_def by auto
  qed
qed

lemma linked_mono: "linked X w w' \<Longrightarrow> X \<subseteq> Y \<Longrightarrow> linked Y w w'"
  unfolding linked_def by blast

lemma push_node_simps [simp]:
  "rg_nodes (wk_registry (push_node node i w)) = rg_nodes (wk_registry w) @ [node\<lparr>nd_imports := []\<rparr>]"
  "rg_by_identity (wk_registry (push_node node i w)) = rg_by_identity (wk_registry w) @ [(i, length (rg_nodes (wk_registry w)))]"
  "rg_imports (wk_registry (push_node node i w)) = rg_imports (wk_registry w) @ [[]]"
  "wk_path (push_node node i w) = wk_path w @ [length (rg_nodes (wk_registry w))]"
  by (simp_all add: push_node_def Let_def)

lemma push_import_simps [simp]:
  "rg_nodes (wk_registry (push_import k t w)) = rg_nodes (wk_registry w)"
  "rg_by_identity (wk_registry (push_import k t w)) = rg_by_identity (wk_registry w)"
  "rg_imports (wk_registry (push_import k t w)) = (rg_imports (wk_registry w))[k := rg_imports (wk_registry w) ! k @ [t]]"
  "wk_path (push_import k t w) = wk_path w"
  by (simp_all add: push_import_def Let_def)

lemma node_ok_entered:
  fixes w :: walk and m :: nat
  defines "index \<equiv> length (rg_nodes (wk_registry w))"
  assumes inv: "walk_inv mods base plan w"
    and post: "imports_post mods base plan (push_node (node_by (mods m) s inh) (mm_identity (mods m)) w) index
                 (nd_imports (node_by (mods m) s inh)) w'"
  shows "node_ok mods base plan (wk_registry w') index"
proof -
  let ?w = "push_node (node_by (mods m) s inh) (mm_identity (mods m)) w"
  note D = walk_invD [OF inv]
  have g: "grows {index} ?w w'" using post by (simp add: imports_post_def)
  have "rg_by_identity (wk_registry w') ! index = (mm_identity (mods m), index)"
    "rg_nodes (wk_registry w') ! index = (node_by (mods m) s inh)\<lparr>nd_imports := []\<rparr>"
    using g D(3) by (auto simp: grows_def Let_def prefix_def nth_append index_def)
  moreover obtain ts where "rg_imports (wk_registry w') ! index = ts"
    "map Some ts = map (\<lambda>im. import_target mods base plan (wk_registry w') (im_module im)) (nd_imports (node_by (mods m) s inh))"
    using post D(1) by (auto simp: imports_post_def nth_append index_def)
  ultimately show ?thesis unfolding node_ok_def Let_def by (metis fst_conv)
qed

lemma enter_post_new:
  fixes w :: walk and m :: nat and mods :: "nat \<Rightarrow> module_impl"
  defines "index \<equiv> length (rg_nodes (wk_registry w))" and "i \<equiv> mm_identity (mods m)"
  assumes inv: "walk_inv mods base plan w"
    and new: "identity_lookup (rg_by_identity (wk_registry w)) i = None"
    and post: "imports_post mods base plan (push_node (node_by (mods m) s inh) i w) index (nd_imports (node_by (mods m) s inh)) w'"
  shows "enter_post mods base plan w i (ImportNew index) (w'\<lparr>wk_path := butlast (wk_path w')\<rparr>)"
proof -
  let ?w = "push_node (node_by (mods m) s inh) i w" and ?v = "w'\<lparr>wk_path := butlast (wk_path w')\<rparr>"
  note D = walk_invD [OF inv]
  have inv': "walk_inv mods base plan w'" and g: "grows {index} ?w w'" and l: "linked {} ?w w'"
    using post by (simp_all add: imports_post_def)
  note D' = walk_invD [OF inv']
  have path: "wk_path w' = wk_path w @ [index]" using g by (simp add: grows_def Let_def index_def)
  have self: "node_ok mods base plan (wk_registry w') index"
    using node_ok_entered [OF inv] post unfolding index_def i_def by blast
  have nodes: "node_ok mods base plan (wk_registry w') k"
    if "k < length (rg_nodes (wk_registry w'))" "k \<notin> set (wk_path w)" for k
    using self D'(6) [OF that(1)] that(2) path by (cases "k = index") auto
  have "walk_inv mods base plan ?v"
    using D'(1,2,4,5) nodes path by (simp add: walk_inv_def Let_def subset_iff)
  moreover have "grows {} w ?v"
  proof -
    have "index = length (rg_imports (wk_registry w))" using D(1) by (simp add: index_def)
    then show ?thesis using g path by (auto simp: grows_def Let_def nth_append elim: append_prefixD)
  qed
  moreover have "linked {k. ImportNew index = ImportNew k} w ?v"
    using l by (auto simp: linked_def index_def less_Suc_eq_le Suc_le_eq)
  moreover have "identity_lookup (rg_by_identity (wk_registry ?v)) i = Some index"
    using g identity_lookup_append [OF identity_lookup_snoc_fresh [OF new]]
    by (auto simp: grows_def Let_def prefix_def index_def)
  ultimately show ?thesis by (simp add: enter_post_def)
qed

lemma imports_post_cons:
  assumes r: "reach_post mods base plan w (im_module im) t w1" and inv: "walk_inv mods base plan w"
    and idx: "index \<in> set (wk_path w)"
    and rest: "imports_post mods base plan (push_import index t w1) index ims w'"
  shows "imports_post mods base plan w index (im # ims) w'"
proof -
  let ?w2 = "push_import index t w1"
  have inv1: "walk_inv mods base plan w1" and g1: "grows {} w w1" and l1: "linked {k. t = ImportNew k} w w1"
    and t: "import_target mods base plan (wk_registry w1) (im_module im) = Some t"
    using r by (simp_all add: reach_post_def)
  note D = walk_invD [OF inv] and D1 = walk_invD [OF inv1]
  have path: "wk_path w1 = wk_path w" using g1 by (simp add: grows_def Let_def)
  have bound: "index < length (rg_nodes (wk_registry w))" using D(5) [OF idx] .
  have bound1: "index < length (rg_imports (wk_registry w1))" using D1(1,5) idx path by simp
  have old: "rg_imports (wk_registry w1) ! index = rg_imports (wk_registry w) ! index"
    using g1 bound D(1) by (simp add: grows_def Let_def)
  have g2: "grows {index} w1 ?w2" by (rule push_import_grows) simp
  have g3: "grows {index} ?w2 w'" and l3: "linked {} ?w2 w'" and inv': "walk_inv mods base plan w'"
    using rest by (simp_all add: imports_post_def)
  obtain ts where ts: "rg_imports (wk_registry w') ! index = rg_imports (wk_registry ?w2) ! index @ ts"
    "map Some ts = map (\<lambda>im. import_target mods base plan (wk_registry w') (im_module im)) ims"
    using rest by (auto simp: imports_post_def)
  have g: "grows {index} w w'" using grows_trans [OF grows_trans [OF grows_mono [OF g1] g2] g3] by simp
  have l2: "linked {} w ?w2"
    unfolding linked_def
  proof (intro allI impI)
    fix k assume k: "length (rg_nodes (wk_registry w)) \<le> k" "k < length (rg_nodes (wk_registry ?w2))"
    show "\<exists>p<k. ImportNew k \<in> set (rg_imports (wk_registry ?w2) ! p)"
    proof (cases "t = ImportNew k")
      case True then show ?thesis using bound k bound1 by (intro exI [of _ index]) simp
    next
      case False
      then obtain p where "p < k" "ImportNew k \<in> set (rg_imports (wk_registry w1) ! p)"
        using l1 k unfolding linked_def by auto
      then show ?thesis using bound1 by (intro exI [of _ p]) (auto simp: nth_list_update)
    qed
  qed
  have "linked {} w w'"
    using linked_trans [OF l2 g3 l3] D1(1) ts(1) by simp
  moreover have "import_target mods base plan (wk_registry w') (im_module im) = Some t"
    using import_target_grows [OF grows_trans [OF g2 g3] t] .
  moreover have "rg_imports (wk_registry w') ! index = rg_imports (wk_registry w) ! index @ t # ts"
    using ts(1) old bound1 by simp
  ultimately show ?thesis using inv' g ts(2) unfolding imports_post_def by (metis list.simps(9))
qed

lemma enter_post_reach:
  assumes "Option.bind base (\<lambda>g. identity_lookup (g_by_identity g) (mm_identity (mods m))) = None"
    and "enter_post mods base plan w (mm_identity (mods (stand_in mods plan m))) t w'" and "same_nodes w' w''"
  shows "reach_post mods base plan w m t w''"
  using assms same_nodes_inv [OF assms(3)] same_nodes_grows_left [OF assms(3)] same_nodes_linked_left [OF assms(3)]
  by (simp add: reach_post_def enter_post_def import_target_def) (simp add: same_nodes_def)

lemma reach_post_existing:
  assumes "walk_inv mods base plan w" "same_nodes w w'"
    and "Option.bind base (\<lambda>g. identity_lookup (g_by_identity g) (mm_identity (mods m))) = Some e"
  shows "reach_post mods base plan w m (ImportExisting e) w'"
  using assms same_nodes_inv [OF assms(2)] same_nodes_grows [OF assms(2)]
  by (simp add: reach_post_def import_target_def)

lemma bind_base:
  "Option.bind base (\<lambda>g. map_option (\<lambda>e. (g, e)) (f g)) = None \<longleftrightarrow> Option.bind base f = None"
  "Option.bind base (\<lambda>g. map_option (\<lambda>e. (g, e)) (f g)) = Some (g, e) \<Longrightarrow> Option.bind base f = Some e"
  by (cases base; auto)+

theorem walk_post:
  "walk_inv mods base plan w \<Longrightarrow> walk_reach fuel mods base plan m s w = Some (t, w') \<Longrightarrow>
     reach_post mods base plan w m t w'"
  "i = mm_identity (mods m) \<Longrightarrow> walk_inv mods base plan w \<Longrightarrow> walk_enter fuel mods base plan i m s w = Some (t, w') \<Longrightarrow>
     enter_post mods base plan w i t w'"
  "index \<in> set (wk_path w) \<Longrightarrow> walk_inv mods base plan w \<Longrightarrow> walk_imports fuel mods base plan index ims w = Some w' \<Longrightarrow>
     imports_post mods base plan w index ims w'"
proof (induction fuel mods base plan m s w and fuel mods base plan i m s w and fuel mods base plan index ims w
    arbitrary: t w' and t w' and w' rule: walk_reach_walk_enter_walk_imports.induct)
  case (1 fuel mods base plan m s w)
  show ?case
  proof (cases "Option.bind base (\<lambda>g. map_option (\<lambda>e. (g, e)) (identity_lookup (g_by_identity g) (mm_identity (mods m))))")
    case (Some ge)
    obtain g e where ge: "ge = (g, e)" by fastforce
    show ?thesis using reach_post_existing [OF 1(3) _ bind_base(2) [OF Some [unfolded ge]]] 1(4) Some ge
      by (auto simp: Let_def)
  next
    case none: None
    note nb = bind_base(1) [THEN iffD1, OF none]
    show ?thesis
    proof (cases "find (\<lambda>r. identity_eq (rm_original r) (mm_identity (mods m))) plan")
      case None
      then have st: "stand_in mods plan m = m" by (simp add: stand_in_def)
      have "walk_enter fuel mods base plan (mm_identity (mods m)) m s w = Some (t, w')" using 1(4) none None by (simp add: Let_def del: walk_enter.simps)
      then have "enter_post mods base plan w (mm_identity (mods m)) t w'" using 1(1) [OF refl none None refl 1(3)] by blast
      then show ?thesis using enter_post_reach [where mods = mods and m = m, OF nb, of plan w t w' w'] st by (simp add: same_nodes_def)
    next
      case (Some r)
      then have st: "stand_in mods plan m = rm_replacement r" by (simp add: stand_in_def)
      obtain w1 where w1: "walk_enter fuel mods base plan (mm_identity (mods (rm_replacement r))) (rm_replacement r) s w = Some (t, w1)"
        "w' = note_replaced (mods m) (mm_identity (mods m)) t w1" using 1(4) none Some by (auto simp: Let_def simp del: walk_enter.simps)
      have "enter_post mods base plan w (mm_identity (mods (rm_replacement r))) t w1"
        using 1(2) [OF refl none Some refl 1(3) w1(1)] .
      then show ?thesis using enter_post_reach [where mods = mods and m = m, OF nb, of plan w t w1 w'] st w1(2) by simp
    qed
  qed
next
  case (2 fuel mods base plan i m s w)
  show ?case
  proof (cases "identity_lookup (rg_by_identity (wk_registry w)) i")
    case (Some node)
    then show ?thesis using enter_post_found [OF 2(3) Some] 2(4) by (auto simp: Let_def split: if_splits)
  next
    case None
    then obtain f' where f: "fuel = Suc f'" using 2(4) by (cases fuel) auto
    let ?node = "fresh_node (mods m) i s w"
    obtain w1 where w1: "walk_imports f' mods base plan (length (rg_nodes (wk_registry w))) (nd_imports ?node) (push_node ?node i w) = Some w1"
      "t = ImportNew (length (rg_nodes (wk_registry w)))" "w' = w1\<lparr>wk_path := butlast (wk_path w1)\<rparr>"
      using 2(4) None f by (auto simp: Let_def)
    have "imports_post mods base plan (push_node ?node i w) (length (rg_nodes (wk_registry w))) (nd_imports ?node) w1"
      using 2(1) [OF None f refl refl _ push_node_inv [OF 2(3) None] w1(1)] by simp
    then show ?thesis
      using enter_post_new [OF 2(3), of m] None 2(2) w1(2,3) by (simp add: fresh_node_by)
  qed
next
  case (3 fuel mods base plan index w)
  then show ?case by (simp add: imports_post_def grows_refl linked_def)
next
  case (4 fuel mods base plan index im ims w)
  obtain t w1 where r: "walk_reach fuel mods base plan (im_module im) (SiteImport (ImportNew index) (im_at im)) w = Some (t, w1)"
    and rest: "walk_imports fuel mods base plan index ims (push_import index t w1) = Some w'"
    using 4(5) by (auto split: option.splits)
  have rp: "reach_post mods base plan w (im_module im) t w1" using 4(1) [OF 4(4) r] .
  then have idx: "index \<in> set (wk_path w1)" and inv1: "walk_inv mods base plan w1"
    using 4(3) by (simp_all add: reach_post_def grows_def Let_def)
  have "imports_post mods base plan (push_import index t w1) index ims w'"
    using 4(2) [OF r refl _ push_import_inv [OF inv1 idx] rest] idx by simp
  then show ?case using imports_post_cons [OF rp 4(4,3)] by blast
qed

section \<open>The walk ends\<close>

definition canon :: "module_identity \<Rightarrow> rust_type \<times> rust_type option \<times> config_key option" where
  "canon i = (mi_ty i, mi_qualifier i, mi_config i)"

definition unregistered :: "(rust_type \<times> rust_type option \<times> config_key option) set \<Rightarrow> walk \<Rightarrow>
    (rust_type \<times> rust_type option \<times> config_key option) set" where
  "unregistered C w = C - canon ` fst ` set (rg_by_identity (wk_registry w))"

lemma identity_eq_canon: "identity_eq a b \<longleftrightarrow> canon a = canon b"
  by (auto simp: identity_eq_def canon_def)

lemma unregistered_grows: "grows X w w' \<Longrightarrow> unregistered C w' \<subseteq> unregistered C w"
  unfolding unregistered_def by (intro Diff_mono image_mono subset_refl) (auto simp: grows_def Let_def prefix_def)

lemma unregistered_push:
  assumes "finite C" "canon i \<in> C" "identity_lookup (rg_by_identity (wk_registry w)) i = None"
  shows "card (unregistered C (push_node node i w)) < card (unregistered C w)"
proof (rule psubset_card_mono)
  show "finite (unregistered C w)" using assms(1) by (simp add: unregistered_def)
  have "canon i \<in> unregistered C w" using assms(2,3) by (auto simp: unregistered_def identity_lookup_None identity_eq_canon)
  moreover have "canon i \<notin> unregistered C (push_node node i w)" by (simp add: unregistered_def)
  moreover have "unregistered C (push_node node i w) \<subseteq> unregistered C w" by (auto simp: unregistered_def)
  ultimately show "unregistered C (push_node node i w) \<subset> unregistered C w" by blast
qed

lemma walk_total:
  assumes fin: "finite C"
  shows
  "(\<And>k. canon (mm_identity (mods k)) \<in> C) \<Longrightarrow> walk_inv mods base plan w \<Longrightarrow> card (unregistered C w) \<le> fuel \<Longrightarrow>
     \<exists>t w'. walk_reach fuel mods base plan m s w = Some (t, w')"
  "(\<And>k. canon (mm_identity (mods k)) \<in> C) \<Longrightarrow> i = mm_identity (mods m) \<Longrightarrow> walk_inv mods base plan w \<Longrightarrow>
     card (unregistered C w) \<le> fuel \<Longrightarrow> \<exists>t w'. walk_enter fuel mods base plan i m s w = Some (t, w')"
  "(\<And>k. canon (mm_identity (mods k)) \<in> C) \<Longrightarrow> index \<in> set (wk_path w) \<Longrightarrow> walk_inv mods base plan w \<Longrightarrow>
     card (unregistered C w) \<le> fuel \<Longrightarrow> \<exists>w'. walk_imports fuel mods base plan index ims w = Some w'"
proof (induction fuel mods base plan m s w and fuel mods base plan i m s w and fuel mods base plan index ims w
    rule: walk_reach_walk_enter_walk_imports.induct)
  case (1 fuel mods base plan m s w)
  show ?case
  proof (cases "Option.bind base (\<lambda>g. map_option (\<lambda>e. (g, e)) (identity_lookup (g_by_identity g) (mm_identity (mods m))))")
    case (Some ge) then show ?thesis by (auto simp: Let_def split: prod.splits)
  next
    case none: None
    show ?thesis
    proof (cases "find (\<lambda>r. identity_eq (rm_original r) (mm_identity (mods m))) plan")
      case None
      then show ?thesis using 1(1) [OF refl none None 1(3) refl 1(4,5)] none by (simp add: Let_def del: walk_enter.simps)
    next
      case (Some r)
      then show ?thesis using 1(2) [OF refl none Some 1(3) refl 1(4,5)] none by (auto simp: Let_def simp del: walk_enter.simps)
    qed
  qed
next
  case (2 fuel mods base plan i m s w)
  show ?case
  proof (cases "identity_lookup (rg_by_identity (wk_registry w)) i")
    case (Some node) then show ?thesis by (simp add: Let_def)
  next
    case None
    have dec: "card (unregistered C (push_node node i w)) < card (unregistered C w)" for node
      using unregistered_push [OF fin _ None] 2(2,3) by simp
    then obtain f' where f: "fuel = Suc f'" using 2(5) by (cases fuel) fastforce+
    have "\<exists>w'. walk_imports f' mods base plan (length (rg_nodes (wk_registry w))) (nd_imports (fresh_node (mods m) i s w))
        (push_node (fresh_node (mods m) i s w) i w) = Some w'"
      using 2(1) [OF None f refl refl 2(2) _ push_node_inv [OF 2(4) None]] dec [of "fresh_node (mods m) i s w"] 2(5) f by simp
    then show ?thesis using None f by (auto simp: Let_def)
  qed
next
  case (3 fuel mods base plan index w)
  then show ?case by simp
next
  case (4 fuel mods base plan index im ims w)
  obtain t w1 where r: "walk_reach fuel mods base plan (im_module im) (SiteImport (ImportNew index) (im_at im)) w = Some (t, w1)"
    using 4(1) [OF 4(3,5,6)] by blast
  have rp: "reach_post mods base plan w (im_module im) t w1" using walk_post(1) [OF 4(5) r] .
  then have idx: "index \<in> set (wk_path w1)" and inv1: "walk_inv mods base plan w1" and g: "grows {} w w1"
    using 4(4) by (simp_all add: reach_post_def grows_def Let_def)
  have "unregistered C (push_import index t w1) \<subseteq> unregistered C w"
    using unregistered_grows [OF g, of C] by (simp add: unregistered_def)
  moreover have "finite (unregistered C w)" using fin by (simp add: unregistered_def)
  ultimately have "card (unregistered C (push_import index t w1)) \<le> fuel"
    using card_mono 4(6) by (meson order_trans)
  then have "\<exists>w'. walk_imports fuel mods base plan index ims (push_import index t w1) = Some w'"
    using 4(2) [OF r refl 4(3) _ push_import_inv [OF inv1 idx]] idx by simp
  then show ?case using r by simp
qed

lemma walk_inv_new: "walk_inv mods base plan walk_new"
  by (simp add: walk_inv_def walk_new_def same_identities_def)

lemma collection_order_total: "\<exists>order. collection_order r = Some order"
proof (cases "rg_nodes r = []")
  case True then show ?thesis by (simp add: collection_order_def)
next
  case False then show ?thesis using collection_order_result by blast
qed

lemma register_all_walk:
  assumes "register_all fuel mods root plan = Some r"
  obtains t w where "walk_reach fuel mods None plan root SiteRoot walk_new = Some (t, w)"
    "reach_post mods None plan walk_new root t w"
    "r = (wk_registry w)\<lparr>rg_post_order := rg_post_order r\<rparr>" "collection_order (wk_registry w) = Some (rg_post_order r)"
proof -
  obtain t w where w: "walk_reach fuel mods None plan root SiteRoot walk_new = Some (t, w)" "walk_finish w = Some r"
    using assms by (auto simp: register_all_def bind_eq_Some_conv)
  show thesis using that [OF w(1) walk_post(1) [OF walk_inv_new w(1)]] w(2) by (auto simp: walk_finish_def)
qed

lemma identity_lookup_index:
  assumes "map snd t = [0..<n]" "identity_lookup t i = Some j"
  shows "j < n" "identity_eq (fst (t ! j)) i"
proof -
  obtain i' where "find (\<lambda>(j, _). identity_eq j i) t = Some (i', j)" using assms(2) by (auto simp: identity_lookup_def)
  then obtain k where k: "k < length t" "t ! k = (i', j)" "identity_eq i' i" by (auto simp: find_Some_iff)
  have "j = k" using arg_cong [OF assms(1), of "\<lambda>l. l ! k"] arg_cong [OF assms(1), of length] k by simp
  then show "j < n" "identity_eq (fst (t ! j)) i" using k arg_cong [OF assms(1), of length] by simp_all
qed

text \<open>The root's node is the first, and the others follow the import that reached them.\<close>

lemma root_reaches_all:
  assumes post: "reach_post mods None plan walk_new root t w"
  shows "t = ImportNew 0" "rg_nodes (wk_registry w) \<noteq> []"
    "\<And>k. k < length (rg_nodes (wk_registry w)) \<Longrightarrow> (0, k) \<in> (import_edges (wk_registry w))\<^sup>*"
proof -
  have inv: "walk_inv mods None plan w" and l: "linked {k. t = ImportNew k} walk_new w"
    and t: "import_target mods None plan (wk_registry w) root = Some t" using post by (simp_all add: reach_post_def)
  note D = walk_invD [OF inv]
  obtain j where j: "t = ImportNew j" "j < length (rg_nodes (wk_registry w))"
    using t identity_lookup_index(1) [OF D(2)] by (auto simp: import_target_def)
  have up: "\<exists>p<k. ImportNew k \<in> set (rg_imports (wk_registry w) ! p)"
    if "k < length (rg_nodes (wk_registry w))" "k \<noteq> j" for k
    using l that j by (auto simp: linked_def walk_new_def)
  have j0: "j = 0" using up [of 0] j(2) by (metis gr_zeroI less_trans not_less_zero)
  then show "t = ImportNew 0" "rg_nodes (wk_registry w) \<noteq> []" using j by auto
  show "(0, k) \<in> (import_edges (wk_registry w))\<^sup>*" if "k < length (rg_nodes (wk_registry w))" for k
    using that
  proof (induction k rule: less_induct)
    case (less k)
    show ?case
    proof (cases "k = 0")
      case False
      then obtain p where p: "p < k" "ImportNew k \<in> set (rg_imports (wk_registry w) ! p)" using up [OF less(2)] j0 by auto
      then have "(p, k) \<in> import_edges (wk_registry w)" using less(2) D(1) by (simp add: import_edges_def imports_of_def)
      moreover have "(0, p) \<in> (import_edges (wk_registry w))\<^sup>*" using less p(1) by simp
      ultimately show ?thesis by (rule rtrancl_into_rtrancl [rotated])
    qed simp
  qed
qed

section \<open>Registration\<close>

text \<open>
  Registration ends. When the modules an application can reach have finitely many identities
  (type, qualifier and configuration), a walk bounded by their number returns a registry, an import
  cycle and a module importing itself included.
\<close>

lemma register_all_total:
  assumes "finite C" and "\<forall>m. canon (mm_identity (mods m)) \<in> C" and "card C \<le> fuel"
  shows "\<exists>r. register_all fuel mods root plan = Some r"
proof -
  have "card (unregistered C walk_new) \<le> fuel" using assms(3) by (simp add: unregistered_def walk_new_def)
  then obtain t w where "walk_reach fuel mods None plan root SiteRoot walk_new = Some (t, w)"
    using walk_total(1) [OF assms(1) _ walk_inv_new] assms(2) by blast
  then show ?thesis using collection_order_total by (auto simp: register_all_def walk_finish_def)
qed

text \<open>
  An application of two modules that import each other, the second also importing itself.
\<close>

definition sample_identity :: "string \<Rightarrow> module_identity" where
  "sample_identity n = \<lparr>mi_ty = RustType 0 n, mi_config = None, mi_qualifier = None, mi_label = None\<rparr>"

definition sample_mods :: "nat \<Rightarrow> module_impl" where
  "sample_mods m =
     (if m = 0 then
        \<lparr>mm_identity = sample_identity ''Root'', mm_settings = settings_new,
         mm_register = (\<lambda>n. n\<lparr>nd_imports := nd_imports n @ [\<lparr>im_module = 1, im_at = (''a'', 1, 1)\<rparr>]\<rparr>)\<rparr>
      else
        \<lparr>mm_identity = sample_identity ''Leaf'', mm_settings = settings_new,
         mm_register = (\<lambda>n. n\<lparr>nd_imports := nd_imports n @ [\<lparr>im_module = 0, im_at = (''b'', 1, 1)\<rparr>,
            \<lparr>im_module = 1, im_at = (''b'', 2, 1)\<rparr>]\<rparr>)\<rparr>)"

lemma register_all_total_example:
  "finite {canon (sample_identity ''Root''), canon (sample_identity ''Leaf'')} \<and>
   (\<forall>m. canon (mm_identity (sample_mods m)) \<in> {canon (sample_identity ''Root''), canon (sample_identity ''Leaf'')}) \<and>
   (\<exists>r. register_all 2 sample_mods 0 [] = Some r)"
proof -
  let ?C = "{canon (sample_identity ''Root''), canon (sample_identity ''Leaf'')}"
  have ids: "\<forall>m. canon (mm_identity (sample_mods m)) \<in> ?C" by (simp add: sample_mods_def)
  have "card ?C \<le> 2" by (simp add: card_insert_if)
  then show ?thesis using register_all_total [of ?C sample_mods 2 0 "[]"] ids by simp
qed

lemma register_all_sample: "map_option (\<lambda>r. (rg_imports r, rg_post_order r, rg_self_imports r)) (register_all 2 sample_mods 0 [])
    = Some ([[ImportNew 1], [ImportNew 0, ImportNew 1]], [1, 0], [1])"
  by code_simp

text \<open>
  C9. Registration runs a module's \<open>register\<close> once per identity. In the registry \<open>register_all\<close> returns,
  the identity table numbers the nodes in the order they were claimed and holds no two equal identities;
  each node is what \<open>register\<close> of a module with its identity made of a fresh node, its imports taken out,
  and the node's import list names, in the order written, the node of each imported module's identity, or
  of the module a test replaced it with.
\<close>

theorem register_all_once:
  assumes "register_all fuel mods root plan = Some r"
  shows "map snd (rg_by_identity r) = [0..<length (rg_nodes r)] \<and>
    sorted_wrt (\<lambda>a b. \<not> identity_eq (fst a) (fst b)) (rg_by_identity r) \<and>
    length (rg_imports r) = length (rg_nodes r) \<and> (\<forall>k < length (rg_nodes r). node_ok mods None plan r k)"
proof -
  obtain t w where w: "reach_post mods None plan walk_new root t w" "r = (wk_registry w)\<lparr>rg_post_order := rg_post_order r\<rparr>"
    using assms by (rule register_all_walk)
  have inv: "walk_inv mods None plan w" and path: "wk_path w = []"
    using w(1) by (auto simp: reach_post_def grows_def Let_def walk_new_def)
  note D = walk_invD [OF inv]
  have eqs: "rg_nodes r = rg_nodes (wk_registry w)" "rg_by_identity r = rg_by_identity (wk_registry w)"
    "rg_imports r = rg_imports (wk_registry w)" by (subst w(2), simp)+
  have "node_ok mods None plan r k" if "k < length (rg_nodes r)" for k
    using D(6) [of k] that path node_ok_cong [OF eqs(1,2)] eqs by simp
  then show ?thesis using D(1,2,4) eqs by (simp add: same_identities_def)
qed

text \<open>
  C10. The collection order of a registered application is a permutation of its modules with the root,
  node 0, last: the walk registers nothing the root's imports do not reach.
\<close>

theorem register_all_places_every_module:
  assumes "register_all fuel mods root plan = Some r"
  shows "distinct (rg_post_order r) \<and> set (rg_post_order r) = {..<length (rg_nodes r)} \<and> last (rg_post_order r) = 0"
proof -
  obtain t w where w: "reach_post mods None plan walk_new root t w" "r = (wk_registry w)\<lparr>rg_post_order := rg_post_order r\<rparr>"
    "collection_order (wk_registry w) = Some (rg_post_order r)"
    using assms by (rule register_all_walk)
  have nodes: "rg_nodes r = rg_nodes (wk_registry w)" by (subst w(2), simp)
  note R = root_reaches_all [OF w(1)]
  obtain order where o: "collection_order (wk_registry w) = Some order" "distinct order" "last order = 0"
    "set order = {v. v < length (rg_nodes (wk_registry w)) \<and> (0, v) \<in> (import_edges (wk_registry w))\<^sup>*}"
    using collection_order_result [OF R(2)] by metis
  then show ?thesis using w(3) nodes R(3) by auto
qed

theorem register_all_once_witness:
  "\<exists>r. register_all 2 sample_mods 0 [] = Some r \<and> map snd (rg_by_identity r) = [0..<length (rg_nodes r)] \<and>
    sorted_wrt (\<lambda>a b. \<not> identity_eq (fst a) (fst b)) (rg_by_identity r) \<and>
    length (rg_imports r) = length (rg_nodes r) \<and> (\<forall>k < length (rg_nodes r). node_ok sample_mods None [] r k)"
proof -
  obtain r where r: "register_all 2 sample_mods 0 [] = Some r" using register_all_sample by auto
  show ?thesis using r register_all_once [OF r] by blast
qed

theorem register_all_places_every_module_witness:
  "\<exists>r. register_all 2 sample_mods 0 [] = Some r \<and> distinct (rg_post_order r) \<and>
    set (rg_post_order r) = {..<length (rg_nodes r)} \<and> last (rg_post_order r) = 0"
proof -
  obtain r where r: "register_all 2 sample_mods 0 [] = Some r" using register_all_sample by auto
  show ?thesis using r register_all_places_every_module [OF r] by blast
qed

section \<open>Names\<close>

definition base_counts :: "graph option \<Rightarrow> ((rust_type \<times> rust_type option) \<times> nat) list" where
  "base_counts base = (case base of None \<Rightarrow> [] | Some g \<Rightarrow> fold (\<lambda>m. count_module (fm_identity m)) (g_modules g) [])"

definition base_identities :: "graph option \<Rightarrow> module_identity list" where
  "base_identities base = (case base of None \<Rightarrow> [] | Some g \<Rightarrow> map fm_identity (g_modules g))"

lemma count_of_count_module:
  "count_of (count_module i counts) k = count_of counts k + (if k = identity_kind i then 1 else 0)"
  by (simp add: count_of_def count_module_def update_conv')

lemma count_of_fold:
  "count_of (fold count_module is counts) k = count_of counts k + length (filter (\<lambda>i. identity_kind i = k) is)"
  by (induction "is" arbitrary: counts) (auto simp: count_of_count_module)

lemma count_of_base: "count_of (base_counts base) k = length (filter (\<lambda>i. identity_kind i = k) (base_identities base))"
proof (cases base)
  case (Some g)
  have "fold (\<lambda>m. count_module (fm_identity m)) (g_modules g) [] = fold count_module (map fm_identity (g_modules g)) []"
    by (simp add: fold_map comp_def)
  then show ?thesis using Some count_of_fold [of "map fm_identity (g_modules g)" "[]" k]
    by (simp add: base_counts_def base_identities_def count_of_def)
qed (simp add: base_counts_def base_identities_def count_of_def)

lemma name_node_pair:
  "name_node r k (counts, names) =
     (count_module (nd_identity (rg_nodes r ! k)) counts,
      names[k := Some (module_name_of (nd_identity (rg_nodes r ! k)) (count_of counts (identity_kind (nd_identity (rg_nodes r ! k)))))])"
  by (simp add: name_node_def Let_def)

lemma name_nodes_counts:
  "fst (fold (name_node r) order (counts, names)) = fold count_module (map (\<lambda>k. nd_identity (rg_nodes r ! k)) order) counts"
  by (induction order arbitrary: counts names) (simp_all add: name_node_pair)

lemma name_nodes_length: "length (snd (fold (name_node r) order (counts, names))) = length names"
  by (induction order arbitrary: counts names) (simp_all add: name_node_pair)

lemma name_nodes_other:
  "k \<notin> set order \<Longrightarrow> snd (fold (name_node r) order (counts, names)) ! k = names ! k"
  by (induction order arbitrary: counts names) (simp_all add: name_node_pair)

lemma name_nodes_at:
  assumes "distinct order" "i < length order" "order ! i < length names"
  shows "snd (fold (name_node r) order (counts, names)) ! (order ! i) =
    Some (module_name_of (nd_identity (rg_nodes r ! (order ! i)))
      (count_of counts (identity_kind (nd_identity (rg_nodes r ! (order ! i)))) +
       length (filter (\<lambda>k. identity_kind (nd_identity (rg_nodes r ! k)) = identity_kind (nd_identity (rg_nodes r ! (order ! i))))
         (take i order))))"
  using assms
proof (induction order arbitrary: i counts names)
  case (Cons a order)
  show ?case
  proof (cases i)
    case 0 then show ?thesis using Cons.prems by (simp add: name_node_pair name_nodes_other)
  next
    case (Suc j)
    then show ?thesis using Cons.prems Cons.IH [of j] by (simp add: name_node_pair count_of_count_module)
  qed
qed simp

text \<open>
  A module's diagnostic name carries its number among the modules of its type and qualifier: those
  of the frozen graph first, then those before it in collection order.
\<close>

lemma registry_names_numbered:
  assumes "distinct (rg_post_order r)" and "i < length (rg_post_order r)" and "rg_post_order r ! i < length (rg_nodes r)"
  shows "registry_names r base ! (rg_post_order r ! i) =
    (let at = (\<lambda>k. nd_identity (rg_nodes r ! k)); kind = identity_kind (at (rg_post_order r ! i))
     in module_name_of (at (rg_post_order r ! i))
          (length (filter (\<lambda>j. identity_kind j = kind) (base_identities base @ map at (take i (rg_post_order r))))))"
proof -
  have counts: "(case base of None \<Rightarrow> [] | Some g \<Rightarrow> fold (\<lambda>m. count_module (fm_identity m)) (g_modules g) []) = base_counts base"
    by (simp add: base_counts_def)
  show ?thesis
    unfolding registry_names_def counts using assms
    by (simp add: Let_def split_beta name_nodes_length name_nodes_at count_of_base filter_map comp_def)
qed

lemma registry_names_example:
  "distinct (rg_post_order (sample_registry\<lparr>rg_post_order := [2, 1, 0]\<rparr>)) \<and>
   registry_names (sample_registry\<lparr>rg_post_order := [2, 1, 0]\<rparr>) None ! 1 =
     module_name_of \<lparr>mi_ty = unit_type, mi_config = None, mi_qualifier = None, mi_label = None\<rparr> 1"
proof -
  let ?r = "sample_registry\<lparr>rg_post_order := [2, 1, 0]\<rparr>"
  have nodes: "rg_nodes ?r = replicate 3 (module_node_new \<lparr>mi_ty = unit_type, mi_config = None, mi_qualifier = None, mi_label = None\<rparr>)"
    by (simp add: sample_registry_def Let_def eval_nat_numeral)
  show ?thesis using registry_names_numbered [of ?r 1 None] nodes
    by (simp add: Let_def base_identities_def module_node_new_def)
qed

end
