(* ===== verification/Visibility_Laws.thy ===== *)
theory Visibility_Laws
  imports Visibility
begin

text \<open>
  What the visibility tables and the resolution of injection points establish: the table a module gets
  agrees with the sources computed for a single key, the rounds over re-exports end with every re-export
  resolved that has exactly one source, and the dependency check reports nothing exactly when every
  injection point resolves.
\<close>

section \<open>A table holds what each key's sources say\<close>

definition source_list :: "source_map \<Rightarrow> key \<Rightarrow> (nat \<times> nat) list" where
  "source_list t k = (case map_of t k of Some l \<Rightarrow> l | None \<Rightarrow> [])"

abbreviation binds_key :: "graph \<Rightarrow> key \<Rightarrow> nat \<Rightarrow> bool" where
  "binds_key g k b \<equiv> br_kind (fb_record (binding g b)) = BK_Single \<and> k \<in> set (record_keys (fb_record (binding g b)))"

lemma own_binding_find: "own_binding g m k = find (binds_key g k) (fm_bindings (gmodule g m))"
  by (simp add: own_binding_def Let_def)

lemma map_of_snoc_new: "map_of t k = None \<Longrightarrow> map_of (t @ [(k, v)]) k' = (if k' = k then Some v else map_of t k')"
  by (auto simp: map_add_def split: option.splits)

lemma map_of_entry_own:
  "map_of (fold (entry_own m b) ks t) k =
     (case map_of t k of Some l \<Rightarrow> Some l | None \<Rightarrow> if k \<in> set ks then Some [(m, b)] else None)"
  by (induction ks arbitrary: t) (auto simp: entry_own_def map_of_snoc_new split: option.splits)

lemma map_of_add_own:
  "map_of (fold (add_own g m) bs t) k =
     (case map_of t k of Some l \<Rightarrow> Some l | None \<Rightarrow> map_option (\<lambda>b. [(m, b)]) (find (binds_key g k) bs))"
proof (induction bs arbitrary: t)
  case (Cons b bs)
  show ?case unfolding fold_simps comp_apply Cons.IH
    by (auto simp: add_own_def Let_def map_of_entry_own split: option.splits)
qed (auto split: option.splits)

lemma add_source_nonempty [simp]: "add_source e b l \<noteq> []"
  by (cases l) (auto simp: add_source_def)

lemma source_list_add_export:
  "source_list (add_export e x t) k = (if fst x = k then add_source e (snd x) (source_list t k) else source_list t k)"
  by (auto simp: source_list_def add_export_def Let_def update_conv' split: option.splits)

lemma source_list_exports:
  "source_list (fold (add_export e) xs t) k =
     fold (\<lambda>(exported, b) found. if exported = k then add_source e b found else found) xs (source_list t k)"
  by (induction xs arbitrary: t) (auto simp: source_list_add_export)

lemma source_list_exporters:
  "source_list (fold (\<lambda>e. fold (add_export e) (f e)) es t) k =
     fold (\<lambda>e. fold (\<lambda>(exported, b) found. if exported = k then add_source e b found else found) (f e)) es (source_list t k)"
  by (induction es arbitrary: t) (auto simp: source_list_exports)

lemma source_list_table: "source_list (table_sources g m) k = sources g m k"
  unfolding table_sources_def sources_def source_list_exporters
  by (rule arg_cong [where f = "fold _ _"]) (auto simp: source_list_def map_of_add_own own_binding_find split: option.splits)

definition all_sourced :: "source_map \<Rightarrow> bool" where
  "all_sourced t = (\<forall>k. map_of t k \<noteq> Some [])"

lemma all_sourced_export: "all_sourced t \<Longrightarrow> all_sourced (add_export e x t)"
  by (simp add: all_sourced_def add_export_def Let_def update_conv')

lemma all_sourced_exports: "all_sourced t \<Longrightarrow> all_sourced (fold (add_export e) xs t)"
  by (induction xs arbitrary: t) (simp_all add: all_sourced_export)

lemma all_sourced_exporters: "all_sourced t \<Longrightarrow> all_sourced (fold (\<lambda>e. fold (add_export e) (f e)) es t)"
  by (induction es arbitrary: t) (simp_all add: all_sourced_exports)

lemma table_sources_nonempty: "map_of (table_sources g m) k \<noteq> Some []"
proof -
  have "all_sourced (fold (add_own g m) (fm_bindings (gmodule g m)) [])"
    by (simp add: all_sourced_def map_of_add_own)
  then show ?thesis using all_sourced_exporters unfolding table_sources_def all_sourced_def by blast
qed

lemma map_of_table_sources:
  "map_of (table_sources g m) k = (if sources g m k = [] then None else Some (sources g m k))"
  using source_list_table [of g m k] table_sources_nonempty [of g m k]
  by (cases "map_of (table_sources g m) k") (auto simp: source_list_def)

lemma map_of_entry_input:
  "map_of (fold entry_input ks t) k =
     (case map_of t k of Some v \<Rightarrow> Some v | None \<Rightarrow> if k \<in> set ks then Some (VisInput k) else None)"
  by (induction ks arbitrary: t) (auto simp: entry_input_def map_of_snoc_new split: option.splits)

text \<open>What a module sees under a key: its sources, one or several, and below them an execution input.\<close>

definition seen_by :: "graph \<Rightarrow> nat \<Rightarrow> key \<Rightarrow> visible option" where
  "seen_by g m k =
     (case sources g m k of
        [] \<Rightarrow> if k \<in> fst ` set (g_inputs g) then Some (VisInput k) else None
      | [(_, b)] \<Rightarrow> Some (VisBinding b)
      | several \<Rightarrow> Some (VisAmbiguous several))"

lemma map_of_table_for: "map_of (table_for g m) k = seen_by g m k"
proof -
  have "map_of (map (\<lambda>(k, list). (k, visible_of list)) t) k = map_option visible_of (map_of t k)" for t :: source_map
    by (induction t) auto
  then show ?thesis unfolding table_for_def map_of_entry_input
    by (auto simp: seen_by_def map_of_table_sources visible_of_def split: list.splits option.splits)
qed

section \<open>The numbers a table holds name bindings of the graph\<close>

definition wf_modules :: "graph \<Rightarrow> bool" where
  "wf_modules g \<longleftrightarrow> (\<forall>i < length (g_modules g).
     fm_id (gmodule g i) = i \<and> (\<forall>m \<in> set (fm_imports (gmodule g i)). m < length (g_modules g)) \<and>
     (\<forall>b \<in> set (fm_bindings (gmodule g i)). b < binding_count g))"

definition wf_exported :: "graph \<Rightarrow> bool" where
  "wf_exported g \<longleftrightarrow> (\<forall>l \<in> set (g_exported g). \<forall>x \<in> set l. snd x < binding_count g)"

lemma own_binding_range:
  assumes "wf_modules g" "m < length (g_modules g)" "own_binding g m k = Some b"
  shows "b < binding_count g"
proof -
  have "b \<in> set (fm_bindings (gmodule g m))" using assms(3) by (auto simp: own_binding_find find_Some_iff)
  then show ?thesis using assms(1,2) by (simp add: wf_modules_def)
qed

lemma exporters_range:
  assumes "wf_modules g" "m < length (g_modules g)" "e \<in> set (exporters g m)"
  shows "e < length (g_modules g)"
proof -
  have "fm_id x < length (g_modules g)" if x: "x \<in> set (g_modules g)" for x
  proof -
    obtain i where i: "i < length (g_modules g)" "g_modules g ! i = x" using x by (meson in_set_conv_nth)
    then have "fm_id (gmodule g i) = i" using assms(1) by (simp add: wf_modules_def)
    then show ?thesis using i by (simp add: gmodule_def)
  qed
  then show ?thesis using assms by (auto simp: exporters_def wf_modules_def)
qed

lemma fold_add_source_set:
  "set (fold (\<lambda>(exported, b) found. if exported = k then add_source e b found else found) xs l) \<subseteq>
     set l \<union> {(e, b) | b. (k, b) \<in> set xs}"
  by (induction xs arbitrary: l) (fastforce simp: add_source_def split: if_splits)+

lemma fold_exporters_set:
  "set (fold (\<lambda>e. fold (\<lambda>(exported, b) found. if exported = k then add_source e b found else found) (f e)) es l) \<subseteq>
     set l \<union> {(e, b) | e b. e \<in> set es \<and> (k, b) \<in> set (f e)}"
proof (induction es arbitrary: l)
  case (Cons e es)
  show ?case using Cons.IH [of "fold (\<lambda>(exported, b) found. if exported = k then add_source e b found else found) (f e) l"]
      fold_add_source_set [of k e "f e" l] by fastforce
qed simp

lemma sources_set:
  "set (sources g m k) \<subseteq>
     {(m, b) | b. own_binding g m k = Some b} \<union> {(e, b) | e b. e \<in> set (exporters g m) \<and> (k, b) \<in> set (g_exported g ! e)}"
  unfolding sources_def using fold_exporters_set [of k "\<lambda>e. g_exported g ! e" "exporters g m"]
  by (fastforce split: option.splits)

lemma sources_range:
  assumes wf: "wf_modules g" "wf_exported g" "length (g_exported g) = length (g_modules g)"
    and m: "m < length (g_modules g)" and x: "(e, b) \<in> set (sources g m k)"
  shows "e < length (g_modules g) \<and> b < binding_count g"
proof -
  consider "e = m" "own_binding g m k = Some b" | "e \<in> set (exporters g m)" "(k, b) \<in> set (g_exported g ! e)"
    using sources_set x by blast
  then show ?thesis
  proof cases
    case 1 then show ?thesis using own_binding_range [OF wf(1) m] m by simp
  next
    case 2
    have e: "e < length (g_modules g)" using exporters_range [OF wf(1) m 2(1)] .
    then have "g_exported g ! e \<in> set (g_exported g)" using wf(3) by simp
    then show ?thesis using e 2(2) wf(2) unfolding wf_exported_def by fastforce
  qed
qed

lemma seen_by_range:
  assumes "wf_modules g" "wf_exported g" "length (g_exported g) = length (g_modules g)"
    and "m < length (g_modules g)" and "seen_by g m k = Some v"
  shows "wf_visible g v"
proof -
  note range = sources_range [OF assms(1-4)]
  show ?thesis
  proof (cases "sources g m k")
    case Nil then show ?thesis using assms(5) by (auto simp: seen_by_def wf_visible_def split: if_splits)
  next
    case (Cons x xs)
    have "\<forall>(e, b) \<in> set (x # xs). e < length (g_modules g) \<and> b < binding_count g" unfolding Cons [symmetric] using range by blast
    then show ?thesis using assms(5) Cons
      by (cases xs) (auto simp: seen_by_def wf_visible_def list_all_iff split: prod.splits)
  qed
qed

section \<open>The rounds over re-exports\<close>

definition exports_only :: "graph \<Rightarrow> graph \<Rightarrow> bool" where
  "exports_only g g' \<longleftrightarrow> (\<exists>xs. g' = g\<lparr>g_exported := xs\<rparr> \<and> length xs = length (g_exported g))"

definition exported_as :: "graph \<Rightarrow> nat \<times> export_record \<Rightarrow> bool" where
  "exported_as g = (\<lambda>(m, e). boundary_key (fm_keyed (gmodule g m)) (ex_key e) \<in> fst ` set (g_exported g ! m))"

lemma exports_only_refl [simp]: "exports_only g g"
  unfolding exports_only_def by (rule exI [of _ "g_exported g"]) simp

lemma exports_only_push: "exports_only g g' \<Longrightarrow> exports_only g (push_exported x g')"
  by (cases x) (auto simp: exports_only_def push_exported_def)

lemma exports_only_pushes: "exports_only g g' \<Longrightarrow> exports_only g (fold push_exported xs g')"
  by (induction xs arbitrary: g') (simp_all add: exports_only_push)

lemma exports_only_eqs:
  assumes "exports_only g g'"
  shows "g_modules g' = g_modules g" "g_bindings g' = g_bindings g" "g_inputs g' = g_inputs g" "g_visibility g' = g_visibility g"
    "g_collections g' = g_collections g" "g_handlers g' = g_handlers g" "g_root g' = g_root g"
    "length (g_exported g') = length (g_exported g)" "gmodule g' = gmodule g" "binding g' = binding g"
proof -
  obtain xs where eq: "g' = g\<lparr>g_exported := xs\<rparr>" "length xs = length (g_exported g)" using assms by (auto simp: exports_only_def)
  show "g_modules g' = g_modules g" "g_bindings g' = g_bindings g" "g_inputs g' = g_inputs g" "g_visibility g' = g_visibility g"
    "g_collections g' = g_collections g" "g_handlers g' = g_handlers g" "g_root g' = g_root g" by (simp_all add: eq)
  then show "gmodule g' = gmodule g" "binding g' = binding g" by (simp_all add: gmodule_def binding_def fun_eq_iff)
  show "length (g_exported g') = length (g_exported g)" by (simp add: eq)
qed

lemma pushes_exported:
  "set (g_exported g ! m) \<subseteq> set (g_exported (fold push_exported xs g) ! m)"
  "m < length (g_exported g) \<Longrightarrow> (m, k, b) \<in> set xs \<Longrightarrow> (k, b) \<in> set (g_exported (fold push_exported xs g) ! m)"
proof -
  have mono: "set (g_exported g ! m) \<subseteq> set (g_exported (push_exported x g) ! m)" for g x m
  proof (cases x)
    case (fields a k b)
    show ?thesis
    proof (cases "a = m \<and> m < length (g_exported g)")
      case True then show ?thesis by (auto simp: fields push_exported_def)
    next
      case False then show ?thesis by (cases "a = m") (simp_all add: fields push_exported_def list_update_beyond not_less)
    qed
  qed
  show sub: "set (g_exported g ! m) \<subseteq> set (g_exported (fold push_exported xs g) ! m)" for g xs
  proof (induction xs arbitrary: g)
    case (Cons x xs) show ?case using mono [of g m x] Cons.IH [of "push_exported x g"] by simp
  qed simp
  show "m < length (g_exported g) \<Longrightarrow> (m, k, b) \<in> set xs \<Longrightarrow> (k, b) \<in> set (g_exported (fold push_exported xs g) ! m)"
  proof (induction xs arbitrary: g)
    case (Cons x xs)
    have len: "m < length (g_exported (push_exported x g))" using Cons.prems(1) by (cases x) (simp add: push_exported_def)
    show ?case
    proof (cases "x = (m, k, b)")
      case True
      then have "(k, b) \<in> set (g_exported (push_exported x g) ! m)" using Cons.prems(1) by (simp add: push_exported_def)
      then show ?thesis using sub [of "push_exported x g" xs] by auto
    next
      case False then show ?thesis using Cons.IH [OF len] Cons.prems(2) by simp
    qed
  qed simp
qed

lemma reexport_source_Some:
  "reexport_source g (m, e) = Some (m', k, b) \<Longrightarrow>
     m' = m \<and> k = boundary_key (fm_keyed (gmodule g m)) (ex_key e) \<and> (\<exists>x. sources g m (ex_key e) = [(x, b)])"
  by (auto simp: reexport_source_def split: list.splits)

lemma reexport_source_None: "reexport_source g (m, e) = None \<longleftrightarrow> length (sources g m (ex_key e)) \<noteq> 1"
  by (auto simp: reexport_source_def length_Suc_conv split: list.splits)

definition rounds_inv :: "graph \<Rightarrow> (nat \<times> export_record) list \<Rightarrow> graph \<times> (nat \<times> export_record) list \<Rightarrow> bool" where
  "rounds_inv g all = (\<lambda>(g', pending). exports_only g g' \<and> set pending \<subseteq> set all \<and>
     (\<forall>x \<in> set all. x \<in> set pending \<or> exported_as g' x) \<and> (wf_exported g \<and> wf_modules g \<longrightarrow> wf_exported g'))"

lemma wf_exported_push:
  "wf_exported g \<Longrightarrow> b < binding_count g \<Longrightarrow> wf_exported (push_exported (m, k, b) g)"
proof (cases "m < length (g_exported g)")
  case True
  assume wf: "wf_exported g" and b: "b < binding_count g"
  have "snd x < binding_count g" if l: "l \<in> set ((g_exported g)[m := g_exported g ! m @ [(k, b)]])" and x: "x \<in> set l" for l x
  proof -
    have "l = g_exported g ! m @ [(k, b)] \<or> l \<in> set (g_exported g)" using l set_update_subset_insert by fastforce
    moreover have "g_exported g ! m \<in> set (g_exported g)" using True by simp
    ultimately show ?thesis using wf b x unfolding wf_exported_def by fastforce
  qed
  then show ?thesis by (simp add: wf_exported_def push_exported_def)
next
  case False
  then show "wf_exported g \<Longrightarrow> ?thesis" by (simp add: wf_exported_def push_exported_def list_update_beyond not_less)
qed

lemma wf_exported_pushes:
  "wf_exported g \<Longrightarrow> (\<And>m k b. (m, k, b) \<in> set xs \<Longrightarrow> b < binding_count g) \<Longrightarrow> wf_exported (fold push_exported xs g)"
proof (induction xs arbitrary: g)
  case (Cons x xs)
  obtain m k b where x: "x = (m, k, b)" by (cases x)
  have "wf_exported (push_exported x g)" using Cons.prems wf_exported_push x by fastforce
  moreover have "\<And>m' k' b'. (m', k', b') \<in> set xs \<Longrightarrow> b' < binding_count (push_exported x g)"
    using Cons.prems(2) exports_only_eqs(2) [OF exports_only_push [OF exports_only_refl], of x g] by (metis list.set_intros(2))
  ultimately show ?case using Cons.IH by simp
qed simp

lemma sources_cong:
  "g_modules g' = g_modules g \<Longrightarrow> g_bindings g' = g_bindings g \<Longrightarrow> g_exported g' = g_exported g \<Longrightarrow> sources g' m k = sources g m k"
  by (simp add: sources_def exporters_def own_binding_def gmodule_def binding_def)

lemma seen_by_cong:
  assumes "g_modules g' = g_modules g" "g_bindings g' = g_bindings g" "g_exported g' = g_exported g" "g_inputs g' = g_inputs g"
  shows "seen_by g' m k = seen_by g m k"
  unfolding seen_by_def sources_cong [OF assms(1-3)] assms(4) ..

lemma rounds_inv_step:
  assumes inv: "rounds_inv g all (g', pending)" and len: "length (g_exported g) = length (g_modules g)"
    and all: "\<forall>x \<in> set all. fst x < length (g_modules g)"
  shows "rounds_inv g all (round_step (g', pending))"
proof -
  have only: "exports_only g g'" and sub: "set pending \<subseteq> set all"
    and cov: "\<forall>x \<in> set all. x \<in> set pending \<or> exported_as g' x" and wf: "wf_exported g \<and> wf_modules g \<longrightarrow> wf_exported g'"
    using inv by (simp_all add: rounds_inv_def)
  let ?h = "fold push_exported (round_resolved g' pending) g'"
  note eqs = exports_only_eqs [OF only]
  have only': "exports_only g ?h" using exports_only_pushes [OF only] .
  have eqs': "gmodule ?h = gmodule g'" using exports_only_eqs(9) [OF only'] eqs(9) by simp
  have placed: "exported_as ?h (m, e)" if x: "(m, e) \<in> set all" and gone: "(m, e) \<notin> set (filter (\<lambda>e. reexport_source g' e = None) pending)" for m e
  proof (cases "exported_as g' (m, e)")
    case True then show ?thesis using pushes_exported(1) [of g' m] eqs' by (auto simp: exported_as_def)
  next
    case False
    then have p: "(m, e) \<in> set pending" using cov x by blast
    then obtain r where r: "reexport_source g' (m, e) = Some r" using gone by auto
    obtain m' k b where rr: "r = (m', k, b)" by (cases r)
    note rs = reexport_source_Some [OF r [unfolded rr]]
    have "(m, k, b) \<in> set (round_resolved g' pending)" using p r rr rs by (auto simp: round_resolved_def map_filter_set)
    moreover have "m < length (g_exported g')" using all x len eqs(8) by auto
    ultimately have "(k, b) \<in> set (g_exported ?h ! m)" by (rule pushes_exported(2) [rotated])
    then show ?thesis using rs eqs' by (force simp: exported_as_def)
  qed
  have wf': "wf_exported ?h" if w: "wf_exported g \<and> wf_modules g"
  proof (rule wf_exported_pushes)
    show "wf_exported g'" using wf w by blast
    fix m k b assume "(m, k, b) \<in> set (round_resolved g' pending)"
    then obtain e where e: "(m, e) \<in> set pending" "reexport_source g' (m, e) = Some (m, k, b)"
      by (auto simp: round_resolved_def map_filter_set dest: reexport_source_Some)
    then obtain x where "sources g' m (ex_key e) = [(x, b)]" using reexport_source_Some by blast
    moreover have "wf_modules g'" using w eqs by (simp add: wf_modules_def)
    moreover have "m < length (g_modules g')" using all subsetD [OF sub e(1)] eqs(1) by auto
    ultimately show "b < binding_count g'"
      using sources_range [of g' m x b "ex_key e"] wf w len eqs by simp
  qed
  have cov': "\<forall>x \<in> set all. x \<in> set (filter (\<lambda>e. reexport_source g' e = None) pending) \<or> exported_as ?h x"
  proof
    fix x assume x: "x \<in> set all"
    obtain m e where xx: "x = (m, e)" by (cases x)
    show "x \<in> set (filter (\<lambda>e. reexport_source g' e = None) pending) \<or> exported_as ?h x"
      using placed [OF x [unfolded xx]] unfolding xx by blast
  qed
  have sub': "set (filter (\<lambda>e. reexport_source g' e = None) pending) \<subseteq> set all" using sub by auto
  show ?thesis unfolding rounds_inv_def round_step_def prod.case using only' sub' cov' wf' by blast
qed

lemma round_step_dec:
  assumes "round_resolved g pending \<noteq> []"
  shows "length (snd (round_step (g, pending))) < length pending"
proof -
  obtain e where "e \<in> set pending" "reexport_source g e \<noteq> None"
  proof (rule ccontr)
    assume "\<not> thesis"
    then have "\<forall>e \<in> set pending. reexport_source g e = None" using that by blast
    then have "set (round_resolved g pending) = {}" by (auto simp: round_resolved_def map_filter_set)
    then show False using assms by simp
  qed
  then show ?thesis by (simp add: round_step_def length_filter_less)
qed

lemma rounds_result:
  assumes "length (g_exported g) = length (g_modules g)" "\<forall>x \<in> set all. fst x < length (g_modules g)"
  obtains g' pending where "while_option (\<lambda>(g, pending). round_resolved g pending \<noteq> []) round_step (g, all) = Some (g', pending)"
    "rounds_inv g all (g', pending)" "round_resolved g' pending = []"
proof -
  have init: "rounds_inv g all (g, all)" by (simp add: rounds_inv_def)
  have keep: "rounds_inv g all (round_step s)" if "rounds_inv g all s" for s
    using rounds_inv_step [OF _ assms] that by (cases s) blast
  have dec: "length (snd (round_step s)) < length (snd s) \<or> length (snd (round_step s)) = length (snd s) \<and> (0::nat) < 0"
    if "case s of (g, pending) \<Rightarrow> round_resolved g pending \<noteq> []" for s
    using that round_step_dec by (cases s) auto
  obtain s where "while_option (\<lambda>(g, pending). round_resolved g pending \<noteq> []) round_step (g, all) = Some s"
    "rounds_inv g all s" "\<not> (case s of (g, pending) \<Rightarrow> round_resolved g pending \<noteq> [])"
    by (rule while_option_measure2 [of "rounds_inv g all" "(g, all)" "\<lambda>(g, pending). round_resolved g pending \<noteq> []" round_step
          "\<lambda>s. length (snd s)" "\<lambda>_. 0", OF init keep dec])
  then show thesis using that by (cases s) auto
qed

section \<open>The tables built\<close>

lemma own_binding_cong:
  "g_modules g' = g_modules g \<Longrightarrow> g_bindings g' = g_bindings g \<Longrightarrow> own_binding g' m k = own_binding g m k"
  by (simp add: own_binding_def gmodule_def binding_def)

lemma export_own_only: "exports_only g g' \<Longrightarrow> exports_only g (export_own x g')"
  by (cases x) (auto simp: export_own_def exports_only_push split: option.splits)

lemma export_owns_only: "exports_only g g' \<Longrightarrow> exports_only g (fold export_own xs g')"
  by (induction xs arbitrary: g') (simp_all add: export_own_only)

lemma export_owns_wf:
  "exports_only g g' \<Longrightarrow> wf_modules g \<Longrightarrow> wf_exported g' \<Longrightarrow> (\<forall>x \<in> set xs. fst x < length (g_modules g)) \<Longrightarrow>
     wf_exported (fold export_own xs g')"
proof (induction xs arbitrary: g')
  case (Cons x xs)
  obtain m e where x: "x = (m, e)" by (cases x)
  note eqs = exports_only_eqs [OF Cons.prems(1)]
  have "wf_exported (export_own x g')"
  proof (cases "own_binding g' m (ex_key e)")
    case None then show ?thesis using Cons.prems(3) x by (simp add: export_own_def)
  next
    case (Some b)
    then have own: "own_binding g m (ex_key e) = Some b" using own_binding_cong [OF eqs(1,2)] by simp
    have "b < binding_count g" using Cons.prems(4) x by (intro own_binding_range [OF Cons.prems(2) _ own]) simp
    then show ?thesis using wf_exported_push [OF Cons.prems(3)] Some x eqs(2) by (simp add: export_own_def)
  qed
  then show ?case using Cons.IH [OF export_own_only [OF Cons.prems(1)] Cons.prems(2)] Cons.prems(4) by simp
qed simp

lemma entry_own_distinct: "distinct (map fst t) \<Longrightarrow> distinct (map fst (entry_own m b k t))"
  by (auto simp: entry_own_def map_of_eq_None_iff)

lemma add_own_distinct: "distinct (map fst t) \<Longrightarrow> distinct (map fst (add_own g m b t))"
proof -
  have "distinct (map fst (fold (entry_own m b) ks t))" if "distinct (map fst t)" for ks t
    using that by (induction ks arbitrary: t) (auto intro: entry_own_distinct)
  then show "distinct (map fst t) \<Longrightarrow> distinct (map fst (add_own g m b t))" by (simp add: add_own_def Let_def)
qed

lemma add_exports_distinct: "distinct (map fst t) \<Longrightarrow> distinct (map fst (fold (add_export e) xs t))"
  by (induction xs arbitrary: t) (auto simp: add_export_def Let_def distinct_update)

lemma table_sources_distinct: "distinct (map fst (table_sources g m))"
proof -
  have "distinct (map fst (fold (add_own g m) bs t))" if "distinct (map fst t)" for bs t
    using that by (induction bs arbitrary: t) (auto intro: add_own_distinct)
  moreover have "distinct (map fst (fold (\<lambda>e. fold (add_export e) (f e)) es t))" if "distinct (map fst t)" for f es t
    using that by (induction es arbitrary: t) (auto intro: add_exports_distinct)
  ultimately show ?thesis by (simp add: table_sources_def)
qed

lemma table_for_distinct: "distinct (map fst (table_for g m))"
proof -
  have "distinct (map fst (fold entry_input ks t))" if "distinct (map fst t)" for ks t
    using that by (induction ks arbitrary: t) (auto simp: entry_input_def map_of_eq_None_iff)
  moreover have "fst \<circ> (\<lambda>(k, list). (k, visible_of list)) = (fst :: key \<times> (nat \<times> nat) list \<Rightarrow> key)" by auto
  then have "distinct (map fst (map (\<lambda>(k, list). (k, visible_of list)) (table_sources g m)))"
    unfolding map_map using table_sources_distinct [of g m] by metis
  ultimately show ?thesis by (simp only: table_for_def)
qed

lemma table_for_cong:
  assumes "g_modules g' = g_modules g" "g_bindings g' = g_bindings g" "g_exported g' = g_exported g" "g_inputs g' = g_inputs g"
  shows "table_for g' m = table_for g m"
proof -
  have "gmodule g' = gmodule g" "binding g' = binding g" using assms by (simp_all add: gmodule_def binding_def fun_eq_iff)
  then have "add_own g' = add_own g" "exporters g' = exporters g"
    using assms by (simp_all add: add_own_def exporters_def fun_eq_iff)
  then show ?thesis using assms \<open>gmodule g' = gmodule g\<close> by (simp add: table_for_def table_sources_def)
qed

lemma put_tables:
  assumes "\<forall>m \<in> set ms. m < length (g_visibility g)"
  shows "\<exists>vs. fold put_table ms g = g\<lparr>g_visibility := vs\<rparr> \<and> length vs = length (g_visibility g) \<and>
    (\<forall>m < length vs. vs ! m = (if m \<in> set ms then table_for g m else g_visibility g ! m))"
  using assms
proof (induction ms arbitrary: g)
  case Nil then show ?case by (intro exI [of _ "g_visibility g"]) simp
next
  case (Cons a ms)
  let ?g = "put_table a g"
  have "\<forall>m \<in> set ms. m < length (g_visibility ?g)" using Cons.prems by (simp add: put_table_def)
  then obtain vs where vs: "fold put_table ms ?g = ?g\<lparr>g_visibility := vs\<rparr>" "length vs = length (g_visibility ?g)"
    "\<forall>m < length vs. vs ! m = (if m \<in> set ms then table_for ?g m else g_visibility ?g ! m)"
    using Cons.IH by blast
  have tab: "table_for ?g m = table_for g m" for m by (rule table_for_cong) (simp_all add: put_table_def)
  show ?case
  proof (intro exI [of _ vs] conjI)
    show "fold put_table (a # ms) g = g\<lparr>g_visibility := vs\<rparr>" using vs(1) by (simp add: put_table_def)
    show "length vs = length (g_visibility g)" using vs(2) by (simp add: put_table_def)
    show "\<forall>m < length vs. vs ! m = (if m \<in> set (a # ms) then table_for g m else g_visibility g ! m)"
      using vs(2,3) tab Cons.prems by (auto simp: put_table_def nth_list_update)
  qed
qed

text \<open>What \<open>build_tables\<close> leaves: the graph with its exports and tables filled in.\<close>

lemma build_tables_result:
  assumes exps: "\<forall>x \<in> set (dc_exports d). fst x < length (g_modules g)"
  obtains h where "build_tables g d = Some h"
    "g_modules h = g_modules g" "g_bindings h = g_bindings g" "g_inputs h = g_inputs g" "g_collections h = g_collections g"
    "g_handlers h = g_handlers g" "g_root h = g_root g"
    "length (g_exported h) = length (g_modules g)" "length (g_visibility h) = length (g_modules g)"
    "\<And>m k. dc_first_module d \<le> m \<Longrightarrow> m < length (g_modules g) \<Longrightarrow> lookup h m k = seen_by h m k"
    "\<And>m. m < dc_first_module d \<Longrightarrow> m < length (g_modules g) \<Longrightarrow> m < length (g_visibility g) \<Longrightarrow> g_visibility h ! m = g_visibility g ! m"
    "\<And>m e. (m, e) \<in> set (dc_exports d) \<Longrightarrow> ex_reexport e \<Longrightarrow> exported_as h (m, e) \<or> length (sources h m (ex_key e)) \<noteq> 1"
    "wf_modules g \<Longrightarrow> wf_exported g \<Longrightarrow> wf_exported h"
    "\<And>m. dc_first_module d \<le> m \<Longrightarrow> m < length (g_modules g) \<Longrightarrow> distinct (map fst (g_visibility h ! m))"
proof -
  let ?n = "length (g_modules g)"
  define g1 where "g1 = g\<lparr>g_visibility := resize_with ?n [] (g_visibility g), g_exported := resize_with ?n [] (g_exported g)\<rparr>"
  define g2 where "g2 = fold export_own (filter (\<lambda>(_, e). \<not> ex_reexport e) (dc_exports d)) g1"
  let ?all = "filter (\<lambda>(_, e). ex_reexport e) (dc_exports d)"
  have only2: "exports_only g1 g2" unfolding g2_def by (rule export_owns_only) simp
  note e2 = exports_only_eqs [OF only2]
  have g1: "g_modules g1 = g_modules g" "g_bindings g1 = g_bindings g" "g_inputs g1 = g_inputs g" "g_collections g1 = g_collections g"
    "g_handlers g1 = g_handlers g" "g_root g1 = g_root g" "length (g_exported g1) = ?n" "length (g_visibility g1) = ?n"
    by (simp_all add: g1_def resize_with_def)
  have len2: "length (g_exported g2) = length (g_modules g2)" using e2 g1 by simp
  have all2: "\<forall>x \<in> set ?all. fst x < length (g_modules g2)" using exps e2 g1 by auto
  obtain g3 pending where run: "while_option (\<lambda>(g, pending). round_resolved g pending \<noteq> []) round_step (g2, ?all) = Some (g3, pending)"
    and inv: "rounds_inv g2 ?all (g3, pending)" and fin: "round_resolved g3 pending = []"
    by (rule rounds_result [OF len2 all2])
  have only3: "exports_only g2 g3" and cov: "\<forall>x \<in> set ?all. x \<in> set pending \<or> exported_as g3 x"
    and wf3: "wf_exported g2 \<and> wf_modules g2 \<longrightarrow> wf_exported g3"
    using inv by (simp_all add: rounds_inv_def)
  note e3 = exports_only_eqs [OF only3]
  have vis3: "length (g_visibility g3) = ?n" using e3 e2 g1 by simp
  obtain vs where vs: "fold put_table [dc_first_module d..<?n] g3 = g3\<lparr>g_visibility := vs\<rparr>" "length vs = length (g_visibility g3)"
    "\<forall>m < length vs. vs ! m = (if m \<in> set [dc_first_module d..<?n] then table_for g3 m else g_visibility g3 ! m)"
    using put_tables [of "[dc_first_module d..<?n]" g3] vis3 by auto
  let ?h = "g3\<lparr>g_visibility := vs\<rparr>"
  have mods: "g_modules g3 = g_modules g" "g_bindings g3 = g_bindings g" "g_inputs g3 = g_inputs g" using e3 e2 g1 by simp_all
  have "build_tables g d = Some ?h"
    using run vs(1) by (simp add: build_tables_def Let_def g1_def [symmetric] g2_def [symmetric])
  moreover have "lookup ?h m k = seen_by ?h m k" if m: "dc_first_module d \<le> m" "m < ?n" for m k
  proof -
    have "lookup ?h m k = map_of (table_for g3 m) k" using vs(2,3) vis3 m by (simp add: lookup_def)
    then show ?thesis using seen_by_cong [of ?h g3 m k] by (simp add: map_of_table_for)
  qed
  moreover have "distinct (map fst (g_visibility ?h ! m))" if "dc_first_module d \<le> m" "m < ?n" for m
    using vs(2,3) vis3 that by (simp add: table_for_distinct)
  moreover have "g_visibility ?h ! m = g_visibility g ! m" if "m < dc_first_module d" "m < ?n" "m < length (g_visibility g)" for m
    using vs(2,3) vis3 that e3(4) e2(4) by (simp add: g1_def resize_with_def nth_append)
  moreover have "exported_as ?h (m, e) \<or> length (sources ?h m (ex_key e)) \<noteq> 1"
    if x: "(m, e) \<in> set (dc_exports d)" "ex_reexport e" for m e
  proof (cases "exported_as g3 (m, e)")
    case True then show ?thesis by (simp add: exported_as_def gmodule_def)
  next
    case False
    then have "(m, e) \<in> set pending" using cov x by auto
    then have "reexport_source g3 (m, e) = None"
    proof (rule_tac ccontr)
      assume p: "(m, e) \<in> set pending" and "reexport_source g3 (m, e) \<noteq> None"
      then obtain r where "reexport_source g3 (m, e) = Some r" by blast
      then have "r \<in> set (round_resolved g3 pending)" using p by (auto simp: round_resolved_def map_filter_set)
      then show False using fin by simp
    qed
    then show ?thesis using sources_cong [of ?h g3] by (simp add: reexport_source_None)
  qed
  moreover have "wf_exported ?h" if wf: "wf_modules g" "wf_exported g"
  proof -
    have "wf_modules g1" using wf(1) g1 by (simp add: wf_modules_def gmodule_def)
    moreover have "wf_exported g1"
      using wf(2) g1 by (auto simp: wf_exported_def g1_def resize_with_def dest: in_set_takeD)
    ultimately have "wf_exported g2"
      unfolding g2_def using export_owns_wf [OF exports_only_refl, of g1] exps g1 by auto
    moreover have "wf_modules g2" using \<open>wf_modules g1\<close> e2 by (simp add: wf_modules_def)
    ultimately show ?thesis using wf3 by (simp add: wf_exported_def)
  qed
  ultimately show thesis using that [of ?h] mods e3 e2 g1 vs(2) vis3 by simp
qed

text \<open>
  C11. The table a module gets agrees, key by key, with the sources computed for that key alone: its own
  binding first, then its imports' and the globals' exports, one binding reached through two routes counted
  once. One source is a binding, several are an ambiguity naming each, and an execution input is seen only
  under a key with no source. \<open>build_tables\<close> always returns.
\<close>

theorem build_tables_visible:
  assumes "\<forall>x \<in> set (dc_exports d). fst x < length (g_modules g)"
  shows "\<exists>h. build_tables g d = Some h \<and>
    (\<forall>m k. dc_first_module d \<le> m \<and> m < length (g_modules g) \<longrightarrow> lookup h m k = seen_by h m k)"
  by (rule build_tables_result [OF assms]) blast

text \<open>
  C12. The rounds over re-exports end, and at the end every re-export that can be resolved has been: a
  re-exported key is among its module's exports under its boundary key, or its module sees no single
  source for it. The bindings and modules are left as they were.
\<close>

theorem build_tables_reexports:
  assumes "\<forall>x \<in> set (dc_exports d). fst x < length (g_modules g)"
  shows "\<exists>h. build_tables g d = Some h \<and> g_modules h = g_modules g \<and> g_bindings h = g_bindings g \<and>
    (\<forall>m e. (m, e) \<in> set (dc_exports d) \<and> ex_reexport e \<longrightarrow> exported_as h (m, e) \<or> length (sources h m (ex_key e)) \<noteq> 1)"
  by (rule build_tables_result [OF assms]) blast

text \<open>
  An example: a database module exporting its pool, a module re-exporting it, and the root reading it
  through the re-export.
\<close>

definition example_type :: "string \<Rightarrow> rust_type" where
  "example_type n = RustType (length n) n"

definition example_key :: "string \<Rightarrow> key" where
  "example_key n = key_of (example_type n) unit_type"

definition example_module :: "nat \<Rightarrow> string \<Rightarrow> nat list \<Rightarrow> nat list \<Rightarrow> frozen_module" where
  "example_module i n imports bindings =
     (let identity = \<lparr>mi_ty = example_type n, mi_config = None, mi_qualifier = None, mi_label = None\<rparr>
      in \<lparr>fm_id = i, fm_identity = identity, fm_name = module_name_of identity 0, fm_global = False, fm_keyed = None,
          fm_imports = imports, fm_bindings = bindings, fm_hooks = [], fm_meta = [], fm_loaded = None,
          fm_settings = settings_new, fm_site = SiteRoot\<rparr>)"

definition example_binding :: "nat \<Rightarrow> nat \<Rightarrow> string \<Rightarrow> requirement \<Rightarrow> frozen_binding" where
  "example_binding i m n req =
     \<lparr>fb_id = i, fb_origin = m,
      fb_record = binding_record_new (example_key n) n BK_Single SK_Singleton (RecipeConstruct i)
        (if req = [] then no_deps else deps_add n req no_deps) (''lib.rs'', i, 1),
      fb_role = RoleProvider, fb_effective = EffSingleton, fb_needs_execution = False, fb_edges = []\<rparr>"

definition import_graph :: graph where
  "import_graph = graph_empty\<lparr>
     g_modules := [example_module 0 ''Db'' [] [0], example_module 1 ''Data'' [0] [], example_module 2 ''Root'' [1] [1]],
     g_bindings := [example_binding 0 0 ''Pool'' [], example_binding 1 2 ''Service'' (req_dep (example_key ''Pool'') [])],
     g_visibility := [[], [], []], g_root := 2\<rparr>"

definition import_declared :: declared where
  "import_declared = \<lparr>dc_root = 2, dc_first_module = 0, dc_first_binding = 0, dc_first_handler = 0,
     dc_exports = [(0, \<lparr>ex_key = example_key ''Pool'', ex_reexport = False, ex_location = (''lib.rs'', 1, 1)\<rparr>),
                   (1, \<lparr>ex_key = example_key ''Pool'', ex_reexport = True, ex_location = (''lib.rs'', 2, 1)\<rparr>)],
     dc_inputs = [], dc_transport_inputs = [], dc_meta = []\<rparr>"

lemma import_declared_in_range: "\<forall>x \<in> set (dc_exports import_declared). fst x < length (g_modules import_graph)"
  by (simp add: import_declared_def import_graph_def)

lemma build_tables_example:
  "map_option (\<lambda>h. (lookup h 2 (example_key ''Pool''), length (sources h 1 (example_key ''Pool''))))
     (build_tables import_graph import_declared) = Some (Some (VisBinding 0), 1)"
  by code_simp

theorem build_tables_visible_witness:
  "\<exists>h. build_tables import_graph import_declared = Some h \<and>
     lookup h 2 (example_key ''Pool'') = seen_by h 2 (example_key ''Pool'') \<and>
     lookup h 2 (example_key ''Pool'') = Some (VisBinding 0)"
proof -
  obtain h where h: "build_tables import_graph import_declared = Some h"
    "\<forall>m k. dc_first_module import_declared \<le> m \<and> m < length (g_modules import_graph) \<longrightarrow> lookup h m k = seen_by h m k"
    using build_tables_visible [OF import_declared_in_range] by blast
  have "dc_first_module import_declared \<le> 2 \<and> 2 < length (g_modules import_graph)"
    by (simp add: import_declared_def import_graph_def)
  then have "lookup h 2 (example_key ''Pool'') = seen_by h 2 (example_key ''Pool'')" using h(2) by blast
  moreover have "lookup h 2 (example_key ''Pool'') = Some (VisBinding 0)" using build_tables_example h(1) by simp
  ultimately show ?thesis using h(1) by blast
qed

theorem build_tables_reexports_witness:
  "\<exists>h. build_tables import_graph import_declared = Some h \<and> g_modules h = g_modules import_graph \<and>
     g_bindings h = g_bindings import_graph \<and> exported_as h (dc_exports import_declared ! 1)"
proof -
  obtain h where h: "build_tables import_graph import_declared = Some h" "g_modules h = g_modules import_graph"
    "g_bindings h = g_bindings import_graph"
    "\<forall>m e. (m, e) \<in> set (dc_exports import_declared) \<and> ex_reexport e \<longrightarrow> exported_as h (m, e) \<or> length (sources h m (ex_key e)) \<noteq> 1"
    using build_tables_reexports [OF import_declared_in_range] by blast
  obtain e where e: "dc_exports import_declared ! 1 = (1, e)" "(1, e) \<in> set (dc_exports import_declared)"
    "ex_reexport e" "ex_key e = example_key ''Pool''"
    by (simp add: import_declared_def)
  have "length (sources h 1 (ex_key e)) = 1" using build_tables_example h(1) e(4) by simp
  then show ?thesis using h(1-3) h(4) [rule_format, of 1 e] e(1-3) by auto
qed

end
