(* ===== verification/Resolve_Laws.thy ===== *)
theory Resolve_Laws
  imports Visibility_Laws
begin

text \<open>
  Resolution of injection points: which reads resolve, the edges they become, and that the dependency
  check reports nothing exactly when every read of every binding, closure, handler and metadata value
  resolves and the root's table holds no ambiguous key.
\<close>

section \<open>Reads that resolve\<close>

definition read_ok :: "graph \<Rightarrow> nat \<Rightarrow> read_rec \<Rightarrow> bool" where
  "read_ok g m rd =
     (case rd_kind rd of
        ReadSingle k \<Rightarrow>
          (case lookup g m k of
             Some (VisBinding _) \<Rightarrow> True | Some (VisInput _) \<Rightarrow> True | Some (VisAmbiguous _) \<Rightarrow> False | None \<Rightarrow> rd_optional rd)
      | _ \<Rightarrow> True)"

definition deps_ok :: "graph \<Rightarrow> nat \<Rightarrow> dependencies \<Rightarrow> bool" where
  "deps_ok g m deps \<longleftrightarrow> (\<forall>d \<in> set (dp_list deps). \<forall>rd \<in> set (dr_requirement d). read_ok g m rd)"

fun enhancer_ok :: "graph \<Rightarrow> nat \<Rightarrow> enhancer_dep \<Rightarrow> bool" where
  "enhancer_ok g m (ED_Type k) = read_ok g m \<lparr>rd_kind = ReadSingle k, rd_optional = False\<rparr>"
| "enhancer_ok g m (ED_Closure c) = deps_ok g m (cd_dependencies c)"

definition unambiguous :: "graph \<Rightarrow> nat \<Rightarrow> key \<Rightarrow> bool" where
  "unambiguous g m k \<longleftrightarrow> (\<forall>list. lookup g m k \<noteq> Some (VisAmbiguous list))"

definition closures_ok :: "graph \<Rightarrow> frozen_binding \<Rightarrow> bool" where
  "closures_ok g b \<longleftrightarrow>
     (\<forall>ready. br_ready (fb_record b) = Some ready \<longrightarrow> deps_ok g (fb_origin b) (rr_dependencies ready)) \<and>
     (\<forall>h \<in> set (br_hooks (fb_record b)). deps_ok g (fb_origin b) (hk_dependencies h))"

definition handler_ok :: "graph \<Rightarrow> handler_record \<Rightarrow> bool" where
  "handler_ok g h \<longleftrightarrow>
     unambiguous g (hr_module h) (record_key (fb_record (binding g (hr_controller h)))) \<and>
     deps_ok g (hr_module h) (hd_dependencies (hr_decl h)) \<and>
     (\<forall>e \<in> set (hd_enhancer_deps (hr_decl h)). enhancer_ok g (hr_module h) e)"

definition resolved_ok :: "graph \<Rightarrow> declared \<Rightarrow> bool" where
  "resolved_ok g d \<longleftrightarrow>
     (\<forall>b \<in> set (drop (dc_first_binding d) (g_bindings g)).
        deps_ok g (fb_origin b) (br_dependencies (fb_record b)) \<and> closures_ok g b) \<and>
     (\<forall>m \<in> set (drop (dc_first_module d) (g_modules g)). \<forall>h \<in> set (fm_hooks m). deps_ok g (fm_id m) (hk_dependencies h)) \<and>
     (\<forall>(m, name, deps) \<in> set (dc_meta d). deps_ok g m deps) \<and>
     (\<forall>h \<in> set (drop (dc_first_handler d) (g_handlers g)). handler_ok g h) \<and>
     (dc_first_module d = 0 \<longrightarrow> (\<forall>k list. (k, VisAmbiguous list) \<notin> set (g_visibility g ! g_root g)))"

section \<open>A check adds reports or changes nothing\<close>

text \<open>
  \<open>adds P st st'\<close>: the reports only grow; started with no key reported, they stay as they are exactly
  when \<open>P\<close> holds; and when no error is added no key is marked.
\<close>

definition adds :: "bool \<Rightarrow> reports \<Rightarrow> reports \<Rightarrow> bool" where
  "adds P st st' \<longleftrightarrow> (\<exists>new. fst st' = fst st @ new \<and> (snd st = {} \<longrightarrow> (new = [] \<longleftrightarrow> P)) \<and> (new = [] \<longrightarrow> snd st' = snd st))"

lemma addsI:
  assumes "fst st' = fst st @ new" "snd st = {} \<Longrightarrow> (new = [] \<longleftrightarrow> P)" "new = [] \<Longrightarrow> snd st' = snd st"
  shows "adds P st st'"
  using assms unfolding adds_def by blast

lemma adds_empty:
  assumes "adds P (errors, {}) st'"
  obtains new where "fst st' = errors @ new" "new = [] \<longleftrightarrow> P" "new = [] \<longrightarrow> snd st' = {}"
  using assms unfolding adds_def fst_conv snd_conv by blast

lemma adds_refl: "P \<Longrightarrow> adds P st st"
  by (rule addsI [of _ _ "[]"]) simp_all

lemma adds_trans: "adds P a b \<Longrightarrow> adds Q b c \<Longrightarrow> adds (P \<and> Q) a c"
  unfolding adds_def
proof (elim exE conjE)
  fix x y
  assume x: "fst b = fst a @ x" "snd a = {} \<longrightarrow> (x = []) = P" "x = [] \<longrightarrow> snd b = snd a"
    and y: "fst c = fst b @ y" "snd b = {} \<longrightarrow> (y = []) = Q" "y = [] \<longrightarrow> snd c = snd b"
  show "\<exists>new. fst c = fst a @ new \<and> (snd a = {} \<longrightarrow> (new = []) = (P \<and> Q)) \<and> (new = [] \<longrightarrow> snd c = snd a)"
    using x y by (intro exI [of _ "x @ y"]) auto
qed

lemma adds_cong: "adds P st st' \<Longrightarrow> (P \<longleftrightarrow> Q) \<Longrightarrow> adds Q st st'"
  by simp

lemma adds_fold: "(\<And>x st. x \<in> set xs \<Longrightarrow> adds (P x) st (f x st)) \<Longrightarrow> adds (\<forall>x \<in> set xs. P x) st (fold f xs st)"
proof (induction xs arbitrary: st)
  case Nil then show ?case by (simp add: adds_refl)
next
  case (Cons x xs)
  have "adds (P x \<and> (\<forall>y \<in> set xs. P y)) st (fold f xs (f x st))"
    by (rule adds_trans [OF Cons.prems Cons.IH]) (simp_all add: Cons.prems)
  then show ?case by simp
qed

lemma check_key_adds:
  "adds (read_ok g m \<lparr>rd_kind = ReadSingle k, rd_optional = opt\<rparr>) st (snd (check_key g m k opt reader st))"
proof (cases st)
  case (Pair errors reported)
  show ?thesis
  proof (cases "lookup g m k")
    case None then show ?thesis using Pair by (auto simp: adds_def check_key_def read_ok_def)
  next
    case (Some v) then show ?thesis using Pair by (cases v) (auto simp: adds_def check_key_def read_ok_def)
  qed
qed

lemma check_key_target:
  "fst (check_key g m k opt reader st) =
     (case lookup g m k of Some (VisBinding b) \<Rightarrow> Some (TargetBinding b) | Some (VisInput i) \<Rightarrow> Some (TargetInput i) | _ \<Rightarrow> None)"
  by (cases st) (simp add: check_key_def split: option.splits visible.splits)

lemma read_ok_single:
  "rd_kind rd = ReadSingle k \<Longrightarrow> read_ok g m rd = read_ok g m \<lparr>rd_kind = ReadSingle k, rd_optional = rd_optional rd\<rparr>"
  by (simp add: read_ok_def split: option.splits visible.splits)

lemma check_read_adds: "adds (read_ok g m rd) st (check_read g m reader rd st)"
proof (cases "rd_kind rd")
  case (ReadSingle k)
  then show ?thesis using check_key_adds [of g m k "rd_optional rd"] read_ok_single [OF ReadSingle] by (simp add: check_read_def)
qed (simp_all add: check_read_def read_ok_def adds_refl)

lemma check_dependencies_adds: "adds (deps_ok g m deps) st (check_dependencies g m deps owner st)"
  unfolding deps_ok_def check_dependencies_def by (intro adds_fold check_read_adds)

lemma check_binding_closures_adds: "adds (closures_ok g b) st (check_binding_closures g b st)"
proof -
  let ?ready = "\<forall>ready. br_ready (fb_record b) = Some ready \<longrightarrow> deps_ok g (fb_origin b) (rr_dependencies ready)"
  have ready: "adds ?ready st (case br_ready (fb_record b) of
      Some ready \<Rightarrow> check_dependencies g (fb_origin b) (rr_dependencies ready) owner st | None \<Rightarrow> st)" for owner
    by (cases "br_ready (fb_record b)") (auto simp: adds_refl intro: adds_cong [OF check_dependencies_adds])
  show ?thesis unfolding check_binding_closures_def closures_ok_def Let_def
    by (rule adds_trans [OF ready [of "''readiness check of '' @ graph_label g (fb_id b)"]]) (intro adds_fold check_dependencies_adds)
qed

lemma check_module_hooks_adds: "adds (\<forall>h \<in> set (fm_hooks m). deps_ok g (fm_id m) (hk_dependencies h)) st (check_module_hooks g m st)"
  unfolding check_module_hooks_def by (intro adds_fold check_dependencies_adds)

lemma check_meta_adds: "adds (case x of (m, name, deps) \<Rightarrow> deps_ok g m deps) st (check_meta g x st)"
  by (cases x) (simp add: check_meta_def check_dependencies_adds)

lemma check_handler_controller_adds:
  "adds (unambiguous g (hr_module h) (record_key (fb_record (binding g (hr_controller h))))) st (check_handler_controller g h st)"
proof (cases st)
  case (Pair errors reported)
  let ?k = "record_key (fb_record (binding g (hr_controller h)))"
  show ?thesis
  proof (cases "lookup g (hr_module h) ?k")
    case None then show ?thesis using Pair by (auto simp: adds_def check_handler_controller_def unambiguous_def)
  next
    case (Some v) then show ?thesis using Pair by (cases v) (auto simp: adds_def check_handler_controller_def unambiguous_def Let_def)
  qed
qed

lemma check_enhancer_adds: "adds (enhancer_ok g (hr_module h) e) st (check_enhancer g h e st)"
  by (cases e) (simp_all add: check_key_adds check_dependencies_adds)

lemma check_handler_adds: "adds (handler_ok g h) st (check_handler g h st)"
  unfolding check_handler_def
  by (rule adds_cong [OF adds_trans [OF adds_trans [OF check_handler_controller_adds check_dependencies_adds]
        adds_fold [OF check_enhancer_adds]]])
    (auto simp: handler_ok_def)

section \<open>The edges of a binding\<close>

definition target_of :: "graph \<Rightarrow> nat \<Rightarrow> read_rec \<Rightarrow> edge_target option" where
  "target_of g m rd =
     (case rd_kind rd of
        ReadSingle k \<Rightarrow>
          (case lookup g m k of Some (VisBinding b) \<Rightarrow> Some (TargetBinding b) | Some (VisInput i) \<Rightarrow> Some (TargetInput i) | _ \<Rightarrow> None)
      | ReadCollection k \<Rightarrow> Some (TargetCollection k)
      | ReadExtension _ \<Rightarrow> Some TargetExecution
      | ReadExecution \<Rightarrow> Some TargetExecution
      | ReadModule \<Rightarrow> Some TargetModule)"

definition reads_edges :: "graph \<Rightarrow> nat \<Rightarrow> nat \<times> dependency_record \<Rightarrow> edge list" where
  "reads_edges g m = (\<lambda>(index, d). List.map_filter (\<lambda>rd. map_option
      (\<lambda>t. \<lparr>ed_target = t, ed_dependency = index, ed_optional = rd_optional rd\<rparr>) (target_of g m rd)) (dr_requirement d))"

definition edges_of_reads :: "graph \<Rightarrow> frozen_binding \<Rightarrow> edge list" where
  "edges_of_reads g b = concat (map (reads_edges g (fb_origin b)) (List.enumerate 0 (dp_list (br_dependencies (fb_record b)))))"

lemma read_target_fst: "fst (read_target g b index rd st) = target_of g (fb_origin (binding g b)) rd"
  by (simp add: target_of_def check_key_target split: read_kind.splits)

lemma read_target_adds: "adds (read_ok g (fb_origin (binding g b)) rd) st (snd (read_target g b index rd st))"
proof (cases "rd_kind rd")
  case (ReadSingle k)
  then show ?thesis using check_key_adds [of g _ k "rd_optional rd"] read_ok_single [OF ReadSingle] by simp
qed (simp_all add: read_ok_def adds_refl)

lemma push_edges:
  "fst (fold (push_edge g b index) rds (edges, st)) =
     edges @ List.map_filter (\<lambda>rd. map_option (\<lambda>t. \<lparr>ed_target = t, ed_dependency = index, ed_optional = rd_optional rd\<rparr>)
       (target_of g (fb_origin (binding g b)) rd)) rds \<and>
   adds (\<forall>rd \<in> set rds. read_ok g (fb_origin (binding g b)) rd) st (snd (fold (push_edge g b index) rds (edges, st)))"
proof (induction rds arbitrary: edges st)
  case (Cons rd rds)
  obtain t st1 where t: "read_target g b index rd st = (t, st1)" by (rule prod.exhaust)
  have tt: "t = target_of g (fb_origin (binding g b)) rd" using read_target_fst [of g b index rd st] t by simp
  have a: "adds (read_ok g (fb_origin (binding g b)) rd) st st1" using read_target_adds [of g b rd st index] t by simp
  obtain edges1 where step: "push_edge g b index rd (edges, st) = (edges1, st1)"
    and e1: "edges1 = edges @ (case t of Some t \<Rightarrow> [\<lparr>ed_target = t, ed_dependency = index, ed_optional = rd_optional rd\<rparr>] | None \<Rightarrow> [])"
    using t by (cases t) (auto simp: push_edge_def simp del: read_target.simps)
  have "adds (read_ok g (fb_origin (binding g b)) rd \<and> (\<forall>rd \<in> set rds. read_ok g (fb_origin (binding g b)) rd)) st
      (snd (fold (push_edge g b index) rds (edges1, st1)))"
    using adds_trans [OF a] Cons.IH [of edges1 st1] by blast
  then show ?case using step e1 tt Cons.IH [of edges1 st1] by (simp add: List.map_filter_simps split: option.splits)
qed (simp add: adds_refl List.map_filter_simps)

lemma binding_edges_fold:
  "fst (fold (\<lambda>(index, d). fold (push_edge g b index) (dr_requirement d)) ds (edges, st)) =
     edges @ concat (map (reads_edges g (fb_origin (binding g b))) ds) \<and>
   adds (\<forall>x \<in> set ds. \<forall>rd \<in> set (dr_requirement (snd x)). read_ok g (fb_origin (binding g b)) rd) st
     (snd (fold (\<lambda>(index, d). fold (push_edge g b index) (dr_requirement d)) ds (edges, st)))"
proof (induction ds arbitrary: edges st)
  case (Cons x ds)
  obtain i d where x: "x = (i, d)" by (cases x)
  obtain e1 st1 where s: "fold (push_edge g b i) (dr_requirement d) (edges, st) = (e1, st1)" by (rule prod.exhaust)
  note p = push_edges [of g b i "dr_requirement d" edges st, unfolded s fst_conv snd_conv]
  have "adds ((\<forall>rd \<in> set (dr_requirement d). read_ok g (fb_origin (binding g b)) rd) \<and>
      (\<forall>x \<in> set ds. \<forall>rd \<in> set (dr_requirement (snd x)). read_ok g (fb_origin (binding g b)) rd)) st
      (snd (fold (\<lambda>(index, d). fold (push_edge g b index) (dr_requirement d)) ds (e1, st1)))"
    using adds_trans p Cons.IH [of e1 st1] by blast
  then show ?case using s x p Cons.IH [of e1 st1] by (simp add: reads_edges_def)
qed (simp add: adds_refl)

lemma binding_edges_result:
  "fst (binding_edges g b st) = edges_of_reads g (binding g b)"
  "adds (deps_ok g (fb_origin (binding g b)) (br_dependencies (fb_record (binding g b)))) st (snd (binding_edges g b st))"
proof -
  let ?ds = "dp_list (br_dependencies (fb_record (binding g b)))"
  note F = binding_edges_fold [of g b "List.enumerate 0 ?ds" "[]" st]
  show "fst (binding_edges g b st) = edges_of_reads g (binding g b)" using F by (simp add: binding_edges_def edges_of_reads_def)
  have "(\<forall>x \<in> set (List.enumerate 0 ?ds). \<forall>rd \<in> set (dr_requirement (snd x)). read_ok g (fb_origin (binding g b)) rd) \<longleftrightarrow>
      (\<forall>d \<in> snd ` set (List.enumerate 0 ?ds). \<forall>rd \<in> set (dr_requirement d). read_ok g (fb_origin (binding g b)) rd)" by blast
  also have "snd ` set (List.enumerate 0 ?ds) = set ?ds" by (metis list.set_map map_snd_enumerate)
  finally show "adds (deps_ok g (fb_origin (binding g b)) (br_dependencies (fb_record (binding g b)))) st (snd (binding_edges g b st))"
    using F unfolding binding_edges_def deps_ok_def by simp
qed

section \<open>The whole check\<close>

lemma ball_drop: "(\<forall>x \<in> set (drop n xs). P x) \<longleftrightarrow> (\<forall>i. n \<le> i \<and> i < length xs \<longrightarrow> P (xs ! i))"
proof
  assume all: "\<forall>x \<in> set (drop n xs). P x"
  show "\<forall>i. n \<le> i \<and> i < length xs \<longrightarrow> P (xs ! i)"
  proof (intro allI impI)
    fix i assume i: "n \<le> i \<and> i < length xs"
    then have "drop n xs ! (i - n) = xs ! i" "i - n < length (drop n xs)" by auto
    then have "xs ! i \<in> set (drop n xs)" using nth_mem [of "i - n" "drop n xs"] by simp
    then show "P (xs ! i)" using all by blast
  qed
next
  assume all: "\<forall>i. n \<le> i \<and> i < length xs \<longrightarrow> P (xs ! i)"
  show "\<forall>x \<in> set (drop n xs). P x"
  proof
    fix x assume "x \<in> set (drop n xs)"
    then obtain j where j: "j < length xs - n" "drop n xs ! j = x" by (auto simp: in_set_conv_nth)
    then have "xs ! (n + j) = x" "n + j < length xs" by auto
    then show "P x" using all by auto
  qed
qed

lemma lookup_bindings [simp]: "lookup (g\<lparr>g_bindings := bs\<rparr>) m k = lookup g m k"
  by (simp add: lookup_def)

lemma ok_bindings [simp]:
  "read_ok (g\<lparr>g_bindings := bs\<rparr>) m rd = read_ok g m rd"
  "deps_ok (g\<lparr>g_bindings := bs\<rparr>) m deps = deps_ok g m deps"
  "closures_ok (g\<lparr>g_bindings := bs\<rparr>) b = closures_ok g b"
  "enhancer_ok (g\<lparr>g_bindings := bs\<rparr>) m e = enhancer_ok g m e"
  "unambiguous (g\<lparr>g_bindings := bs\<rparr>) m k = unambiguous g m k"
  "target_of (g\<lparr>g_bindings := bs\<rparr>) m rd = target_of g m rd"
  "edges_of_reads (g\<lparr>g_bindings := bs\<rparr>) b = edges_of_reads g b"
proof -
  show r: "read_ok (g\<lparr>g_bindings := bs\<rparr>) m rd = read_ok g m rd" for m rd unfolding read_ok_def lookup_bindings ..
  show d: "deps_ok (g\<lparr>g_bindings := bs\<rparr>) m deps = deps_ok g m deps" for m deps by (simp add: deps_ok_def r)
  show "closures_ok (g\<lparr>g_bindings := bs\<rparr>) b = closures_ok g b" by (simp add: closures_ok_def d)
  show "enhancer_ok (g\<lparr>g_bindings := bs\<rparr>) m e = enhancer_ok g m e" by (cases e) (simp_all add: r d)
  show "unambiguous (g\<lparr>g_bindings := bs\<rparr>) m k = unambiguous g m k" by (simp add: unambiguous_def)
  show t: "target_of (g\<lparr>g_bindings := bs\<rparr>) m rd = target_of g m rd" for m rd unfolding target_of_def lookup_bindings ..
  show "edges_of_reads (g\<lparr>g_bindings := bs\<rparr>) b = edges_of_reads g b"
    by (simp add: edges_of_reads_def reads_edges_def t split_def)
qed

lemma edges_of_reads_edges [simp]: "edges_of_reads g (b\<lparr>fb_edges := e\<rparr>) = edges_of_reads g b"
  by (simp add: edges_of_reads_def)

definition with_edges :: "graph \<Rightarrow> nat set \<Rightarrow> frozen_binding list \<Rightarrow> bool" where
  "with_edges g B bs \<longleftrightarrow> length bs = binding_count g \<and>
     (\<forall>b. bs ! b = (if b \<in> B then (binding g b)\<lparr>fb_edges := edges_of_reads g (binding g b)\<rparr> else binding g b))"

lemma set_edges_fold:
  assumes "\<forall>b \<in> set bs. b < binding_count g"
  shows "\<exists>xs st'. fold set_edges bs (g, st) = (g\<lparr>g_bindings := xs\<rparr>, st') \<and> with_edges g (set bs) xs \<and>
    adds (\<forall>b \<in> set bs. deps_ok g (fb_origin (binding g b)) (br_dependencies (fb_record (binding g b)))) st st'"
  using assms
proof (induction bs arbitrary: g st)
  case Nil
  show ?case by (intro exI [of _ "g_bindings g"] exI [of _ st]) (simp add: with_edges_def binding_def adds_refl)
next
  case (Cons a bs)
  let ?e = "edges_of_reads g (binding g a)"
  let ?xs = "(g_bindings g)[a := (binding g a)\<lparr>fb_edges := ?e\<rparr>]" and ?st = "snd (binding_edges g a st)"
  let ?g = "g\<lparr>g_bindings := ?xs\<rparr>"
  have step: "set_edges a (g, st) = (?g, ?st)"
    using binding_edges_result(1) [of g a st] by (simp add: set_edges_def split_def binding_def Let_def)
  have a: "a < binding_count g" using Cons.prems by simp
  have nth: "binding ?g b = (if b = a then (binding g a)\<lparr>fb_edges := ?e\<rparr> else binding g b)" for b
    using a by (simp add: binding_def)
  obtain xs st' where ih: "fold set_edges bs (?g, ?st) = (?g\<lparr>g_bindings := xs\<rparr>, st')" "with_edges ?g (set bs) xs"
    "adds (\<forall>b \<in> set bs. deps_ok ?g (fb_origin (binding ?g b)) (br_dependencies (fb_record (binding ?g b)))) ?st st'"
    using Cons.IH [of ?g ?st] Cons.prems by auto
  have deps: "deps_ok ?g (fb_origin (binding ?g b)) (br_dependencies (fb_record (binding ?g b))) =
      deps_ok g (fb_origin (binding g b)) (br_dependencies (fb_record (binding g b)))" for b
    by (simp add: nth)
  have "with_edges g (set (a # bs)) xs"
    using ih(2) unfolding with_edges_def nth by simp
  moreover have "adds (\<forall>b \<in> set (a # bs). deps_ok g (fb_origin (binding g b)) (br_dependencies (fb_record (binding g b)))) st st'"
    using adds_trans [OF binding_edges_result(2) [of g a st] ih(3) [unfolded deps]] by simp
  moreover have "fold set_edges (a # bs) (g, st) = (g\<lparr>g_bindings := xs\<rparr>, st')" using step ih(1) by simp
  ultimately show ?case by blast
qed

lemma unread_ambiguous_empty:
  "unread_ambiguous g {} = [] \<longleftrightarrow> (\<forall>k list. (k, VisAmbiguous list) \<notin> set (g_visibility g ! g_root g))"
proof -
  have "unread_ambiguous g {} = [] \<longleftrightarrow> set (unread_ambiguous g {}) = {}" by simp
  also have "\<dots> \<longleftrightarrow> (\<forall>k list. (k, VisAmbiguous list) \<notin> set (g_visibility g ! g_root g))"
    unfolding unread_ambiguous_def set_sort map_filter_set by (force split: visible.splits)
  finally show ?thesis .
qed

lemma resolve_dependencies_result:
  assumes first: "dc_first_binding d \<le> binding_count g"
  obtains xs new where "resolve_dependencies g d errors = (g\<lparr>g_bindings := xs\<rparr>, errors @ new)"
    "with_edges g {dc_first_binding d..<binding_count g} xs" "new = [] \<longleftrightarrow> resolved_ok g d"
proof -
  let ?bs = "[dc_first_binding d..<binding_count g]"
  obtain xs st1 where s1: "fold set_edges ?bs (g, errors, {}) = (g\<lparr>g_bindings := xs\<rparr>, st1)" "with_edges g (set ?bs) xs"
    "adds (\<forall>b \<in> set ?bs. deps_ok g (fb_origin (binding g b)) (br_dependencies (fb_record (binding g b)))) (errors, {}) st1"
    using set_edges_fold [of ?bs g "(errors, {})"] by auto
  let ?g = "g\<lparr>g_bindings := xs\<rparr>"
  let ?st2 = "fold (check_binding_closures ?g) (drop (dc_first_binding d) (g_bindings ?g)) st1"
  let ?st3 = "fold (check_module_hooks ?g) (drop (dc_first_module d) (g_modules ?g)) ?st2"
  let ?st4 = "fold (check_meta ?g) (dc_meta d) ?st3"
  let ?st5 = "fold (check_handler ?g) (drop (dc_first_handler d) (g_handlers ?g)) ?st4"
  let ?reads = "\<forall>b \<in> set ?bs. deps_ok g (fb_origin (binding g b)) (br_dependencies (fb_record (binding g b)))"
  let ?clo = "\<forall>b \<in> set (drop (dc_first_binding d) (g_bindings ?g)). closures_ok ?g b"
  let ?mods = "\<forall>m \<in> set (drop (dc_first_module d) (g_modules ?g)). \<forall>h \<in> set (fm_hooks m). deps_ok ?g (fm_id m) (hk_dependencies h)"
  let ?meta = "\<forall>x \<in> set (dc_meta d). case x of (m, name, deps) \<Rightarrow> deps_ok ?g m deps"
  let ?hs = "\<forall>h \<in> set (drop (dc_first_handler d) (g_handlers ?g)). handler_ok ?g h"
  have "adds ((((?reads \<and> ?clo) \<and> ?mods) \<and> ?meta) \<and> ?hs) (errors, {}) ?st5"
    by (rule adds_trans [OF adds_trans [OF adds_trans [OF adds_trans [OF s1(3) adds_fold [OF check_binding_closures_adds]]
          adds_fold [OF check_module_hooks_adds]] adds_fold [OF check_meta_adds]] adds_fold [OF check_handler_adds]])
  then obtain new where new: "fst ?st5 = errors @ new" "new = [] \<longleftrightarrow> ((((?reads \<and> ?clo) \<and> ?mods) \<and> ?meta) \<and> ?hs)"
    "new = [] \<longrightarrow> snd ?st5 = {}" by (rule adds_empty)
  let ?sweep = "if dc_first_module d = 0 then map (\<lambda>(k, list). Ambiguous (name_key BK_Single k) ''a lookup that names no module''
       (graph_module_name ?g (g_root ?g)) (ambiguous_sources ?g list)) (unread_ambiguous ?g (snd ?st5)) else []"
  have res: "resolve_dependencies g d errors = (?g, errors @ (new @ ?sweep))"
    unfolding resolve_dependencies_def using s1(1) new(1) by (simp add: Let_def split_def)
  have bind: "fb_record (xs ! b) = fb_record (binding g b)" "fb_origin (xs ! b) = fb_origin (binding g b)" for b
    using s1(2) by (simp_all add: with_edges_def)
  have clo: "?clo \<longleftrightarrow> (\<forall>b \<in> set (drop (dc_first_binding d) (g_bindings g)). closures_ok g b)"
    using s1(2) bind by (simp add: ball_drop with_edges_def closures_ok_def binding_def)
  have reads: "?reads \<longleftrightarrow> (\<forall>b \<in> set (drop (dc_first_binding d) (g_bindings g)). deps_ok g (fb_origin b) (br_dependencies (fb_record b)))"
    by (auto simp: ball_drop binding_def)
  have hs: "?hs \<longleftrightarrow> (\<forall>h \<in> set (drop (dc_first_handler d) (g_handlers g)). handler_ok g h)"
    using bind by (simp add: handler_ok_def binding_def)
  let ?root = "dc_first_module d = 0 \<longrightarrow> (\<forall>k list. (k, VisAmbiguous list) \<notin> set (g_visibility g ! g_root g))"
  have ok: "resolved_ok g d \<longleftrightarrow> new = [] \<and> ?root"
    unfolding new(2) clo reads hs unfolding resolved_ok_def ball_conj_distrib by (simp add: split_def)
  have sweep: "?sweep = [] \<longleftrightarrow> ?root" if "new = []"
  proof -
    have s5: "snd ?st5 = {}" using that new(3) by blast
    show ?thesis unfolding s5 using unread_ambiguous_empty [of ?g] by simp
  qed
  have "new @ ?sweep = [] \<longleftrightarrow> resolved_ok g d" unfolding ok append_is_Nil_conv using sweep by blast
  then show thesis using that [OF res] s1(2) by simp
qed

text \<open>
  C13. The dependency check reports nothing exactly when every single-key read of the bindings this wiring
  added, of their readiness checks and hooks, of the modules' hooks, the metadata values and the handlers'
  parameters and enhancers resolves to one binding or an input, or is optional and missing; no handler's
  controller is ambiguous in its own module; and, for an application's own wiring, the root's table holds no
  ambiguous key.
\<close>

theorem resolve_reports_exactly:
  assumes "dc_first_binding d \<le> binding_count g"
  shows "snd (resolve_dependencies g d errors) = errors \<longleftrightarrow> resolved_ok g d"
proof -
  obtain xs new where "resolve_dependencies g d errors = (g\<lparr>g_bindings := xs\<rparr>, errors @ new)" "new = [] \<longleftrightarrow> resolved_ok g d"
    by (rule resolve_dependencies_result [OF assms])
  then show ?thesis by simp
qed

text \<open>
  C14. The edges the check gives each binding it resolves are exactly its injection points, in the order
  written: one edge per read that resolves, none for a read reported or missing and optional; bindings
  of an earlier wiring keep theirs, and nothing but edges changes.
\<close>

theorem resolve_edges_exact:
  assumes "dc_first_binding d \<le> binding_count g"
  shows "\<exists>xs. fst (resolve_dependencies g d errors) = g\<lparr>g_bindings := xs\<rparr> \<and> length xs = binding_count g \<and>
    (\<forall>b < binding_count g. xs ! b = (if dc_first_binding d \<le> b
       then (binding g b)\<lparr>fb_edges := edges_of_reads g (binding g b)\<rparr> else binding g b))"
proof -
  obtain xs new where "resolve_dependencies g d errors = (g\<lparr>g_bindings := xs\<rparr>, errors @ new)"
    "with_edges g {dc_first_binding d..<binding_count g} xs"
    by (rule resolve_dependencies_result [OF assms])
  then show ?thesis by (intro exI [of _ xs]) (simp add: with_edges_def)
qed

theorem resolve_reports_exactly_witness:
  "dc_first_binding import_declared \<le> binding_count import_graph \<and>
   (snd (resolve_dependencies import_graph import_declared []) = [] \<longleftrightarrow> resolved_ok import_graph import_declared)"
proof -
  have "dc_first_binding import_declared \<le> binding_count import_graph" by (simp add: import_declared_def)
  then show ?thesis using resolve_reports_exactly [of import_declared import_graph "[]"] by blast
qed

theorem resolve_edges_exact_witness:
  "\<exists>xs. fst (resolve_dependencies import_graph import_declared []) = import_graph\<lparr>g_bindings := xs\<rparr> \<and>
     xs ! 1 = (binding import_graph 1)\<lparr>fb_edges := edges_of_reads import_graph (binding import_graph 1)\<rparr>"
proof -
  have "dc_first_binding import_declared \<le> binding_count import_graph" by (simp add: import_declared_def)
  from resolve_edges_exact [OF this, of "[]"] obtain xs where
    "fst (resolve_dependencies import_graph import_declared []) = import_graph\<lparr>g_bindings := xs\<rparr>"
    "\<forall>b < binding_count import_graph. xs ! b = (if dc_first_binding import_declared \<le> b
       then (binding import_graph b)\<lparr>fb_edges := edges_of_reads import_graph (binding import_graph b)\<rparr>
       else binding import_graph b)" by blast
  moreover have "1 < binding_count import_graph \<and> dc_first_binding import_declared \<le> 1"
    by (simp add: import_graph_def import_declared_def)
  ultimately show ?thesis by auto
qed

end
