(* ===== verification/Freeze_Laws.thy ===== *)
theory Freeze_Laws
  imports Wire Registry_Laws Resolve_Laws
begin

text \<open>
  What the freeze guarantees of the graph it builds: every number in it names a module or a binding of it, whatever the
  modules registered and whatever a test's plan replaced.
\<close>

section \<open>The registry the freeze is given\<close>

text \<open>\<open>n\<close> is the number of modules of the base graph.\<close>

definition wf_import :: "registry \<Rightarrow> nat \<Rightarrow> import_ref \<Rightarrow> bool" where
  "wf_import r n i = (case i of ImportNew c \<Rightarrow> c < length (rg_nodes r) | ImportExisting m \<Rightarrow> m < n)"

definition wf_registry :: "registry \<Rightarrow> nat \<Rightarrow> bool" where
  "wf_registry r n \<longleftrightarrow> rg_nodes r \<noteq> [] \<and> length (rg_imports r) = length (rg_nodes r) \<and>
     distinct (rg_post_order r) \<and> set (rg_post_order r) = {..<length (rg_nodes r)} \<and>
     (\<forall>k < length (rg_nodes r). \<forall>i \<in> set (rg_imports r ! k). wf_import r n i)"

lemma import_target_in_range:
  assumes "import_target mods None plan r m = Some i" "map snd (rg_by_identity r) = [0..<length (rg_nodes r)]"
  shows "wf_import r n i"
  using assms identity_lookup_index(1) [OF assms(2)] by (auto simp: import_target_def wf_import_def)

lemma register_all_wf:
  assumes "register_all fuel mods root plan = Some r"
  shows "wf_registry r n"
proof -
  obtain t w where w: "reach_post mods None plan walk_new root t w" "r = (wk_registry w)\<lparr>rg_post_order := rg_post_order r\<rparr>"
    "collection_order (wk_registry w) = Some (rg_post_order r)"
    using assms by (rule register_all_walk)
  have inv: "walk_inv mods None plan w" and path: "wk_path w = []"
    using w(1) by (auto simp: reach_post_def grows_def Let_def walk_new_def)
  note D = walk_invD [OF inv] and R = root_reaches_all [OF w(1)]
  have eqs: "rg_nodes r = rg_nodes (wk_registry w)" "rg_by_identity r = rg_by_identity (wk_registry w)"
    "rg_imports r = rg_imports (wk_registry w)" by (subst w(2), simp)+
  obtain order where o: "collection_order (wk_registry w) = Some order" "distinct order"
    "set order = {v. v < length (rg_nodes (wk_registry w)) \<and> (0, v) \<in> (import_edges (wk_registry w))\<^sup>*}"
    using collection_order_result [OF R(2)] by metis
  have "wf_import r n i" if k: "k < length (rg_nodes r)" and i: "i \<in> set (rg_imports r ! k)" for k i
  proof -
    obtain ims :: "import_record list" where "map Some (rg_imports r ! k) = map (\<lambda>im. import_target mods None plan (wk_registry w) (im_module im)) ims"
      using D(6) [of k] k path eqs by (auto simp: node_ok_def Let_def)
    moreover have "Some i \<in> set (map Some (rg_imports r ! k))" using i by simp
    ultimately obtain m where "import_target mods None plan (wk_registry w) m = Some i" by auto
    then have "wf_import (wk_registry w) n i" by (rule import_target_in_range [OF _ D(2)])
    then show ?thesis using eqs by (simp add: wf_import_def split: import_ref.splits)
  qed
  moreover have "rg_post_order r = order" using o(1) w(3) by simp
  ultimately show ?thesis using o(2,3) R(2,3) eqs D(1) by (auto simp: wf_registry_def)
qed

lemma wf_import_more: "wf_import r n i \<Longrightarrow> length (rg_nodes r) \<le> length (rg_nodes r') \<Longrightarrow> wf_import r' n i"
  by (auto simp: wf_import_def split: import_ref.splits)

lemma add_timer_module_wf:
  assumes "wf_registry r n"
  shows "wf_registry (add_timer_module timer runtime r) n"
proof -
  let ?r = "add_timer_module timer runtime r"
  have eqs: "length (rg_nodes ?r) = Suc (length (rg_nodes r))" "rg_imports ?r = rg_imports r @ [[]]"
    "rg_post_order ?r = length (rg_nodes r) # rg_post_order r"
    by (simp_all add: add_timer_module_def Let_def)
  have "wf_import ?r n i" if "k < length (rg_nodes ?r)" "i \<in> set (rg_imports ?r ! k)" for k i
  proof -
    have "k < length (rg_nodes r) \<and> i \<in> set (rg_imports r ! k)"
      using that eqs assms by (auto simp: wf_registry_def nth_append less_Suc_eq split: if_splits)
    then show ?thesis using assms eqs(1) wf_import_more [of r n i ?r] by (auto simp: wf_registry_def)
  qed
  moreover have "rg_nodes ?r \<noteq> []" using eqs(1) by auto
  ultimately show ?thesis using assms eqs by (auto simp: wf_registry_def lessThan_Suc)
qed

text \<open>A plan rewrites the nodes and nothing else the freeze counts on.\<close>

definition same_shape :: "registry \<Rightarrow> registry \<Rightarrow> bool" where
  "same_shape r r' \<longleftrightarrow> length (rg_nodes r') = length (rg_nodes r) \<and> rg_imports r' = rg_imports r \<and> rg_post_order r' = rg_post_order r"

lemma same_shape_refl [simp]: "same_shape r r"
  by (simp add: same_shape_def)

lemma same_shape_trans: "same_shape a b \<Longrightarrow> same_shape b c \<Longrightarrow> same_shape a c"
  by (simp add: same_shape_def)

lemma same_shape_wf: "same_shape r r' \<Longrightarrow> wf_registry r n \<Longrightarrow> wf_registry r' n"
  by (auto simp: same_shape_def wf_registry_def wf_import_def split: import_ref.splits)

lemma same_shape_fold:
  "(\<And>x s. same_shape (f s) (f (h x s))) \<Longrightarrow> same_shape (f s) (f (fold h xs s))"
  by (induction xs arbitrary: s) (auto intro: same_shape_trans)

lemma apply_override_shape: "same_shape (fst st) (fst (apply_override names ov st))"
proof -
  have "same_shape r (fold (\<lambda>(m, position). map_node m (replace_recipe position ov)) ms r)" for ms r
    by (rule same_shape_fold [where f = "\<lambda>r. r"]) (auto simp: same_shape_def map_node_def)
  then show ?thesis
    by (cases st) (auto simp: apply_override_def Let_def split: sum.split)
qed

lemma apply_collection_shape: "same_shape (fst st) (fst (apply_collection co st))"
proof (cases st)
  case (Pair r errors)
  show ?thesis
  proof (cases "rg_nodes r")
    case Nil then show ?thesis by (simp add: Pair apply_collection_def Let_def same_shape_def)
  next
    case (Cons a list) then show ?thesis by (simp add: Pair apply_collection_def Let_def same_shape_def)
  qed
qed

lemma apply_plan_shape: "same_shape r (fst (apply_plan r names plan g steps))"
proof -
  have ov: "same_shape (fst st) (fst (apply_overrides names ovs st))" for ovs st
    unfolding apply_overrides_def by (rule same_shape_fold) (rule apply_override_shape)
  have co: "same_shape (fst st) (fst (apply_collections cos st))" for cos st
    unfolding apply_collections_def by (rule same_shape_fold) (rule apply_collection_shape)
  show ?thesis
    unfolding apply_plan_def Let_def case_prod_unfold fst_conv
    by (rule same_shape_trans [OF ov [of "(r, _)", unfolded fst_conv] co [of "(_, _)", unfolded fst_conv]])
qed

section \<open>The modules' numbers\<close>

lemma module_ids_fold:
  "length (fold (\<lambda>(p, node) ids. ids[node := first + p]) xs ids) = length ids \<and>
   (\<forall>x \<in> set (fold (\<lambda>(p, node) ids. ids[node := first + p]) xs ids). x \<in> set ids \<or> (\<exists>p \<in> fst ` set xs. x = first + p))"
proof (induction xs arbitrary: ids)
  case (Cons a xs)
  obtain p node where a: "a = (p, node)" by fastforce
  have "set (ids[node := first + p]) \<subseteq> insert (first + p) (set ids)" by (rule set_update_subset_insert)
  then show ?case using Cons.IH [of "ids[node := first + p]"] by (fastforce simp: a)
qed simp

lemma module_ids_range:
  assumes "wf_registry r n"
  shows "length (module_ids r first) = length (rg_nodes r)" "\<forall>x \<in> set (module_ids r first). x < first + length (rg_post_order r)"
proof -
  have "rg_post_order r \<noteq> []" using assms by (auto simp: wf_registry_def)
  then show "\<forall>x \<in> set (module_ids r first). x < first + length (rg_post_order r)"
    using module_ids_fold [of first "List.enumerate 0 (rg_post_order r)" "replicate (length (rg_nodes r)) first"]
    by (force simp: module_ids_def in_set_enumerate_eq image_iff)
  show "length (module_ids r first) = length (rg_nodes r)"
    using module_ids_fold [of first "List.enumerate 0 (rg_post_order r)" "replicate (length (rg_nodes r)) first"]
    by (simp add: module_ids_def)
qed

lemma frozen_import_range:
  assumes "wf_registry r first" "k < length (rg_nodes r)" "i \<in> set (rg_imports r ! k)"
  shows "frozen_import (module_ids r first) i < first + length (rg_post_order r)"
proof -
  have "wf_import r first i" using assms by (simp add: wf_registry_def)
  then show ?thesis using module_ids_range [OF assms(1), of first]
    by (cases i) (auto simp: wf_import_def frozen_import_def)
qed

section \<open>One module frozen\<close>

definition ids_below :: "nat \<Rightarrow> (key \<times> nat list) list \<Rightarrow> bool" where
  "ids_below n t \<longleftrightarrow> (\<forall>x \<in> set t. \<forall>b \<in> set (snd x). b < n)"

text \<open>Everything a graph holds beside its tables names one of \<open>n\<close> modules and of its own bindings.\<close>

definition core_ok :: "nat \<Rightarrow> graph \<Rightarrow> bool" where
  "core_ok n g \<longleftrightarrow>
     (\<forall>b < binding_count g. fb_id (binding g b) = b \<and> fb_origin (binding g b) < n \<and> (\<forall>e \<in> set (fb_edges (binding g b)). wf_edge g e)) \<and>
     (\<forall>i < length (g_modules g). fm_id (gmodule g i) = i \<and> (\<forall>m \<in> set (fm_imports (gmodule g i)). m < n) \<and>
        (\<forall>b \<in> set (fm_bindings (gmodule g i)). b < binding_count g)) \<and>
     (\<forall>h \<in> set (g_handlers g). hr_module h < n \<and> hr_controller h < binding_count g) \<and>
     ids_below (binding_count g) (g_collections g)"

definition declared_ok :: "nat \<Rightarrow> declared \<Rightarrow> bool" where
  "declared_ok n d \<longleftrightarrow> (\<forall>x \<in> set (dc_exports d). fst x < n) \<and> (\<forall>x \<in> set (dc_meta d). fst x < n) \<and> dc_root d < n"

definition freezing_ok :: "nat \<Rightarrow> freezing \<Rightarrow> bool" where
  "freezing_ok n s \<longleftrightarrow> core_ok n (fz_graph s) \<and> declared_ok n (fz_declared s) \<and>
     ids_below (binding_count (fz_graph s)) (fz_contributions s)"

text \<open>What freezing a module's parts leaves as it is.\<close>

definition untouched :: "graph \<Rightarrow> graph \<Rightarrow> bool" where
  "untouched g g' \<longleftrightarrow> g_visibility g' = g_visibility g \<and> g_exported g' = g_exported g \<and> g_collections g' = g_collections g \<and>
     g_root g' = g_root g \<and> (\<exists>new. g_bindings g' = g_bindings g @ new)"

definition parts_only :: "freezing \<Rightarrow> freezing \<Rightarrow> bool" where
  "parts_only s s' \<longleftrightarrow> untouched (fz_graph s) (fz_graph s') \<and> g_modules (fz_graph s') = g_modules (fz_graph s) \<and>
     fz_nodes s' = fz_nodes s \<and> dc_first_module (fz_declared s') = dc_first_module (fz_declared s) \<and>
     dc_first_binding (fz_declared s') = dc_first_binding (fz_declared s) \<and>
     dc_first_handler (fz_declared s') = dc_first_handler (fz_declared s) \<and> dc_root (fz_declared s') = dc_root (fz_declared s)"

lemma untouched_refl [simp]: "untouched g g"
  by (simp add: untouched_def)

lemma untouched_trans: "untouched a b \<Longrightarrow> untouched b c \<Longrightarrow> untouched a c"
  by (auto simp: untouched_def)

lemma parts_only_refl [simp]: "parts_only s s"
  by (simp add: parts_only_def)

lemma parts_only_trans: "parts_only a b \<Longrightarrow> parts_only b c \<Longrightarrow> parts_only a c"
  by (auto simp: parts_only_def intro: untouched_trans)

lemma parts_only_count: "parts_only s s' \<Longrightarrow> binding_count (fz_graph s) \<le> binding_count (fz_graph s')"
  by (auto simp: parts_only_def untouched_def)

lemma parts_fold:
  assumes "\<And>x s. x \<in> set xs \<Longrightarrow> freezing_ok n s \<Longrightarrow> B \<le> binding_count (fz_graph s) \<Longrightarrow> freezing_ok n (f x s) \<and> parts_only s (f x s)"
    and "freezing_ok n s" "B \<le> binding_count (fz_graph s)"
  shows "freezing_ok n (fold f xs s) \<and> parts_only s (fold f xs s)"
  using assms
proof (induction xs arbitrary: s)
  case (Cons x xs)
  have x: "freezing_ok n (f x s)" "parts_only s (f x s)" using Cons.prems by simp_all
  have "freezing_ok n (fold f xs (f x s)) \<and> parts_only (f x s) (fold f xs (f x s))"
    using Cons.IH [of "f x s"] Cons.prems x parts_only_count [OF x(2)] by simp
  then show ?case using x(2) parts_only_trans by auto
qed simp

lemma alist_update_subset: "set (AList.update k v t) \<subseteq> insert (k, v) (set t)"
  by (induction t) auto

lemma ids_below_old: "ids_below n t \<Longrightarrow> b \<in> set (case map_of t k of Some ids \<Rightarrow> ids | None \<Rightarrow> []) \<Longrightarrow> b < n"
  by (cases "map_of t k") (auto simp: ids_below_def dest: map_of_SomeD)

lemma ids_below_mono: "ids_below n t \<Longrightarrow> n \<le> m \<Longrightarrow> ids_below m t"
  by (fastforce simp: ids_below_def)

lemma ids_below_update:
  assumes "ids_below n t" "\<forall>b \<in> set new. b < n"
  shows "ids_below n (AList.update k ((case map_of t k of Some ids \<Rightarrow> ids | None \<Rightarrow> []) @ new) t)"
proof -
  have "b < n" if x: "x \<in> insert (k, (case map_of t k of Some ids \<Rightarrow> ids | None \<Rightarrow> []) @ new) (set t)" and b: "b \<in> set (snd x)" for x b
  proof (cases "x \<in> set t")
    case True then show ?thesis using assms(1) b by (simp add: ids_below_def)
  next
    case False then show ?thesis using x b ids_below_old [OF assms(1)] assms(2) by auto
  qed
  then show ?thesis unfolding ids_below_def using alist_update_subset by (meson subsetD)
qed

lemma wf_edge_append: "wf_edge g e \<Longrightarrow> wf_edge (g\<lparr>g_bindings := g_bindings g @ new\<rparr>) e"
  by (auto simp: wf_edge_def split: edge_target.splits)

lemma core_ok_push:
  assumes "core_ok n g" "fb_id b = binding_count g" "fb_origin b < n" "fb_edges b = []"
  shows "core_ok n (g\<lparr>g_bindings := g_bindings g @ [b]\<rparr>)"
proof -
  let ?g = "g\<lparr>g_bindings := g_bindings g @ [b]\<rparr>"
  note C = assms(1) [unfolded core_ok_def]
  have "fb_id (binding ?g c) = c \<and> fb_origin (binding ?g c) < n \<and> (\<forall>e \<in> set (fb_edges (binding ?g c)). wf_edge ?g e)"
    if c: "c < binding_count ?g" for c
  proof (cases "c < binding_count g")
    case True
    then have "binding ?g c = binding g c" by (simp add: binding_def nth_append)
    then show ?thesis using C True wf_edge_append by simp
  next
    case False
    then have "binding ?g c = b" "c = binding_count g" using c by (simp_all add: binding_def nth_append)
    then show ?thesis using assms(2-4) by simp
  qed
  moreover have "\<forall>i < length (g_modules ?g). fm_id (gmodule ?g i) = i \<and> (\<forall>m \<in> set (fm_imports (gmodule ?g i)). m < n) \<and>
      (\<forall>b \<in> set (fm_bindings (gmodule ?g i)). b < binding_count ?g)"
    using C by (simp add: gmodule_def less_Suc_eq)
  moreover have "\<forall>h \<in> set (g_handlers ?g). hr_module h < n \<and> hr_controller h < binding_count ?g" using C by (simp add: less_Suc_eq)
  moreover have "ids_below (binding_count ?g) (g_collections ?g)" using C ids_below_mono by auto
  ultimately show ?thesis unfolding core_ok_def by blast
qed

lemma freeze_binding_ok:
  assumes "freezing_ok n s" "m < n" "freeze_binding m enhancers x (s, ids) = (s', ids')"
  shows "freezing_ok n s' \<and> parts_only s s' \<and> ids' = ids @ [binding_count (fz_graph s)] \<and>
    binding_count (fz_graph s') = Suc (binding_count (fz_graph s))"
proof -
  obtain slot rec where x: "x = (slot, rec)" by fastforce
  let ?g = "fz_graph s" and ?t = "fz_contributions s"
  let ?b = "\<lparr>fb_id = binding_count ?g, fb_origin = m, fb_record = rec, fb_role = freeze_role rec enhancers slot,
     fb_effective = EffSingleton, fb_needs_execution = False, fb_edges = []\<rparr>"
  let ?new = "if br_kind rec = BK_Collection then contribute (record_key rec) (binding_count ?g) ?t else ?t"
  have s': "s' = s\<lparr>fz_graph := ?g\<lparr>g_bindings := g_bindings ?g @ [?b]\<rparr>, fz_contributions := ?new\<rparr>"
    and ids': "ids' = ids @ [binding_count ?g]"
    using assms(3) by (auto simp: x freeze_binding_def Let_def)
  have core: "core_ok n (?g\<lparr>g_bindings := g_bindings ?g @ [?b]\<rparr>)"
    by (rule core_ok_push) (use assms(1,2) in \<open>simp_all add: freezing_ok_def\<close>)
  have t: "ids_below (Suc (binding_count ?g)) ?t" using assms(1) ids_below_mono by (auto simp: freezing_ok_def)
  have "ids_below (Suc (binding_count ?g)) ?new"
    using t ids_below_update [OF t, of "[binding_count ?g]" "record_key rec"] by (simp add: contribute_def)
  then show ?thesis using core assms(1) by (auto simp: s' ids' freezing_ok_def parts_only_def untouched_def)
qed

lemma freeze_bindings_ok:
  assumes "freezing_ok n s" "m < n" "fold (freeze_binding m enhancers) xs (s, ids) = (s', ids')"
    "\<forall>b \<in> set ids. b < binding_count (fz_graph s)"
  shows "freezing_ok n s' \<and> parts_only s s' \<and> (\<forall>b \<in> set ids'. b < binding_count (fz_graph s'))"
  using assms
proof (induction xs arbitrary: s ids)
  case (Cons x xs)
  obtain s1 ids1 where one: "freeze_binding m enhancers x (s, ids) = (s1, ids1)" by fastforce
  note o = freeze_binding_ok [OF Cons.prems(1,2) one]
  have "\<forall>b \<in> set ids1. b < binding_count (fz_graph s1)" using o Cons.prems(4) by (auto simp: less_Suc_eq)
  then have "freezing_ok n s' \<and> parts_only s1 s' \<and> (\<forall>b \<in> set ids'. b < binding_count (fz_graph s'))"
    using Cons.IH [of s1 ids1] o Cons.prems(2,3) one by simp
  then show ?case using o parts_only_trans by blast
qed simp

lemma declare_transport_inputs_ok:
  "freezing_ok n s \<Longrightarrow> freezing_ok n (declare_transport_inputs decl s) \<and> parts_only s (declare_transport_inputs decl s)"
  by (simp add: declare_transport_inputs_def freezing_ok_def parts_only_def untouched_def core_ok_def declared_ok_def
      gmodule_def binding_def wf_edge_def Let_def cong: edge_target.case_cong)

lemma freeze_input_ok: "freezing_ok n s \<Longrightarrow> freezing_ok n (freeze_input m name i s) \<and> parts_only s (freeze_input m name i s)"
  by (simp add: freeze_input_def freezing_ok_def parts_only_def untouched_def core_ok_def declared_ok_def
      gmodule_def binding_def wf_edge_def Let_def cong: edge_target.case_cong)

lemma freezing_ok_handlers:
  assumes "freezing_ok n s" "\<forall>h \<in> set hs. hr_module h < n \<and> hr_controller h < binding_count (fz_graph s)"
  shows "freezing_ok n (s\<lparr>fz_graph := (fz_graph s)\<lparr>g_handlers := g_handlers (fz_graph s) @ hs\<rparr>, fz_steps := st\<rparr>)"
  using assms by (auto simp: freezing_ok_def core_ok_def gmodule_def binding_def wf_edge_def cong: edge_target.case_cong)

lemma freeze_controller_ok:
  assumes "freezing_ok n s" "m < n" "\<forall>b \<in> set ids. b < B" "B \<le> binding_count (fz_graph s)"
  shows "freezing_ok n (freeze_controller m name ids c s) \<and> parts_only s (freeze_controller m name ids c s)"
proof (cases "get_nth ids (cr_binding c)")
  case None then show ?thesis using assms(1) by (simp add: freeze_controller_def)
next
  case (Some b)
  then have b: "b < B" using assms(3) by (auto simp: get_nth_def split: if_splits)
  let ?s = "fold declare_transport_inputs (cr_mount c) s"
  have s: "freezing_ok n ?s \<and> parts_only s ?s"
    by (rule parts_fold [of _ n 0]) (use declare_transport_inputs_ok assms(1) in auto)
  then have "b < binding_count (fz_graph ?s)" using b assms(4) parts_only_count [of s ?s] by simp
  then show ?thesis using s assms(2) unfolding freeze_controller_def Some
    by (auto simp: Let_def parts_only_def untouched_def intro!: freezing_ok_handlers)
qed

text \<open>The frozen module itself, once its parts are in the graph.\<close>

lemma push_frozen_ok:
  assumes "core_ok n g" "fm_id f = length (g_modules g)" "\<forall>m \<in> set (fm_imports f). m < n" "\<forall>b \<in> set (fm_bindings f). b < binding_count g"
  shows "core_ok n (push_frozen f g)" "untouched g (push_frozen f g)" "length (g_modules (push_frozen f g)) = Suc (length (g_modules g))"
proof -
  let ?g = "push_frozen f g"
  note C = assms(1) [unfolded core_ok_def]
  have eqs: "g_bindings ?g = g_bindings g" "g_handlers ?g = g_handlers g" "g_collections ?g = g_collections g"
    "g_modules ?g = g_modules g @ [f]" "binding ?g = binding g" "wf_edge ?g = wf_edge g"
    by (simp_all add: push_frozen_def binding_def wf_edge_def fun_eq_iff cong: edge_target.case_cong)
  have "fm_id (gmodule ?g i) = i \<and> (\<forall>m \<in> set (fm_imports (gmodule ?g i)). m < n) \<and>
      (\<forall>b \<in> set (fm_bindings (gmodule ?g i)). b < binding_count ?g)" if i: "i < length (g_modules ?g)" for i
  proof (cases "i < length (g_modules g)")
    case True
    then have "gmodule ?g i = gmodule g i" by (simp add: gmodule_def eqs nth_append)
    then show ?thesis using C True eqs by simp
  next
    case False
    then have "gmodule ?g i = f" "i = length (g_modules g)" using i by (simp_all add: gmodule_def eqs nth_append)
    then show ?thesis using assms(2-4) eqs by simp
  qed
  then show "core_ok n ?g" using C unfolding core_ok_def eqs by blast
  show "untouched g ?g" by (simp add: untouched_def push_frozen_def)
  show "length (g_modules ?g) = Suc (length (g_modules g))" by (simp add: eqs)
qed

text \<open>What freezing one more module leaves: the graph extended, and the first numbers and the root as they were.\<close>

definition same_starts :: "declared \<Rightarrow> declared \<Rightarrow> bool" where
  "same_starts d d' \<longleftrightarrow> dc_first_module d' = dc_first_module d \<and> dc_first_binding d' = dc_first_binding d \<and>
     dc_first_handler d' = dc_first_handler d \<and> dc_root d' = dc_root d"

definition extends :: "freezing \<Rightarrow> freezing \<Rightarrow> bool" where
  "extends s s' \<longleftrightarrow> untouched (fz_graph s) (fz_graph s') \<and> same_starts (fz_declared s) (fz_declared s')"

lemma extends_trans: "extends a b \<Longrightarrow> extends b c \<Longrightarrow> extends a c"
  by (auto simp: extends_def same_starts_def intro: untouched_trans)

lemma parts_only_extends: "parts_only s s' \<Longrightarrow> extends s s'"
  by (auto simp: parts_only_def extends_def same_starts_def)

lemma freeze_node_ok:
  fixes names :: "mod_name list" and load :: "nat option"
  assumes ok: "freezing_ok n s" and node: "fz_nodes s ! index = Some node" and m: "first + p < n"
    and len: "length (g_modules (fz_graph s)) = first + p" and imps: "\<forall>i \<in> set (rg_imports r ! index). frozen_import ids i < n"
  defines "s' \<equiv> freeze_node names ids r load first (p, index) s"
  shows "freezing_ok n s'" "extends s s'" "length (g_modules (fz_graph s')) = Suc (first + p)" "fz_nodes s' = (fz_nodes s)[index := None]"
proof -
  let ?m = "first + p" and ?name = "names ! index"
  define s1 where "s1 = s\<lparr>fz_nodes := (fz_nodes s)[index := None], fz_steps := push_modules (module_reports ?name node) (fz_steps s)\<rparr>"
  obtain s2 bound where two: "fold (freeze_binding ?m (nd_enhancers node)) (List.enumerate 0 (nd_bindings node)) (s1, []) = (s2, bound)"
    by fastforce
  define s3 where "s3 = fold (freeze_controller ?m ?name bound) (nd_controllers node) s2"
  define s4 where "s4 = fold (freeze_input ?m ?name) (nd_inputs node) s3"
  let ?f = "frozen_node ?m ?name ids (rg_imports r ! index) bound load node"
  have s': "s' = s4\<lparr>fz_declared := declare_node ?m node (fz_declared s4), fz_graph := push_frozen ?f (fz_graph s4)\<rparr>"
    by (simp add: s'_def freeze_node_def node Let_def s1_def [symmetric] two s3_def [symmetric] s4_def [symmetric])
  have ok1: "freezing_ok n s1" using ok by (simp add: s1_def freezing_ok_def)
  have b2: "freezing_ok n s2" "parts_only s1 s2" "\<forall>b \<in> set bound. b < binding_count (fz_graph s2)"
    using freeze_bindings_ok [OF ok1 m two] by simp_all
  have ctl: "freezing_ok n (freeze_controller ?m ?name bound c t) \<and> parts_only t (freeze_controller ?m ?name bound c t)"
    if "freezing_ok n t" "binding_count (fz_graph s2) \<le> binding_count (fz_graph t)" for c t
    by (rule freeze_controller_ok [OF that(1) m b2(3) that(2)])
  have s3: "freezing_ok n s3" "parts_only s2 s3"
    using parts_fold [OF ctl b2(1) order_refl, of "nd_controllers node"] by (simp_all add: s3_def)
  have s34: "freezing_ok n s4" "parts_only s3 s4"
    using parts_fold [OF freeze_input_ok s3(1) le0, of "nd_inputs node"] by (simp_all add: s4_def)
  have s4: "freezing_ok n s4" "parts_only s1 s4" "parts_only s2 s4"
    using s34 parts_only_trans [OF s3(2) s34(2)] parts_only_trans [OF b2(2)] by blast+
  have mods: "length (g_modules (fz_graph s4)) = ?m" using s4(2) len by (simp add: parts_only_def s1_def)
  have "\<forall>b \<in> set bound. b < binding_count (fz_graph s4)" using b2(3) parts_only_count [OF s4(3)] by fastforce
  then have push: "core_ok n (push_frozen ?f (fz_graph s4))" "untouched (fz_graph s4) (push_frozen ?f (fz_graph s4))"
    "length (g_modules (push_frozen ?f (fz_graph s4))) = Suc ?m"
    using push_frozen_ok [of n "fz_graph s4" ?f] s4(1) imps mods by (auto simp: frozen_node_def freezing_ok_def)
  have "binding_count (push_frozen ?f (fz_graph s4)) = binding_count (fz_graph s4)" by (simp add: push_frozen_def)
  then show "freezing_ok n s'" using push(1) s4(1) m by (auto simp: s' freezing_ok_def declared_ok_def declare_node_def)
  have "extends s s4" using parts_only_extends [OF s4(2)] by (simp add: extends_def s1_def)
  moreover have "extends s4 s'" using push(2) by (simp add: s' extends_def same_starts_def declare_node_def)
  ultimately show "extends s s'" by (rule extends_trans)
  show "length (g_modules (fz_graph s')) = Suc ?m" using push(3) by (simp add: s')
  show "fz_nodes s' = (fz_nodes s)[index := None]" using s4(2) by (simp add: s' parts_only_def s1_def)
qed

lemma freeze_fold_ok:
  assumes "freezing_ok n s" "length (g_modules (fz_graph s)) = first + p" "first + p + length is \<le> n" "distinct is"
    and "\<forall>i \<in> set is. i < length (fz_nodes s) \<and> fz_nodes s ! i \<noteq> None"
    and "\<forall>k \<in> set is. \<forall>i \<in> set (rg_imports r ! k). frozen_import ids i < n"
  shows "let s' = fold (freeze_node names ids r load first) (List.enumerate p is) s
    in freezing_ok n s' \<and> extends s s' \<and> length (g_modules (fz_graph s')) = first + p + length is"
  using assms
proof (induction "is" arbitrary: s p)
  case Nil then show ?case by (simp add: extends_def same_starts_def)
next
  case (Cons i "is")
  obtain node where node: "fz_nodes s ! i = Some node" using Cons.prems(5) by auto
  let ?s = "freeze_node names ids r load first (p, i) s"
  note one = freeze_node_ok [OF Cons.prems(1) node _ Cons.prems(2), of r ids names load]
  have s: "freezing_ok n ?s" "extends s ?s" "length (g_modules (fz_graph ?s)) = first + Suc p" "fz_nodes ?s = (fz_nodes s)[i := None]"
    using one Cons.prems(3,6) by auto
  have "\<forall>j \<in> set is. j < length (fz_nodes ?s) \<and> fz_nodes ?s ! j \<noteq> None" using Cons.prems(4,5) s(4) by (auto simp: nth_list_update)
  then show ?case using Cons.IH [OF s(1,3)] Cons.prems(3,4,6) extends_trans [OF s(2)] by (auto simp: Let_def)
qed

section \<open>The freeze\<close>

lemma core_ok_collections: "core_ok n g \<Longrightarrow> ids_below (binding_count g) (g_collections g)"
  by (simp add: core_ok_def)

lemma core_ok_mono:
  assumes "core_ok n g" "n \<le> m"
  shows "core_ok m g"
  using assms order_less_le_trans unfolding core_ok_def by blast

lemma core_ok_cong:
  assumes "core_ok n g" "g_bindings g' = g_bindings g" "g_modules g' = g_modules g" "g_handlers g' = g_handlers g"
    "ids_below (binding_count g) (g_collections g')"
  shows "core_ok n g'"
proof -
  have "binding g' = binding g" "gmodule g' = gmodule g" "wf_edge g' = wf_edge g"
    using assms(2,3) by (simp_all add: binding_def gmodule_def wf_edge_def fun_eq_iff cong: edge_target.case_cong)
  then show ?thesis using assms unfolding core_ok_def by simp
qed

lemma merge_collections_below:
  "ids_below n t \<Longrightarrow> ids_below n cs \<Longrightarrow> ids_below n (fold merge_collection cs t)"
proof (induction cs arbitrary: t)
  case (Cons c cs)
  have "ids_below n (merge_collection c t)" "ids_below n cs"
    using Cons.prems ids_below_update [of n t "snd c" "fst c"] by (auto simp: merge_collection_def case_prod_unfold ids_below_def)
  then show ?case using Cons.IH by simp
qed simp

text \<open>A pass over the bindings that keeps their number, id, origin, record and edges.\<close>

definition same_wiring :: "frozen_binding \<Rightarrow> frozen_binding \<Rightarrow> bool" where
  "same_wiring b b' \<longleftrightarrow> fb_id b' = fb_id b \<and> fb_origin b' = fb_origin b \<and> fb_record b' = fb_record b \<and> fb_edges b' = fb_edges b"

lemma core_ok_rewire:
  assumes "core_ok n g" "length bs = binding_count g" "\<forall>b < binding_count g. same_wiring (g_bindings g ! b) (bs ! b)"
  shows "core_ok n (g\<lparr>g_bindings := bs\<rparr>)"
proof -
  let ?g = "g\<lparr>g_bindings := bs\<rparr>"
  have eqs: "wf_edge ?g = wf_edge g" "gmodule ?g = gmodule g" "binding_count ?g = binding_count g"
    using assms(2) by (simp_all add: gmodule_def wf_edge_def fun_eq_iff cong: edge_target.case_cong)
  have "\<forall>b < binding_count g. same_wiring (binding g b) (binding ?g b)" using assms(3) by (simp add: binding_def)
  then show ?thesis using assms(1) unfolding core_ok_def eqs same_wiring_def by simp
qed

lemma mark_role_contributions_ok:
  assumes "core_ok n g" "mark_role_contributions g first errors = (g', errors')"
  shows "core_ok n g'" "\<exists>bs. g' = g\<lparr>g_bindings := bs\<rparr>" "\<exists>new. errors' = errors @ new"
proof -
  obtain roles where g': "g' = g\<lparr>g_bindings := map (mark_role roles) (g_bindings g)\<rparr>"
    and new: "\<exists>new. errors' = errors @ new"
    using assms(2) by (auto simp: mark_role_contributions_def Let_def)
  have "core_ok n (g\<lparr>g_bindings := map (mark_role roles) (g_bindings g)\<rparr>)"
    by (rule core_ok_rewire [OF assms(1)]) (simp_all add: same_wiring_def mark_role_def)
  then show "core_ok n g'" "\<exists>bs. g' = g\<lparr>g_bindings := bs\<rparr>" "\<exists>new. errors' = errors @ new" using g' new by auto
qed

lemma freeze_nodes_ok:
  assumes r: "wf_registry r (length (g_modules g))" and core: "core_ok (length (g_modules g)) g"
  defines "n \<equiv> length (g_modules g) + length (rg_post_order r)" and "ids \<equiv> module_ids r (length (g_modules g))"
  shows "freezing_ok n (freeze_nodes names r load g st)" "untouched g (fz_graph (freeze_nodes names r load g st))"
    "same_starts (declared_new g ids) (fz_declared (freeze_nodes names r load g st))"
    "length (g_modules (fz_graph (freeze_nodes names r load g st))) = n"
proof -
  let ?first = "length (g_modules g)"
  let ?s = "\<lparr>fz_graph = g, fz_declared = declared_new g ids, fz_contributions = [],
     fz_seen = (\<lambda>h. hd_transport (hr_decl h)) ` set (g_handlers g), fz_nodes = map Some (rg_nodes r), fz_steps = st\<rparr>"
  have root: "dc_root (declared_new g ids) < n"
  proof (cases ids)
    case Nil then show ?thesis using module_ids_range(1) [OF r, of ?first] r by (simp add: wf_registry_def ids_def)
  next
    case (Cons a list) then show ?thesis using module_ids_range(2) [OF r, of ?first] by (simp add: declared_new_def n_def ids_def)
  qed
  have "core_ok n g" using core_ok_mono [OF core] by (simp add: n_def)
  then have ok: "freezing_ok n ?s" using root by (simp add: freezing_ok_def declared_ok_def declared_new_def ids_below_def)
  have len: "length (g_modules (fz_graph ?s)) = ?first + 0" by simp
  have nodes: "\<forall>i \<in> set (rg_post_order r). i < length (fz_nodes ?s) \<and> fz_nodes ?s ! i \<noteq> None"
    using r by (auto simp: wf_registry_def)
  have imps: "\<forall>k \<in> set (rg_post_order r). \<forall>i \<in> set (rg_imports r ! k). frozen_import ids i < n"
    using frozen_import_range [OF r] r by (auto simp: wf_registry_def n_def ids_def)
  have dist: "distinct (rg_post_order r)" "?first + 0 + length (rg_post_order r) \<le> n" using r by (simp_all add: wf_registry_def n_def)
  have eq: "freeze_nodes names r load g st =
      fold (freeze_node names ids r load ?first) (List.enumerate 0 (rg_post_order r)) ?s"
    by (simp add: freeze_nodes_def Let_def ids_def)
  note F = freeze_fold_ok [OF ok len dist(2,1) nodes imps, of names load, folded eq, unfolded Let_def]
  show "freezing_ok n (freeze_nodes names r load g st)" "untouched g (fz_graph (freeze_nodes names r load g st))"
    "same_starts (declared_new g ids) (fz_declared (freeze_nodes names r load g st))"
    "length (g_modules (fz_graph (freeze_nodes names r load g st))) = n"
    using F by (simp_all add: extends_def n_def)
qed

text \<open>A graph frozen against a base: the modules follow the base's, and every number is in range.\<close>

lemma freeze_result:
  assumes r: "wf_registry r (length (g_modules g))" and core: "core_ok (length (g_modules g)) g"
    and run: "freeze g r load plan steps = (g', d, steps')"
  shows "core_ok (length (g_modules g')) g'" "declared_ok (length (g_modules g')) d"
    "length (g_modules g') = length (g_modules g) + length (rg_nodes r)" "same_starts (declared_new g (module_ids r (length (g_modules g)))) d"
    "g_visibility g' = g_visibility g" "g_exported g' = g_exported g" "binding_count g \<le> binding_count g'"
proof -
  define names where "names = registry_names r (Some g)"
  define g0 where "g0 = g\<lparr>g_secrets := register_secrets r (g_secrets g)\<rparr>"
  obtain r' st where plan: "apply_plan r names plan g0 (registration_reports r names plan g0 steps) = (r', st)" by fastforce
  define s where "s = freeze_nodes names r' load g0 st"
  define n where "n = length (g_modules g) + length (rg_nodes r)"
  have shape: "same_shape r r'"
    using apply_plan_shape [of r names plan g0 "registration_reports r names plan g0 steps"] plan by simp
  have g0: "length (g_modules g0) = length (g_modules g)" by (simp add: g0_def)
  have r': "wf_registry r' (length (g_modules g0))" using same_shape_wf [OF shape r] g0 by simp
  have core0: "core_ok (length (g_modules g0)) g0"
    unfolding g0 by (rule core_ok_cong [OF core]) (simp_all add: g0_def core_ok_collections [OF core])
  have order: "length (g_modules g0) + length (rg_post_order r') = n"
    using r shape distinct_card [of "rg_post_order r"] by (simp add: wf_registry_def same_shape_def n_def g0)
  have ids: "module_ids r' (length (g_modules g0)) = module_ids r (length (g_modules g))"
    using shape g0 by (simp add: module_ids_def same_shape_def)
  note S = freeze_nodes_ok [OF r' core0, of names load st, folded s_def, unfolded order ids]
  let ?merged = "(fz_graph s)\<lparr>g_collections := fold merge_collection (fz_contributions s) (g_collections (fz_graph s))\<rparr>"
  have merged: "core_ok n ?merged"
  proof (rule core_ok_cong)
    show core_s: "core_ok n (fz_graph s)" using S(1) by (simp add: freezing_ok_def)
    show "ids_below (binding_count (fz_graph s)) (g_collections ?merged)"
      using merge_collections_below [OF core_ok_collections [OF core_s]] S(1) by (simp add: freezing_ok_def)
  qed simp_all
  obtain errors where mark: "mark_role_contributions ?merged (dc_first_binding (fz_declared s)) (sp_bindings (fz_steps s)) = (g', errors)"
    and d: "d = fz_declared s"
    using run by (simp add: freeze_def Let_def names_def [symmetric] g0_def [symmetric] plan s_def [symmetric] split: prod.splits)
  obtain bs where g': "g' = ?merged\<lparr>g_bindings := bs\<rparr>" using mark_role_contributions_ok(2) [OF merged mark] by blast
  have mods: "length (g_modules g') = n" using S(4) by (simp add: g')
  then show "core_ok (length (g_modules g')) g'" using mark_role_contributions_ok(1) [OF merged mark] by simp
  show "declared_ok (length (g_modules g')) d" using S(1) mods by (simp add: d freezing_ok_def)
  show "length (g_modules g') = length (g_modules g) + length (rg_nodes r)" using mods by (simp add: n_def)
  show "same_starts (declared_new g (module_ids r (length (g_modules g)))) d"
    using S(3) g0 by (simp add: d declared_new_def same_starts_def g0_def split: list.splits)
  show "g_visibility g' = g_visibility g" "g_exported g' = g_exported g" using S(2) by (simp_all add: g' untouched_def g0_def)
  have "binding_count (fz_graph s) = binding_count g'" using mark by (auto simp: mark_role_contributions_def Let_def)
  then show "binding_count g \<le> binding_count g'" using S(2) by (auto simp: untouched_def g0_def)
qed

end
