(* ===== verification/Scope_Laws.thy ===== *)
theory Scope_Laws
  imports Scopes Cycles Visibility_Laws
begin

text \<open>
  The needs-execution pass computes the least set of bindings that need an execution and gives each
  binding the scope its declaration, its role and its need say; the path reported for a violation is a
  path of reads that ends at a binding reading execution data.
\<close>

section \<open>The least solution\<close>

definition reads_execution :: "graph \<Rightarrow> nat \<Rightarrow> bool" where
  "reads_execution g b \<longleftrightarrow> br_scope (fb_record (binding g b)) = SK_PerExecution \<or>
     (\<exists>e \<in> set (fb_edges (binding g b)). is_execution_target (ed_target e))"

definition passes_need :: "graph \<Rightarrow> nat \<Rightarrow> bool" where
  "passes_need g b \<longleftrightarrow> (case br_scope (fb_record (binding g b)) of
      SK_PerExecution \<Rightarrow> True | SK_Transient \<Rightarrow> True | SK_Auto \<Rightarrow> fb_role (binding g b) \<noteq> RoleProvider | SK_Singleton \<Rightarrow> False)"

inductive needs :: "graph \<Rightarrow> nat \<Rightarrow> bool" for g where
  needs_direct: "b < binding_count g \<Longrightarrow> reads_execution g b \<Longrightarrow> needs g b"
| needs_through: "b < binding_count g \<Longrightarrow> d \<in> set (construction_deps g b) \<Longrightarrow> d < binding_count g \<Longrightarrow>
    needs g d \<Longrightarrow> passes_need g d \<Longrightarrow> needs g b"

definition scope_given :: "frozen_binding \<Rightarrow> bool \<Rightarrow> effective" where
  "scope_given b need = (if need \<and> br_scope (fb_record b) = SK_Auto \<and> fb_role b \<noteq> RoleProvider then EffPerExecution
     else declared_effective (br_scope (fb_record b)))"

definition with_need :: "frozen_binding \<Rightarrow> bool \<Rightarrow> frozen_binding" where
  "with_need b need = b\<lparr>fb_effective := scope_given b need, fb_needs_execution := need\<rparr>"

section \<open>The pass\<close>

text \<open>A graph with the needs \<open>ns\<close> marked and every scope given accordingly.\<close>

definition marked :: "graph \<Rightarrow> bool list \<Rightarrow> graph" where
  "marked g ns = g\<lparr>g_bindings := map2 with_need (g_bindings g) ns\<rparr>"

lemma marked_binding:
  "length ns = binding_count g \<Longrightarrow> b < binding_count g \<Longrightarrow> binding (marked g ns) b = with_need (binding g b) (ns ! b)"
  by (simp add: marked_def binding_def)

lemma marked_count [simp]: "length ns = binding_count g \<Longrightarrow> binding_count (marked g ns) = binding_count g"
  by (simp add: marked_def)

lemma with_need_simps [simp]:
  "fb_record (with_need b n) = fb_record b" "fb_edges (with_need b n) = fb_edges b" "fb_origin (with_need b n) = fb_origin b"
  "fb_role (with_need b n) = fb_role b" "fb_id (with_need b n) = fb_id b" "fb_needs_execution (with_need b n) = n"
  "fb_effective (with_need b n) = scope_given b n" "with_need (with_need b m) n = with_need b n"
  by (simp_all add: with_need_def scope_given_def)

lemma marked_deps:
  assumes "length ns = binding_count g" "b < binding_count g"
  shows "construction_deps (marked g ns) b = construction_deps g b"
proof -
  have l: "lookup (marked g ns) = lookup g" and c: "collection (marked g ns) = collection g"
    by (simp_all add: marked_def lookup_def collection_def fun_eq_iff)
  have "edge_deps (marked g ns) t = edge_deps g t" for t using c by (cases t) simp_all
  then have e: "edge_deps (marked g ns) = edge_deps g" by blast
  show ?thesis unfolding construction_deps_def alias_target_def l e marked_binding [OF assms] with_need_simps ..
qed

lemma promote_with_need: "promote ((with_need b m)\<lparr>fb_needs_execution := True\<rparr>) = with_need b True"
  by (auto simp: promote_def with_need_def scope_given_def)

lemma start_scope_with_need:
  "start_scope b = with_need b (br_scope (fb_record b) = SK_PerExecution \<or> list_ex (\<lambda>e. is_execution_target (ed_target e)) (fb_edges b))"
  by (simp add: start_scope_def with_need_def scope_given_def promote_def Let_def)

lemma start_scope_marked:
  "g\<lparr>g_bindings := map start_scope (g_bindings g)\<rparr> = marked g (map (reads_execution g) [0..<binding_count g])"
proof -
  have "map start_scope (g_bindings g) = map2 with_need (g_bindings g) (map (reads_execution g) [0..<binding_count g])"
    by (rule nth_equalityI) (simp_all add: start_scope_with_need reads_execution_def binding_def list_ex_iff)
  then show ?thesis by (simp add: marked_def)
qed

lemma passes_marked:
  assumes "length ns = binding_count g" "b < binding_count g" "reads_execution g b \<longrightarrow> ns ! b"
  shows "passes_execution (marked g ns) b \<longleftrightarrow> ns ! b \<and> passes_need g b"
  using assms(3)
  by (auto simp: passes_execution_def marked_binding [OF assms(1,2)] scope_given_def declared_effective_def passes_need_def
      reads_execution_def split: scope_kind.splits if_splits)

lemma marked_update:
  assumes "length ns = binding_count g" "b < binding_count g"
  shows "(marked g ns)\<lparr>g_bindings := (g_bindings (marked g ns))[b := with_need (binding g b) True]\<rparr> = marked g (ns[b := True])"
  using assms by (simp add: marked_def list_eq_iff_nth_eq nth_list_update binding_def)

text \<open>Who reads a binding.\<close>

lemma add_readers:
  "length (fold (add_reader r) ds rs) = length rs \<and>
   (d < length rs \<longrightarrow> set (fold (add_reader r) ds rs ! d) = set (rs ! d) \<union> (if d \<in> set ds then {r} else {}))"
proof (induction ds arbitrary: rs)
  case (Cons a ds)
  have "set (add_reader r a rs ! d) = set (rs ! d) \<union> (if d = a then {r} else {})" if "d < length rs"
    using that by (cases "d = a") (simp_all add: add_reader_def)
  then show ?case using Cons.IH [of "add_reader r a rs"] by (auto simp: add_reader_def)
qed simp

lemma readers_fold:
  "length (fold (\<lambda>r. fold (add_reader r) (f r)) bs rs) = length rs \<and>
   (d < length rs \<longrightarrow> set (fold (\<lambda>r. fold (add_reader r) (f r)) bs rs ! d) = set (rs ! d) \<union> {r \<in> set bs. d \<in> set (f r)})"
proof (induction bs arbitrary: rs)
  case (Cons a bs)
  show ?case using Cons.IH [of "fold (add_reader a) (f a) rs"] add_readers [of a "f a" rs d] by auto
qed simp

lemma readers_of_set:
  "d < binding_count g \<Longrightarrow> set (readers_of g ! d) = {b. b < binding_count g \<and> d \<in> set (construction_deps g b)}"
  unfolding readers_of_def using readers_fold [of "construction_deps g" "[0..<binding_count g]" "replicate (binding_count g) []" d]
  by auto

definition spread_inv :: "graph \<Rightarrow> nat set \<Rightarrow> needing \<Rightarrow> bool" where
  "spread_inv g X s \<longleftrightarrow> (\<exists>ns. length ns = binding_count g \<and> nx_graph s = marked g ns \<and>
     (\<forall>b < binding_count g. reads_execution g b \<longrightarrow> ns ! b) \<and>
     (\<forall>b < binding_count g. ns ! b \<longrightarrow> needs g b) \<and>
     (\<forall>b \<in> set (nx_queue s). b < binding_count g \<and> ns ! b \<and> passes_need g b) \<and>
     (\<forall>d < binding_count g. ns ! d \<longrightarrow> passes_need g d \<longrightarrow> d \<notin> set (nx_queue s) \<union> X \<longrightarrow>
        (\<forall>b < binding_count g. d \<in> set (construction_deps g b) \<longrightarrow> ns ! b)))"

definition unmarked :: "needing \<Rightarrow> nat" where
  "unmarked s = length (filter (\<lambda>b. \<not> fb_needs_execution b) (g_bindings (nx_graph s)))"

lemma spread_reader_inv:
  assumes inv: "spread_inv g {dep} s" and r: "r < binding_count g" "dep \<in> set (construction_deps g r)" "dep < binding_count g"
    "passes_need g dep" "needs g dep"
  shows "spread_inv g {dep} (spread_reader r s) \<and> fb_needs_execution (binding (nx_graph (spread_reader r s)) r) \<and>
    (\<forall>b < binding_count g. fb_needs_execution (binding (nx_graph s) b) \<longrightarrow> fb_needs_execution (binding (nx_graph (spread_reader r s)) b))"
proof -
  obtain ns where ns: "length ns = binding_count g" "nx_graph s = marked g ns"
    "\<forall>b < binding_count g. reads_execution g b \<longrightarrow> ns ! b" "\<forall>b < binding_count g. ns ! b \<longrightarrow> needs g b"
    "\<forall>b \<in> set (nx_queue s). b < binding_count g \<and> ns ! b \<and> passes_need g b"
    "\<forall>d < binding_count g. ns ! d \<longrightarrow> passes_need g d \<longrightarrow> d \<notin> set (nx_queue s) \<union> {dep} \<longrightarrow>
        (\<forall>b < binding_count g. d \<in> set (construction_deps g b) \<longrightarrow> ns ! b)"
    using inv unfolding spread_inv_def by blast
  show ?thesis
  proof (cases "ns ! r")
    case True
    then have "spread_reader r s = s" using ns(1,2) r(1) by (simp add: spread_reader_def marked_binding)
    then show ?thesis using inv True ns(1,2) r(1) by (simp add: marked_binding)
  next
    case False
    let ?ns = "ns[r := True]"
    have len: "length ?ns = binding_count g" using ns(1) by simp
    have at: "?ns ! b \<longleftrightarrow> b = r \<or> ns ! b" if "b < binding_count g" for b using that r(1) ns(1) by (simp add: nth_list_update)
    have upd: "(marked g ns)\<lparr>g_bindings := (g_bindings (marked g ns))[r := promote ((binding (marked g ns) r)\<lparr>fb_needs_execution := True\<rparr>)]\<rparr> = marked g ?ns"
      unfolding marked_binding [OF ns(1) r(1)] promote_with_need using marked_update [OF ns(1) r(1)] .
    have reads: "\<forall>b < binding_count g. reads_execution g b \<longrightarrow> ?ns ! b" using ns(3) at by blast
    have pass: "passes_execution (marked g ?ns) r \<longleftrightarrow> passes_need g r"
      using passes_marked [OF len r(1)] reads r(1) ns(1) by simp
    have step: "spread_reader r s = s\<lparr>nx_graph := marked g ?ns, nx_queue := (if passes_need g r then nx_queue s @ [r] else nx_queue s)\<rparr>"
      using False ns(1,2) r(1) upd pass by (simp add: spread_reader_def Let_def marked_binding)
    have "needs g r" using needs_through [OF r(1,2,3,5,4)] .
    then have sound: "\<forall>b < binding_count g. ?ns ! b \<longrightarrow> needs g b" using ns(4) at by blast
    have queue: "\<forall>b \<in> set (nx_queue (spread_reader r s)). b < binding_count g \<and> ?ns ! b \<and> passes_need g b"
      using ns(5) at r(1) by (auto simp: step)
    have closed: "\<forall>b < binding_count g. d \<in> set (construction_deps g b) \<longrightarrow> ?ns ! b"
      if d: "d < binding_count g" "?ns ! d" "passes_need g d" "d \<notin> set (nx_queue (spread_reader r s)) \<union> {dep}" for d
    proof -
      have "d \<noteq> r" using d(3,4) by (auto simp: step split: if_splits)
      then have "ns ! d" "d \<notin> set (nx_queue s) \<union> {dep}" using d at by (auto simp: step split: if_splits)
      then show ?thesis using ns(6) d(1,3) at by blast
    qed
    have gr: "nx_graph (spread_reader r s) = marked g ?ns" by (simp add: step)
    have "spread_inv g {dep} (spread_reader r s)"
      unfolding spread_inv_def using len gr reads sound queue closed by blast
    moreover have "fb_needs_execution (binding (nx_graph (spread_reader r s)) b) \<longleftrightarrow> ?ns ! b" if "b < binding_count g" for b
      unfolding gr marked_binding [OF len that] by simp
    moreover have "fb_needs_execution (binding (nx_graph s) b) \<longleftrightarrow> ns ! b" if "b < binding_count g" for b
      unfolding ns(2) marked_binding [OF ns(1) that] by simp
    ultimately show ?thesis using r(1) at by blast
  qed
qed

lemma spread_readers_inv:
  assumes "spread_inv g {dep} s" "dep < binding_count g" "passes_need g dep" "needs g dep"
    and "\<forall>r \<in> set rs. r < binding_count g \<and> dep \<in> set (construction_deps g r)"
  shows "spread_inv g {dep} (fold spread_reader rs s) \<and>
    (\<forall>r \<in> set rs. fb_needs_execution (binding (nx_graph (fold spread_reader rs s)) r)) \<and>
    (\<forall>b < binding_count g. fb_needs_execution (binding (nx_graph s) b) \<longrightarrow>
       fb_needs_execution (binding (nx_graph (fold spread_reader rs s)) b))"
  using assms(1,5)
proof (induction rs arbitrary: s)
  case (Cons r rs)
  have r: "r < binding_count g" "dep \<in> set (construction_deps g r)" using Cons.prems(2) by auto
  note one = spread_reader_inv [OF Cons.prems(1) r assms(2-4)]
  have "\<forall>r \<in> set rs. r < binding_count g \<and> dep \<in> set (construction_deps g r)" using Cons.prems(2) by simp
  note ih = Cons.IH [OF conjunct1 [OF one] this]
  show ?case using ih one r(1) by (simp only: fold_simps comp_apply list.set ball_simps) blast
qed simp

lemma spread_step_inv:
  assumes inv: "spread_inv g {} s" and go: "nx_queue s \<noteq> []"
  shows "spread_inv g {} (spread_step (readers_of g) s)"
proof -
  obtain dep queue where q: "nx_queue s = dep # queue" using go by (cases "nx_queue s") auto
  let ?s = "s\<lparr>nx_queue := queue\<rparr>" and ?rs = "readers_of g ! dep"
  obtain ns where ns: "length ns = binding_count g" "nx_graph s = marked g ns"
    "\<forall>b < binding_count g. reads_execution g b \<longrightarrow> ns ! b" "\<forall>b < binding_count g. ns ! b \<longrightarrow> needs g b"
    "\<forall>b \<in> set (nx_queue s). b < binding_count g \<and> ns ! b \<and> passes_need g b"
    "\<forall>d < binding_count g. ns ! d \<longrightarrow> passes_need g d \<longrightarrow> d \<notin> set (nx_queue s) \<union> {} \<longrightarrow>
        (\<forall>b < binding_count g. d \<in> set (construction_deps g b) \<longrightarrow> ns ! b)"
    using inv unfolding spread_inv_def by blast
  have dep: "dep < binding_count g" "passes_need g dep" "needs g dep" using ns(4,5) q by auto
  have "\<forall>d < binding_count g. ns ! d \<longrightarrow> passes_need g d \<longrightarrow> d \<notin> set queue \<union> {dep} \<longrightarrow>
        (\<forall>b < binding_count g. d \<in> set (construction_deps g b) \<longrightarrow> ns ! b)" using ns(6) q by simp
  then have "spread_inv g {dep} ?s" unfolding spread_inv_def using ns(1-5) q by (intro exI [of _ ns]) simp
  moreover have rs: "\<forall>r \<in> set ?rs. r < binding_count g \<and> dep \<in> set (construction_deps g r)" using readers_of_set [OF dep(1)] by blast
  ultimately have all: "spread_inv g {dep} (fold spread_reader ?rs ?s)"
    "\<forall>r \<in> set ?rs. fb_needs_execution (binding (nx_graph (fold spread_reader ?rs ?s)) r)"
    using spread_readers_inv [OF _ dep] by blast+
  let ?t = "fold spread_reader ?rs ?s"
  obtain ms where ms: "length ms = binding_count g" "nx_graph ?t = marked g ms"
    "\<forall>b < binding_count g. reads_execution g b \<longrightarrow> ms ! b" "\<forall>b < binding_count g. ms ! b \<longrightarrow> needs g b"
    "\<forall>b \<in> set (nx_queue ?t). b < binding_count g \<and> ms ! b \<and> passes_need g b"
    "\<forall>d < binding_count g. ms ! d \<longrightarrow> passes_need g d \<longrightarrow> d \<notin> set (nx_queue ?t) \<union> {dep} \<longrightarrow>
        (\<forall>b < binding_count g. d \<in> set (construction_deps g b) \<longrightarrow> ms ! b)"
    using all(1) unfolding spread_inv_def by blast
  have "ms ! b" if "b < binding_count g" "dep \<in> set (construction_deps g b)" for b
    using all(2) readers_of_set [OF dep(1)] that unfolding ms(2) by (auto simp: marked_binding [OF ms(1)])
  then have "\<forall>d < binding_count g. ms ! d \<longrightarrow> passes_need g d \<longrightarrow> d \<notin> set (nx_queue ?t) \<union> {} \<longrightarrow>
        (\<forall>b < binding_count g. d \<in> set (construction_deps g b) \<longrightarrow> ms ! b)" using ms(6) by blast
  then have "spread_inv g {} ?t" unfolding spread_inv_def using ms(1-5) by blast
  then show ?thesis by (simp add: spread_step_def q)
qed

lemma filter_update_less:
  "i < length xs \<Longrightarrow> P (xs ! i) \<Longrightarrow> \<not> P y \<Longrightarrow> length (filter P (xs[i := y])) < length (filter P xs)"
  by (induction xs arbitrary: i) (auto split: nat.splits)

lemma promote_needs [simp]: "fb_needs_execution (promote b) = fb_needs_execution b"
  by (simp add: promote_def)

lemma spread_reader_dec:
  assumes "r < binding_count (nx_graph s)"
  shows "spread_reader r s = s \<or> unmarked (spread_reader r s) < unmarked s"
proof (cases "fb_needs_execution (binding (nx_graph s) r)")
  case False
  then show ?thesis using filter_update_less [of r "g_bindings (nx_graph s)" "\<lambda>b. \<not> fb_needs_execution b"
      "promote ((binding (nx_graph s) r)\<lparr>fb_needs_execution := True\<rparr>)"] assms
    by (simp add: spread_reader_def unmarked_def Let_def binding_def)
qed (simp add: spread_reader_def Let_def)

lemma spread_reader_count [simp]: "binding_count (nx_graph (spread_reader r s)) = binding_count (nx_graph s)"
  by (simp add: spread_reader_def Let_def)

lemma spread_readers_dec:
  "\<forall>r \<in> set rs. r < binding_count (nx_graph s) \<Longrightarrow> fold spread_reader rs s = s \<or> unmarked (fold spread_reader rs s) < unmarked s"
proof (induction rs arbitrary: s)
  case (Cons r rs)
  have "fold spread_reader rs (spread_reader r s) = spread_reader r s \<or> unmarked (fold spread_reader rs (spread_reader r s)) < unmarked (spread_reader r s)"
    using Cons.prems by (intro Cons.IH) simp
  then show ?case using spread_reader_dec [of r s] Cons.prems by auto
qed simp

lemma spread_step_dec:
  assumes inv: "spread_inv g {} s" and go: "nx_queue s \<noteq> []"
  shows "unmarked (spread_step (readers_of g) s) < unmarked s \<or>
    unmarked (spread_step (readers_of g) s) = unmarked s \<and> length (nx_queue (spread_step (readers_of g) s)) < length (nx_queue s)"
proof -
  obtain dep queue where q: "nx_queue s = dep # queue" using go by (cases "nx_queue s") auto
  let ?s = "s\<lparr>nx_queue := queue\<rparr>" and ?rs = "readers_of g ! dep"
  have dep: "dep < binding_count g" and cnt: "binding_count (nx_graph s) = binding_count g"
    using inv q unfolding spread_inv_def by auto
  have "\<forall>r \<in> set ?rs. r < binding_count (nx_graph ?s)" using readers_of_set [OF dep] cnt by auto
  then have "fold spread_reader ?rs ?s = ?s \<or> unmarked (fold spread_reader ?rs ?s) < unmarked ?s" by (rule spread_readers_dec)
  then show ?thesis by (auto simp: spread_step_def q unmarked_def)
qed

lemma needs_execution_result:
  obtains ns where "needs_execution g = Some (marked g ns)" "length ns = binding_count g"
    "\<And>b. b < binding_count g \<Longrightarrow> ns ! b \<longleftrightarrow> needs g b"
proof -
  let ?ns = "map (reads_execution g) [0..<binding_count g]"
  let ?g = "marked g ?ns" and ?go = "\<lambda>s :: needing. nx_queue s \<noteq> []"
  let ?s = "\<lparr>nx_graph = ?g, nx_queue = filter (passes_execution ?g) [0..<binding_count ?g]\<rparr>"
  have len: "length ?ns = binding_count g" by simp
  have rd: "readers_of ?g = readers_of g"
    unfolding readers_of_def marked_count [OF len] by (rule fold_cong) (auto simp: marked_deps [OF len])
  have pass: "passes_execution ?g b \<longleftrightarrow> ?ns ! b \<and> passes_need g b" if "b < binding_count g" for b
    using passes_marked [OF len that] that by simp
  have init: "spread_inv g {} ?s"
    unfolding spread_inv_def using pass by (intro exI [of _ ?ns]) (auto intro: needs_direct)
  obtain t where t: "while_option ?go (spread_step (readers_of g)) ?s = Some t" "spread_inv g {} t" "\<not> ?go t"
    by (rule while_option_measure2 [of "spread_inv g {}" ?s ?go "spread_step (readers_of g)" unmarked "\<lambda>s. length (nx_queue s)",
          OF init spread_step_inv spread_step_dec])
  obtain ns where ns: "length ns = binding_count g" "nx_graph t = marked g ns"
    "\<forall>b < binding_count g. reads_execution g b \<longrightarrow> ns ! b" "\<forall>b < binding_count g. ns ! b \<longrightarrow> needs g b"
    "\<forall>d < binding_count g. ns ! d \<longrightarrow> passes_need g d \<longrightarrow> (\<forall>b < binding_count g. d \<in> set (construction_deps g b) \<longrightarrow> ns ! b)"
    using t(2,3) unfolding spread_inv_def by auto
  have "ns ! b" if "needs g b" "b < binding_count g" for b
    using that by (induction rule: needs.induct) (use ns(3,5) in blast)+
  then have "ns ! b \<longleftrightarrow> needs g b" if "b < binding_count g" for b using ns(4) that by blast
  moreover have "needs_execution g = Some (marked g ns)"
    unfolding needs_execution_def Let_def start_scope_marked rd using t(1) ns(2) by simp
  ultimately show thesis using that ns(1) by blast
qed

text \<open>
  C15. The needs-execution pass ends and marks exactly the bindings that need an execution: those that are
  execution-scoped or read execution data themselves, and those with a dependency that needs one and passes
  the need upward, which an execution-scoped, a transient and an inferred controller or enhancer do and a
  singleton does not. An inferred controller or enhancer that needs one is built per execution; every
  other binding keeps the scope it declares.
\<close>

theorem needs_execution_least:
  "\<exists>h. needs_execution g = Some h \<and>
     g_bindings h = map (\<lambda>b. with_need (binding g b) (needs g b)) [0..<binding_count g]"
proof -
  obtain ns where ns: "needs_execution g = Some (marked g ns)" "length ns = binding_count g"
    "\<And>b. b < binding_count g \<Longrightarrow> ns ! b \<longleftrightarrow> needs g b" using needs_execution_result [of g] by blast
  have "g_bindings (marked g ns) = map (\<lambda>b. with_need (binding g b) (needs g b)) [0..<binding_count g]"
    using ns(2,3) marked_binding [OF ns(2)] by (intro nth_equalityI) (simp_all add: binding_def [symmetric])
  then show ?thesis using ns(1) by blast
qed

section \<open>The reported path\<close>

definition passing_reads :: "graph \<Rightarrow> succ_lists" where
  "passing_reads g = map (\<lambda>b. filter (passes_execution g) (construction_deps g b)) [0..<binding_count g]"

definition read_path :: "graph \<Rightarrow> nat \<Rightarrow> nat \<Rightarrow> nat list \<Rightarrow> bool" where
  "read_path g src dst path \<longleftrightarrow> path \<noteq> [] \<and> hd path = src \<and> last path = dst \<and>
     (\<forall>i. Suc i < length path \<longrightarrow> path ! Suc i \<in> set (construction_deps g (path ! i)) \<and> passes_execution g (path ! Suc i))"

lemma passing_reads_edge:
  "(u, v) \<in> edges_of (passing_reads g) \<Longrightarrow> u < binding_count g \<and> v \<in> set (construction_deps g u) \<and> passes_execution g v"
  by (auto simp: edges_of_iff passing_reads_def)

lemma path_back_result:
  assumes ok: "parent_ok (passing_reads g) src ps" and dep: "dep \<in> fst ` set ps"
  shows "\<exists>path. path_back ps src dep = Some path \<and> read_path g src dep path"
proof -
  let ?E = "edges_of (passing_reads g)"
  define I where "I = (\<lambda>(current, path, stop). path \<noteq> [] \<and> hd path = dep \<and>
    (\<forall>i. Suc i < length (rev path) \<longrightarrow> (rev path ! i, rev path ! Suc i) \<in> ?E) \<and>
    (if stop then last path = src else last path = current \<and> current \<in> fst ` set ps))"
  have init: "I (dep, [dep], False)" using dep by (simp add: I_def)
  have keep: "I (path_back_step ps src s) \<and>
      (if snd (snd (path_back_step ps src s)) then 0 else parent_rank ps (fst (path_back_step ps src s))) < parent_rank ps (fst s)"
    if s: "I s" "path_back_go ps s" for s
  proof -
    obtain v path where v: "s = (v, path, False)" "v \<in> fst ` set ps" "path \<noteq> []" "hd path = dep" "last path = v"
      and c: "\<forall>i. Suc i < length (rev path) \<longrightarrow> (rev path ! i, rev path ! Suc i) \<in> ?E"
      using s by (auto simp: I_def path_back_go_def)
    obtain q where q: "map_of ps v = Some q" "(q, v) \<in> ?E" "q \<in> insert src (fst ` set ps)" "parent_rank ps q < parent_rank ps v"
      using parent_step [OF ok v(2)] by blast
    have "hd (rev path) = v" using v(3,5) by (simp add: hd_rev)
    then have "\<forall>i. Suc i < length (q # rev path) \<longrightarrow> ((q # rev path) ! i, (q # rev path) ! Suc i) \<in> ?E"
      by (intro chain_Cons [of "\<lambda>a b. (a, b) \<in> ?E"]) (use q(2) v(3) c in auto)
    then show ?thesis using v q by (auto simp: I_def path_back_step_def)
  qed
  have keep1: "\<And>s. I s \<Longrightarrow> path_back_go ps s \<Longrightarrow> I (path_back_step ps src s)"
    and dec: "\<And>s. I s \<Longrightarrow> path_back_go ps s \<Longrightarrow>
      (path_back_step ps src s, s) \<in> measure (\<lambda>s. if snd (snd s) then 0 else parent_rank ps (fst s))"
    using keep by (fastforce simp: path_back_go_def)+
  obtain t where t: "while_option (path_back_go ps) (path_back_step ps src) (dep, [dep], False) = Some t" "I t" "\<not> path_back_go ps t"
    by (rule while_option_total [of I _ "path_back_go ps" "path_back_step ps src", OF init keep1 wf_measure dec])
  obtain cur path stop where tt: "t = (cur, path, stop)" by (cases t)
  have stop: "stop"
  proof (rule ccontr)
    assume "\<not> stop"
    then have "cur \<in> fst ` set ps" "map_of ps cur = None" using t(2,3) tt by (auto simp: I_def path_back_go_def)
    then show False by (auto simp: map_of_eq_None_iff)
  qed
  have p: "path \<noteq> []" "hd path = dep" "last path = src" "\<forall>i. Suc i < length (rev path) \<longrightarrow> (rev path ! i, rev path ! Suc i) \<in> ?E"
    using t(2) tt stop by (auto simp: I_def)
  have "read_path g src dep (rev path)"
    unfolding read_path_def using p passing_reads_edge by (simp add: hd_rev last_rev) blast
  then show ?thesis using t(1) tt by (simp add: path_back_def)
qed

definition exec_ok :: "graph \<Rightarrow> nat \<Rightarrow> nat set \<Rightarrow> exec_walk \<Rightarrow> bool" where
  "exec_ok g src X w \<longleftrightarrow>
     parent_ok (passing_reads g) src (ew_parent w) \<and> set (ew_queue w) \<subseteq> insert src (fst ` set (ew_parent w)) \<and>
     (ew_found w = None \<longrightarrow>
        (\<forall>v \<in> insert src (fst ` set (ew_parent w)) - set (ew_queue w) - X. \<forall>d \<in> set (passing_reads g ! v).
           d \<in> insert src (fst ` set (ew_parent w))) \<and>
        (\<forall>v \<in> fst ` set (ew_parent w). \<not> path_reached g src v)) \<and>
     (\<forall>r. ew_found w = Some r \<longrightarrow> (\<exists>path d. r = Some path \<and> read_path g src d path \<and> d \<noteq> src \<and> path_reached g src d))"

lemma scan_reads_ok:
  assumes wf: "wf_graph g" and node: "node < binding_count g"
  shows "exec_ok g src {node} w \<Longrightarrow> ew_found w = None \<Longrightarrow> node \<in> insert src (fst ` set (ew_parent w)) \<Longrightarrow>
     set ds \<subseteq> set (construction_deps g node) \<Longrightarrow> t = scan_reads g src node ds w \<Longrightarrow>
     exec_ok g src {node} t \<and> fst ` set (ew_parent w) \<subseteq> fst ` set (ew_parent t) \<and>
     (ew_found t = None \<longrightarrow> (\<forall>d \<in> set ds. passes_execution g d \<longrightarrow> d \<in> insert src (fst ` set (ew_parent t))))"
proof (induction ds arbitrary: w)
  case (Cons d ds)
  have ds: "set ds \<subseteq> set (construction_deps g node)" using Cons.prems(4) by simp
  show ?case
  proof (cases "d = src \<or> map_of (ew_parent w) d \<noteq> None \<or> \<not> passes_execution g d")
    case True
    then have "t = scan_reads g src node ds w" using Cons.prems(5) by simp
    from Cons.IH [OF Cons.prems(1-3) ds this] show ?thesis using True by (auto simp: map_of_eq_None_iff)
  next
    case False
    have dr: "d < binding_count g" using construction_deps_in_range [OF wf node] Cons.prems(4) by auto
    have e: "(node, d) \<in> edges_of (passing_reads g)"
      using False Cons.prems(4) node dr by (auto simp: edges_of_iff passing_reads_def)
    let ?w = "w\<lparr>ew_parent := ew_parent w @ [(d, node)]\<rparr>"
    have p: "parent_ok (passing_reads g) src (ew_parent ?w)"
      using Cons.prems(1,3) e False by (simp add: exec_ok_def parent_ok_snoc)
    show ?thesis
    proof (cases "path_reached g src d")
      case True
      obtain path where path: "path_back (ew_parent ?w) src d = Some path" "read_path g src d path"
        using path_back_result [OF p, of d] by auto
      have t: "t = ?w\<lparr>ew_found := Some (Some path)\<rparr>" using Cons.prems(5) False True path(1) by (simp add: Let_def)
      have "set (ew_queue w) \<subseteq> insert src (fst ` set (ew_parent w))" using Cons.prems(1) unfolding exec_ok_def by blast
      then have q: "set (ew_queue t) \<subseteq> insert src (fst ` set (ew_parent t))" unfolding t by auto
      have "exec_ok g src {node} t"
        unfolding exec_ok_def using p q path(2) True False by (simp add: t) blast
      then show ?thesis unfolding t by auto
    next
      case nr: False
      let ?v = "?w\<lparr>ew_queue := ew_queue w @ [d]\<rparr>"
      have t: "t = scan_reads g src node ds ?v" using Cons.prems(5) False nr by (simp add: Let_def)
      have old: "\<forall>v \<in> insert src (fst ` set (ew_parent w)) - set (ew_queue w) - {node}. \<forall>d \<in> set (passing_reads g ! v).
           d \<in> insert src (fst ` set (ew_parent w))" "\<forall>v \<in> fst ` set (ew_parent w). \<not> path_reached g src v"
        "set (ew_queue w) \<subseteq> insert src (fst ` set (ew_parent w))"
        using Cons.prems(1,2) unfolding exec_ok_def by blast+
      have ps: "fst ` set (ew_parent ?v) = insert d (fst ` set (ew_parent w))" by auto
      have "exec_ok g src {node} ?v"
        unfolding exec_ok_def
      proof (intro conjI impI)
        show "parent_ok (passing_reads g) src (ew_parent ?v)" using p by simp
        show "set (ew_queue ?v) \<subseteq> insert src (fst ` set (ew_parent ?v))" using old(3) unfolding ps by auto
        show "\<forall>v \<in> insert src (fst ` set (ew_parent ?v)) - set (ew_queue ?v) - {node}. \<forall>d \<in> set (passing_reads g ! v).
           d \<in> insert src (fst ` set (ew_parent ?v))" using old(1) unfolding ps by auto
        show "\<forall>v \<in> fst ` set (ew_parent ?v). \<not> path_reached g src v" using old(2) nr unfolding ps by blast
        show "\<forall>r. ew_found ?v = Some r \<longrightarrow> (\<exists>path d. r = Some path \<and> read_path g src d path \<and> d \<noteq> src \<and> path_reached g src d)"
          using Cons.prems(2) by simp
      qed
      moreover have "node \<in> insert src (fst ` set (ew_parent ?v))" using Cons.prems(3) by auto
      ultimately show ?thesis using Cons.IH [OF _ _ _ ds t] Cons.prems(2) by auto
    qed
  qed
qed simp

lemma parents_in_range:
  assumes "wf_graph g" "exec_ok g src X w" "v \<in> fst ` set (ew_parent w)"
  shows "v < binding_count g"
proof -
  have "parent_ok (passing_reads g) src (ew_parent w)" using assms(2) unfolding exec_ok_def by blast
  from parent_step [OF this assms(3)] obtain q where "(q, v) \<in> edges_of (passing_reads g)" by blast
  then show ?thesis using passing_reads_edge construction_deps_in_range [OF assms(1)] by blast
qed

lemma passing_reads_nth:
  "v < binding_count g \<Longrightarrow> set (passing_reads g ! v) = {d \<in> set (construction_deps g v). passes_execution g d}"
  by (simp add: passing_reads_def)

lemma exec_step_ok:
  assumes wf: "wf_graph g" "src < binding_count g" and ok: "exec_ok g src {} w"
    and go: "ew_queue w \<noteq> [] \<and> ew_found w = None"
  shows "exec_ok g src {} (exec_step g src w)"
proof -
  obtain node queue where q: "ew_queue w = node # queue" using go by (cases "ew_queue w") auto
  let ?w = "w\<lparr>ew_queue := queue\<rparr>" and ?t = "exec_step g src w"
  have t: "?t = scan_reads g src node (construction_deps g node) ?w" by (simp add: exec_step_def q)
  have node: "node \<in> insert src (fst ` set (ew_parent w))" using ok q unfolding exec_ok_def by auto
  then have len: "node < binding_count g" using wf parents_in_range [OF wf(1) ok] by auto
  have "insert src (fst ` set (ew_parent w)) - set queue - {node} \<subseteq> insert src (fst ` set (ew_parent w)) - set (ew_queue w) - {}"
    using q by auto
  moreover have "set queue \<subseteq> set (ew_queue w)" using q by auto
  ultimately have okn: "exec_ok g src {node} ?w"
    using ok go unfolding exec_ok_def by (simp del: insert_iff) blast
  have scan: "exec_ok g src {node} ?t"
    "ew_found ?t = None \<longrightarrow> (\<forall>d \<in> set (construction_deps g node). passes_execution g d \<longrightarrow> d \<in> insert src (fst ` set (ew_parent ?t)))"
    using scan_reads_ok [OF wf(1) len okn _ _ subset_refl t] go node by auto
  have "\<forall>v \<in> insert src (fst ` set (ew_parent ?t)) - set (ew_queue ?t) - {}. \<forall>d \<in> set (passing_reads g ! v).
      d \<in> insert src (fst ` set (ew_parent ?t))" if none: "ew_found ?t = None"
  proof (intro ballI)
    fix v d assume v: "v \<in> insert src (fst ` set (ew_parent ?t)) - set (ew_queue ?t) - {}" and d: "d \<in> set (passing_reads g ! v)"
    show "d \<in> insert src (fst ` set (ew_parent ?t))"
    proof (cases "v = node")
      case True then show ?thesis using scan(2) none d passing_reads_nth [OF len] by blast
    next
      case False then show ?thesis using scan(1) none v d unfolding exec_ok_def by blast
    qed
  qed
  then show ?thesis using scan(1) unfolding exec_ok_def by blast
qed

lemma scan_reads_measure:
  assumes wf: "wf_graph g" "node < binding_count g"
  shows "set ds \<subseteq> set (construction_deps g node) \<Longrightarrow> t = scan_reads g src node ds w \<Longrightarrow>
   card ({..<binding_count g} - fst ` set (ew_parent t)) < card ({..<binding_count g} - fst ` set (ew_parent w)) \<or>
   ew_parent t = ew_parent w \<and> ew_queue t = ew_queue w"
proof (induction ds arbitrary: w)
  case (Cons d ds)
  have ds: "set ds \<subseteq> set (construction_deps g node)" using Cons.prems(1) by simp
  show ?case
  proof (cases "d = src \<or> map_of (ew_parent w) d \<noteq> None \<or> \<not> passes_execution g d")
    case True then show ?thesis using Cons.IH [OF ds, of w] Cons.prems(2) by simp
  next
    case False
    have "d \<in> {..<binding_count g} - fst ` set (ew_parent w)"
      using False construction_deps_in_range [OF wf] Cons.prems(1) by (auto simp: map_of_eq_None_iff)
    then have less: "card ({..<binding_count g} - insert d (fst ` set (ew_parent w))) < card ({..<binding_count g} - fst ` set (ew_parent w))"
      by (intro psubset_card_mono) auto
    show ?thesis
    proof (cases "path_reached g src d")
      case True then show ?thesis using less False Cons.prems(2) by (simp add: Let_def)
    next
      case nr: False
      let ?v = "w\<lparr>ew_parent := ew_parent w @ [(d, node)], ew_queue := ew_queue w @ [d]\<rparr>"
      have "t = scan_reads g src node ds ?v" using Cons.prems(2) False nr by (simp add: Let_def)
      from Cons.IH [OF ds this] less show ?thesis by auto
    qed
  qed
qed simp

lemma exec_step_measure:
  assumes wf: "wf_graph g" "src < binding_count g" and ok: "exec_ok g src {} w" and go: "ew_queue w \<noteq> [] \<and> ew_found w = None"
  shows "card ({..<binding_count g} - fst ` set (ew_parent (exec_step g src w))) < card ({..<binding_count g} - fst ` set (ew_parent w)) \<or>
    card ({..<binding_count g} - fst ` set (ew_parent (exec_step g src w))) = card ({..<binding_count g} - fst ` set (ew_parent w)) \<and>
    length (ew_queue (exec_step g src w)) < length (ew_queue w)"
proof -
  obtain node queue where q: "ew_queue w = node # queue" using go by (cases "ew_queue w") auto
  have "node \<in> insert src (fst ` set (ew_parent w))" using ok q unfolding exec_ok_def by auto
  then have len: "node < binding_count g" using wf parents_in_range [OF wf(1) ok] by auto
  have "exec_step g src w = scan_reads g src node (construction_deps g node) (w\<lparr>ew_queue := queue\<rparr>)" by (simp add: exec_step_def q)
  from scan_reads_measure [OF wf(1) len subset_refl this] q show ?thesis by auto
qed

lemma execution_path_result:
  assumes wf: "wf_graph g" "src < binding_count g"
  shows "\<exists>path. execution_path g src = Some path \<and>
    ((\<exists>d. read_path g src d path \<and> path_reached g src d) \<or>
     path = [src] \<and> (\<forall>d. (src, d) \<in> (edges_of (passing_reads g))\<^sup>* \<longrightarrow> \<not> path_reached g src d))"
proof (cases "path_reached g src src")
  case True
  then show ?thesis by (auto simp: execution_path_def read_path_def)
next
  case False
  let ?go = "\<lambda>w :: exec_walk. ew_queue w \<noteq> [] \<and> ew_found w = None"
  let ?w = "\<lparr>ew_parent = [], ew_queue = [src], ew_found = None\<rparr>"
  have init: "exec_ok g src {} ?w" by (simp add: exec_ok_def parent_ok_def)
  obtain t where t: "while_option ?go (exec_step g src) ?w = Some t" "exec_ok g src {} t" "\<not> ?go t"
    by (rule while_option_measure2 [of "exec_ok g src {}" ?w ?go "exec_step g src"
          "\<lambda>w. card ({..<binding_count g} - fst ` set (ew_parent w))" "\<lambda>w. length (ew_queue w)",
          OF init exec_step_ok [OF wf] exec_step_measure [OF wf]])
  show ?thesis
  proof (cases "ew_found t")
    case (Some r)
    then obtain path d where "r = Some path" "read_path g src d path" "path_reached g src d"
      using t(2) unfolding exec_ok_def by blast
    then show ?thesis using False t(1) Some by (auto simp: execution_path_def)
  next
    case None
    let ?X = "insert src (fst ` set (ew_parent t))"
    have closed: "\<And>v d. v \<in> ?X \<Longrightarrow> d \<in> set (passing_reads g ! v) \<Longrightarrow> d \<in> ?X" "\<And>v. v \<in> ?X \<Longrightarrow> \<not> path_reached g src v"
      using t(2,3) None False unfolding exec_ok_def by auto
    have "d \<in> ?X" if "(src, d) \<in> (edges_of (passing_reads g))\<^sup>*" for d
      using that by (induction rule: rtrancl_induct) (use closed(1) in \<open>auto simp: edges_of_iff\<close>)
    then show ?thesis using False t(1) None closed(2) by (auto simp: execution_path_def)
  qed
qed

section \<open>Violations\<close>

lemma wf_graph_marked:
  assumes wf: "wf_graph g" and len: "length ns = binding_count g"
  shows "wf_graph (marked g ns)"
proof -
  have "wf_visible (marked g ns) v = wf_visible g v" for v
    using len by (cases v) (simp_all add: wf_visible_def marked_def)
  then have vis: "wf_visible (marked g ns) = wf_visible g" ..
  have "wf_edge (marked g ns) e = wf_edge g e" for e
    using len by (cases "ed_target e") (simp_all add: wf_edge_def marked_def)
  then have edge: "wf_edge (marked g ns) = wf_edge g" ..
  have b: "fb_edges x \<in> fb_edges ` set (g_bindings g)" if x: "x \<in> set (g_bindings (marked g ns))" for x
  proof -
    obtain i where i: "i < binding_count (marked g ns)" "g_bindings (marked g ns) ! i = x" using x by (meson in_set_conv_nth)
    then have "x = with_need (binding g i) (ns ! i)" using marked_binding [OF len, of i] len by (simp add: binding_def)
    then show ?thesis using i(1) len by (simp add: binding_def)
  qed
  have "\<forall>x \<in> set (g_bindings (marked g ns)). \<forall>e \<in> set (fb_edges x). wf_edge g e"
    using b wf unfolding wf_graph_def by fastforce
  moreover have "\<forall>i < binding_count g. fb_id (binding (marked g ns) i) = i \<and> fb_origin (binding (marked g ns) i) < length (g_modules g)"
    using wf by (simp add: marked_binding [OF len] wf_graph_def)
  moreover have "g_visibility (marked g ns) = g_visibility g" "g_modules (marked g ns) = g_modules g"
    "g_collections (marked g ns) = g_collections g" by (simp_all add: marked_def)
  ultimately show ?thesis using wf unfolding wf_graph_def vis edge marked_count [OF len] by (simp only:) blast
qed

lemma needs_chain:
  assumes wf: "wf_graph g" and len: "length ns = binding_count g" and ns: "\<And>b. b < binding_count g \<Longrightarrow> ns ! b \<longleftrightarrow> needs g b"
  shows "needs g b \<Longrightarrow> \<exists>d. (b, d) \<in> (edges_of (passing_reads (marked g ns)))\<^sup>* \<and> reads_execution g d \<and> d < binding_count g"
proof (induction rule: needs.induct)
  case (needs_direct b) then show ?case by blast
next
  case (needs_through b d)
  have "passes_execution (marked g ns) d"
    using passes_marked [OF len needs_through.hyps(3)] ns [OF needs_through.hyps(3)] needs_through.hyps(4,5) by simp
  then have "(b, d) \<in> edges_of (passing_reads (marked g ns))"
    using needs_through.hyps(1-3) len marked_deps [OF len] by (simp add: edges_of_iff passing_reads_def)
  then show ?case using needs_through.IH by (meson converse_rtrancl_into_rtrancl)
qed

lemma direct_edge_marked:
  assumes "length ns = binding_count g" "d < binding_count g" "\<exists>e \<in> set (fb_edges (binding g d)). is_execution_target (ed_target e)"
  shows "direct_execution_edge (marked g ns) d \<noteq> None"
  using assms(3) by (auto simp: direct_execution_edge_def marked_binding [OF assms(1,2)] find_None_iff)

text \<open>
  C16. The path a scope violation prints explains it. For a binding the pass refuses, \<open>execution_path\<close> returns
  a path that starts at the binding, follows dependencies each of which passes the need upward, and ends
  at a binding that reads execution data itself or, other than the refused one, is built per execution.
\<close>

theorem execution_path_explains:
  assumes "wf_graph g" and "needs_execution g = Some h" and "b < binding_count g" and "scope_refused (binding h b)"
  shows "\<exists>path d. execution_path h b = Some path \<and> read_path h b d path \<and> path_reached h b d"
proof -
  obtain ns where ns: "needs_execution g = Some (marked g ns)" "length ns = binding_count g"
    "\<And>b. b < binding_count g \<Longrightarrow> ns ! b \<longleftrightarrow> needs g b" using needs_execution_result [of g] by blast
  have h: "h = marked g ns" using assms(2) ns(1) by simp
  have b: "binding h b = with_need (binding g b) (needs g b)" using marked_binding [OF ns(2) assms(3)] ns(3) [OF assms(3)] h by simp
  then have need: "needs g b" and scope: "br_scope (fb_record (binding g b)) \<noteq> SK_PerExecution"
    using assms(4) by (auto simp: scope_refused_def)
  obtain d where d: "(b, d) \<in> (edges_of (passing_reads h))\<^sup>*" "reads_execution g d" "d < binding_count g"
    using needs_chain [OF assms(1) ns(2,3) need] h by blast
  have "path_reached h b d"
  proof (cases "\<exists>e \<in> set (fb_edges (binding g d)). is_execution_target (ed_target e)")
    case True then show ?thesis using direct_edge_marked [OF ns(2) d(3)] h by (simp add: path_reached_def)
  next
    case False
    then have pe: "br_scope (fb_record (binding g d)) = SK_PerExecution" using d(2) by (auto simp: reads_execution_def)
    then have "d \<noteq> b" using scope by auto
    moreover have "fb_effective (binding h d) = EffPerExecution"
      using pe h marked_binding [OF ns(2) d(3)] by (simp add: scope_given_def declared_effective_def)
    ultimately show ?thesis by (simp add: path_reached_def)
  qed
  moreover have "wf_graph h" "b < binding_count h" using wf_graph_marked [OF assms(1) ns(2)] h assms(3) ns(2) by simp_all
  ultimately show ?thesis using execution_path_result [of h b] d(1) by blast
qed

text \<open>An execution-scoped binding and a singleton reading it; and two singletons, one reading the other.\<close>

definition reading_graph :: "scope_kind \<Rightarrow> graph" where
  "reading_graph scope = graph_empty\<lparr>
     g_modules := [example_module 0 ''Root'' [] [0, 1]],
     g_bindings := [(example_binding 0 0 ''Context'' [])\<lparr>fb_record := (fb_record (example_binding 0 0 ''Context'' []))\<lparr>br_scope := scope\<rparr>\<rparr>,
       (example_binding 1 0 ''Service'' (req_dep (example_key ''Context'') []))\<lparr>
          fb_edges := [\<lparr>ed_target = TargetBinding 0, ed_dependency = 0, ed_optional = False\<rparr>]\<rparr>],
     g_visibility := [[]]\<rparr>"

lemma reading_graph_wf: "wf_graph (reading_graph scope)"
  by (simp add: wf_graph_def reading_graph_def graph_empty_def example_binding_def binding_def wf_edge_def less_Suc_eq numeral_2_eq_2)

lemma reading_graph_refused:
  "map_option (\<lambda>h. scope_refused (binding h 1)) (needs_execution (reading_graph SK_PerExecution)) = Some True"
  by code_simp

theorem execution_path_explains_witness:
  "\<exists>h. needs_execution (reading_graph SK_PerExecution) = Some h \<and> scope_refused (binding h 1) \<and>
     (\<exists>path d. execution_path h 1 = Some path \<and> read_path h 1 d path \<and> path_reached h 1 d)"
proof -
  obtain h where h: "needs_execution (reading_graph SK_PerExecution) = Some h" "scope_refused (binding h 1)"
    using reading_graph_refused by auto
  have "1 < binding_count (reading_graph SK_PerExecution)" by (simp add: reading_graph_def)
  from execution_path_explains [OF reading_graph_wf h(1) this h(2)] show ?thesis using h by blast
qed

lemma check_scope_result:
  assumes "wf_graph g" "fb_id b < binding_count g"
  shows "\<exists>new. check_scope g b errors = Some (errors @ new) \<and>
    (new = [] \<longleftrightarrow> is_alias_or_failed (br_recipe (fb_record b)) \<or>
       \<not> scope_refused b \<and> \<not> (fb_effective b = EffPerExecution \<and> (br_hooks (fb_record b) \<noteq> [] \<or> br_ready (fb_record b) \<noteq> None)))"
proof -
  obtain path where "execution_path g (fb_id b) = Some path" using execution_path_result [OF assms] by blast
  then show ?thesis by (simp add: check_scope_def printed_path_def Let_def)
qed

text \<open>What step 5 accepts of a binding.\<close>

definition scope_ok :: "frozen_binding \<Rightarrow> bool" where
  "scope_ok b \<longleftrightarrow> is_alias_or_failed (br_recipe (fb_record b)) \<or>
     \<not> scope_refused b \<and> \<not> (fb_effective b = EffPerExecution \<and> (br_hooks (fb_record b) \<noteq> [] \<or> br_ready (fb_record b) \<noteq> None))"

lemma check_scopes_result:
  assumes "wf_graph g"
  shows "\<exists>new. check_scopes g errors = Some (errors @ new) \<and> (new = [] \<longleftrightarrow> (\<forall>b \<in> set (g_bindings g). scope_ok b))"
proof -
  have go: "\<forall>b \<in> set bs. fb_id b < binding_count g \<Longrightarrow>
      \<exists>new. fold_option (check_scope g) bs errors = Some (errors @ new) \<and> (new = [] \<longleftrightarrow> (\<forall>b \<in> set bs. scope_ok b))" for bs
  proof (induction bs arbitrary: errors)
    case (Cons b bs)
    obtain new where new: "check_scope g b errors = Some (errors @ new)" "new = [] \<longleftrightarrow> scope_ok b"
      using check_scope_result [OF assms, of b errors] Cons.prems unfolding scope_ok_def by auto
    obtain more' where m: "fold_option (check_scope g) bs (errors @ new) = Some ((errors @ new) @ more')"
      "more' = [] \<longleftrightarrow> (\<forall>b \<in> set bs. scope_ok b)" using Cons.IH [of "errors @ new"] Cons.prems by auto
    then show ?case using new by (intro exI [of _ "new @ more'"]) auto
  qed simp
  have "\<forall>b \<in> set (g_bindings g). fb_id b < binding_count g"
  proof
    fix b assume "b \<in> set (g_bindings g)"
    then obtain i where "i < binding_count g" "binding g i = b" by (auto simp: in_set_conv_nth binding_def)
    then show "fb_id b < binding_count g" using assms unfolding wf_graph_def by auto
  qed
  from go [OF this] show ?thesis unfolding check_scopes_def .
qed

lemma check_scopes_no_execution:
  assumes "wf_graph g" and "needs_execution g = Some h" and "check_scopes h [] = Some []"
    and "b < binding_count g" and "\<not> is_alias_or_failed (br_recipe (fb_record (binding g b)))"
    and "fb_effective (binding h b) = EffSingleton"
  shows "(\<forall>e \<in> set (fb_edges (binding h b)). \<not> is_execution_target (ed_target e)) \<and>
    (\<forall>d \<in> set (construction_deps h b). \<not> passes_execution h d)"
proof -
  obtain ns where ns: "needs_execution g = Some (marked g ns)" "length ns = binding_count g"
    "\<And>b. b < binding_count g \<Longrightarrow> ns ! b \<longleftrightarrow> needs g b" using needs_execution_result [of g] by blast
  have h: "h = marked g ns" using assms(2) ns(1) by simp
  have hb: "binding h b = with_need (binding g b) (needs g b)" using marked_binding [OF ns(2) assms(4)] ns(3) [OF assms(4)] h by simp
  have wfh: "wf_graph h" using wf_graph_marked [OF assms(1) ns(2)] h by simp
  have "\<forall>b \<in> set (g_bindings h). scope_ok b" using check_scopes_result [OF wfh, of "[]"] assms(3) by auto
  moreover have "binding h b \<in> set (g_bindings h)" using assms(4) h ns(2) by (simp add: binding_def)
  ultimately have "scope_ok (binding h b)" by blast
  then have refused: "\<not> scope_refused (binding h b)" using assms(5) hb by (auto simp: scope_ok_def)
  have no: "\<not> needs g b"
  proof
    assume n: "needs g b"
    have "scope_given (binding g b) True = EffSingleton" using assms(6) hb n by simp
    then show False using refused hb n
      by (cases "br_scope (fb_record (binding g b))") (auto simp: scope_given_def declared_effective_def scope_refused_def split: if_splits)
  qed
  have "\<not> passes_execution h d" if d: "d \<in> set (construction_deps h b)" for d
  proof
    assume p: "passes_execution h d"
    have dd: "d \<in> set (construction_deps g b)" using d h marked_deps [OF ns(2) assms(4)] by simp
    then have "d < binding_count g" using construction_deps_in_range [OF assms(1,4)] by blast
    then show False using p h passes_marked [OF ns(2)] ns(3) needs_direct needs_through [OF assms(4) dd] no by blast
  qed
  moreover have "\<not> is_execution_target (ed_target e)" if "e \<in> set (fb_edges (binding h b))" for e
    using that hb no needs_direct [OF assms(4)] by (auto simp: reads_execution_def)
  ultimately show ?thesis by blast
qed

text \<open>
  C17. When the scope check passes, a binding built once never needs an execution: no singleton, alias and
  failed bindings apart, reads execution data or an input, and none depends on a binding built per
  execution or on a transient that needs one.
\<close>

theorem check_scopes_safe:
  assumes "wf_graph g" and "needs_execution g = Some h" and "check_scopes h [] = Some []"
    and "b < binding_count g" and "\<not> is_alias_or_failed (br_recipe (fb_record (binding g b)))"
    and "fb_effective (binding h b) = EffSingleton"
  shows "(\<forall>e \<in> set (fb_edges (binding h b)). \<not> is_execution_target (ed_target e)) \<and>
    (\<forall>d \<in> set (construction_deps h b). \<not> passes_execution h d)"
  using assms by (rule check_scopes_no_execution)

lemma reading_graph_accepted:
  "map_option (\<lambda>h. (check_scopes h [], fb_effective (binding h 1))) (needs_execution (reading_graph SK_Singleton)) =
     Some (Some [], EffSingleton)"
  by code_simp

theorem check_scopes_safe_witness:
  "\<exists>h. needs_execution (reading_graph SK_Singleton) = Some h \<and> check_scopes h [] = Some [] \<and>
     list_all (\<lambda>e. \<not> is_execution_target (ed_target e)) (fb_edges (binding h 1)) \<and>
     list_all (\<lambda>d. \<not> passes_execution h d) (construction_deps h 1)"
proof -
  obtain h where h: "needs_execution (reading_graph SK_Singleton) = Some h" "check_scopes h [] = Some []"
    "fb_effective (binding h 1) = EffSingleton" using reading_graph_accepted by auto
  have b: "1 < binding_count (reading_graph SK_Singleton)"
    "\<not> is_alias_or_failed (br_recipe (fb_record (binding (reading_graph SK_Singleton) 1)))"
    by (simp_all add: reading_graph_def binding_def example_binding_def binding_record_new_def)
  show ?thesis using h check_scopes_safe [OF reading_graph_wf h(1,2) b h(3)] unfolding list_all_iff by blast
qed

end
