(* ===== verification/Closure_Laws.thy ===== *)
theory Closure_Laws
  imports Scope_Laws
begin

text \<open>
  The checks of step 5 that walk the graph always return: the scopes of enhancers declared by closure, the closures that
  read execution data, and the inputs a handler reads. Each only adds to the errors it is given.
\<close>

section \<open>Loops that only add\<close>

definition only_adds :: "('a list \<Rightarrow> 'a list option) \<Rightarrow> bool" where
  "only_adds f \<longleftrightarrow> (\<forall>s. \<exists>new. f s = Some (s @ new))"

lemma only_addsD: "only_adds f \<Longrightarrow> \<exists>new. f s = Some (s @ new)"
  by (simp add: only_adds_def)

lemma only_adds_Some: "only_adds Some"
  by (simp add: only_adds_def)

lemma only_adds_bind:
  assumes "only_adds f" "only_adds h"
  shows "only_adds (\<lambda>s. Option.bind (f s) h)"
  unfolding only_adds_def
proof
  fix s
  obtain a where "f s = Some (s @ a)" using only_addsD [OF assms(1)] by blast
  moreover obtain b where "h (s @ a) = Some ((s @ a) @ b)" using only_addsD [OF assms(2)] by blast
  ultimately show "\<exists>new. Option.bind (f s) h = Some (s @ new)" by simp
qed

lemma only_adds_option: "(\<And>x. only_adds (f x)) \<Longrightarrow> only_adds (\<lambda>s. case v of Some x \<Rightarrow> f x s | None \<Rightarrow> Some s)"
  by (cases v) (simp_all add: only_adds_def)

lemma only_adds_fold:
  "(\<And>x. x \<in> set xs \<Longrightarrow> only_adds (f x)) \<Longrightarrow> only_adds (fold_option f xs)"
proof (induction xs)
  case Nil show ?case by (simp add: only_adds_def)
next
  case (Cons x xs)
  have "fold_option f (x # xs) = (\<lambda>s. Option.bind (f x s) (fold_option f xs))" by (auto simp: fun_eq_iff split: option.split)
  then show ?case using only_adds_bind [of "f x" "fold_option f xs"] Cons by simp
qed

lemma find_map_option_total:
  "(\<And>x. x \<in> set xs \<Longrightarrow> \<exists>y. f x = Some y) \<Longrightarrow> \<exists>y. find_map_option f xs = Some y"
proof (induction xs)
  case (Cons x xs)
  obtain y where "f x = Some y" using Cons.prems by (meson list.set_intros(1))
  then show ?case using Cons by (cases y) auto
qed simp

section \<open>Reads of execution data\<close>

lemma execution_steps_total: "wf_graph g \<Longrightarrow> b < binding_count g \<Longrightarrow> \<exists>steps. execution_steps g b = Some steps"
  using execution_path_result [of g b] by (auto simp: execution_steps_def)

lemma execution_read_of_total:
  assumes wf: "wf_graph g" and m: "m < length (g_modules g)"
  shows "\<exists>read. execution_read_of g m owner rd = Some read"
proof (cases "rd_kind rd")
  case (ReadSingle k)
  show ?thesis
  proof (cases "lookup g m k")
    case (Some v)
    then show ?thesis using execution_steps_total [OF wf lookup_in_range [OF wf m]]
      by (cases v) (auto simp: execution_read_of_def ReadSingle)
  qed (simp add: execution_read_of_def ReadSingle)
next
  case (ReadCollection k)
  show ?thesis
  proof (cases "find (passes_to g owner) (collection g k)")
    case (Some b)
    then have "b \<in> set (collection g k)" by (auto simp: find_Some_iff)
    then have "b < binding_count g" by (rule collection_in_range [OF wf])
    then show ?thesis using execution_steps_total [OF wf] Some by (auto simp: execution_read_of_def ReadCollection)
  qed (simp add: execution_read_of_def ReadCollection)
qed (simp_all add: execution_read_of_def)

lemma execution_read_total:
  "wf_graph g \<Longrightarrow> m < length (g_modules g) \<Longrightarrow> \<exists>read. execution_read g m owner d = Some read"
  unfolding execution_read_def by (rule find_map_option_total) (rule execution_read_of_total)

lemma closure_read_total:
  assumes "wf_graph g" "m < length (g_modules g)"
  shows "\<exists>read. closure_read g m deps = Some read"
proof -
  have "\<exists>y. map_option (map_option (\<lambda>steps. dependency_text d # steps)) (execution_read g m None d) = Some y" for d
    using execution_read_total [OF assms] by (metis option.simps(9))
  then show ?thesis unfolding closure_read_def by (intro find_map_option_total) blast
qed

section \<open>The closures' scopes\<close>

definition handlers_in_range :: "graph \<Rightarrow> bool" where
  "handlers_in_range g \<longleftrightarrow> (\<forall>h \<in> set (g_handlers g). hr_module h < length (g_modules g) \<and> hr_controller h < binding_count g)"

lemma closure_scope_total:
  assumes "wf_graph g" "hr_module h < length (g_modules g)"
  shows "\<exists>more new. closure_scope g h e (decided, errors) = Some (decided @ more, errors @ new)"
proof (cases e)
  case (ED_Closure c)
  obtain read where "closure_read g (hr_module h) (cd_dependencies c) = Some read" using closure_read_total [OF assms] by blast
  then show ?thesis by (cases read; cases "cd_scope c") (auto simp: closure_scope_def ED_Closure)
qed (simp add: closure_scope_def)

lemma closure_scopes_fold:
  assumes "wf_graph g" "hr_module h < length (g_modules g)"
  shows "\<exists>more new. fold_option (closure_scope g h) es (decided, errors) = Some (decided @ more, errors @ new)"
proof (induction es arbitrary: decided errors)
  case (Cons e es)
  obtain more new where "closure_scope g h e (decided, errors) = Some (decided @ more, errors @ new)"
    using closure_scope_total [OF assms] by blast
  moreover obtain more' new' where
    "fold_option (closure_scope g h) es (decided @ more, errors @ new) = Some ((decided @ more) @ more', (errors @ new) @ new')"
    using Cons.IH by blast
  ultimately show ?case by auto
qed simp

lemma closure_scopes_total:
  assumes "wf_graph g" "handlers_in_range g"
  shows "\<exists>cs new. closure_scopes g d errors = Some (g\<lparr>g_closures := cs\<rparr>, errors @ new)"
proof -
  have "\<exists>more new. fold_option (\<lambda>h. fold_option (closure_scope g h) (hd_enhancer_deps (hr_decl h))) hs (decided, errors) =
      Some (decided @ more, errors @ new)" if "set hs \<subseteq> set (g_handlers g)" for hs decided errors
    using that
  proof (induction hs arbitrary: decided errors)
    case (Cons h hs)
    have "hr_module h < length (g_modules g)" using Cons.prems assms(2) by (auto simp: handlers_in_range_def)
    then obtain more new where
      "fold_option (closure_scope g h) (hd_enhancer_deps (hr_decl h)) (decided, errors) = Some (decided @ more, errors @ new)"
      using closure_scopes_fold [OF assms(1)] by blast
    then show ?case using Cons.IH [of "decided @ more" "errors @ new"] Cons.prems by auto
  qed simp
  from this [OF set_drop_subset, of "dc_first_handler d" "[]" errors] show ?thesis by (auto simp: closure_scopes_def)
qed

lemma check_closure_adds:
  assumes "wf_graph g" "m < length (g_modules g)"
  shows "only_adds (check_closure g m owner name at deps)"
proof -
  have "only_adds (\<lambda>errors. map_option (\<lambda>read. case read of
      Some steps \<Rightarrow> errors @ [ClosureNeedsExecution name (dependency_text d # steps) at] | None \<Rightarrow> errors) (execution_read g m owner d))" for d
  proof -
    obtain read where "execution_read g m owner d = Some read" using execution_read_total [OF assms] by blast
    then show ?thesis by (cases read) (simp_all add: only_adds_def)
  qed
  then have "only_adds (fold_option (\<lambda>d errors. map_option (\<lambda>read. case read of
      Some steps \<Rightarrow> errors @ [ClosureNeedsExecution name (dependency_text d # steps) at] | None \<Rightarrow> errors) (execution_read g m owner d))
      (dp_list deps))" by (rule only_adds_fold)
  then show ?thesis unfolding only_adds_def check_closure_def .
qed

lemma check_closures_of_adds:
  assumes "wf_graph g" "fb_origin b < length (g_modules g)"
  shows "only_adds (check_closures_of g b)"
  unfolding check_closures_of_def [abs_def] Let_def
  by (intro only_adds_bind only_adds_fold only_adds_option check_closure_adds [OF assms])

lemma check_closures_adds:
  assumes wf: "wf_graph g" and mods: "\<forall>m \<in> set (g_modules g). fm_id m < length (g_modules g)"
    and meta: "\<forall>x \<in> set (dc_meta d). fst x < length (g_modules g)"
  shows "only_adds (check_closures g d)"
proof -
  have "fb_origin b < length (g_modules g)" if "b \<in> set (g_bindings g)" for b
    using that wf by (auto simp: wf_graph_def binding_def in_set_conv_nth)
  then have one: "only_adds (fold_option (check_closures_of g) (drop (dc_first_binding d) (g_bindings g)))"
    by (intro only_adds_fold check_closures_of_adds [OF wf]) (meson in_set_dropD)
  have two: "only_adds (fold_option (\<lambda>m. fold_option (\<lambda>h. check_closure g (fm_id m) None (name m h) (at h) (hk_dependencies h)) (fm_hooks m))
      (drop (dc_first_module d) (g_modules g)))" for name at
    by (intro only_adds_fold check_closure_adds [OF wf]) (meson mods in_set_dropD)
  have three: "only_adds (fold_option (\<lambda>(m, name, deps). check_closure g m None (label m name) None deps) (dc_meta d))" for label
    by (rule only_adds_fold) (use meta in \<open>auto intro!: check_closure_adds [OF wf]\<close>)
  show ?thesis unfolding check_closures_def [abs_def] by (intro only_adds_bind one two three)
qed

section \<open>The inputs a handler reads\<close>

lemma chain_total: "\<exists>steps. chain parent node = Some steps"
proof -
  define F where "F = insert node (\<Union> (set_option ` snd ` set parent))"
  let ?I = "\<lambda>s :: nat \<times> nat list. distinct (snd s) \<and> set (snd s) \<subseteq> F"
  have fin: "finite F" by (simp add: F_def)
  have known: "v \<in> F" if "map_of parent c = Some (Some v)" for c v
  proof -
    have "(c, Some v) \<in> set parent" using that by (rule map_of_SomeD)
    then show ?thesis by (force simp: F_def)
  qed
  have step: "?I (chain_step parent s) \<and> length (snd (chain_step parent s)) = Suc (length (snd s))"
    if "?I s" "chain_go parent s" for s
    using that known by (cases s) (auto simp: chain_step_def chain_go_def split: option.splits)
  have bound: "length (snd s) \<le> card F" if "?I s" for s :: "nat \<times> nat list"
    using that card_mono [OF fin] distinct_card by metis
  obtain t where "while_option (chain_go parent) (chain_step parent) (node, [node]) = Some t"
  proof (rule while_option_total [of ?I "(node, [node])" "chain_go parent" "chain_step parent" "measure (\<lambda>s. card F - length (snd s))"])
    show "?I (node, [node])" by (simp add: F_def)
    show "(chain_step parent s, s) \<in> measure (\<lambda>s. card F - length (snd s))" if "?I s" "chain_go parent s" for s
      using step [OF that] bound [of "chain_step parent s"] by simp
  qed (use step in auto)
  then show ?thesis by (simp add: chain_def)
qed

lemma input_edges_total:
  "\<exists>s'. fold_option (input_edge g node) es s = Some s' \<and> is_parent s' = is_parent s \<and> is_queue s' = is_queue s"
proof (induction es arbitrary: s)
  case (Cons e es)
  have "\<exists>s1. input_edge g node e s = Some s1 \<and> is_parent s1 = is_parent s \<and> is_queue s1 = is_queue s"
    using chain_total [of "is_parent s" node] by (cases "ed_target e") (auto simp: input_edge_def)
  then obtain s1 where s1: "input_edge g node e s = Some s1" "is_parent s1 = is_parent s" "is_queue s1 = is_queue s" by blast
  then show ?case using Cons.IH [of s1] by auto
qed simp

text \<open>Every binding entered is entered once, and what the search has left shrinks.\<close>

definition search_ok :: "graph \<Rightarrow> input_search \<Rightarrow> bool" where
  "search_ok g s \<longleftrightarrow> distinct (map fst (is_parent s)) \<and> (\<forall>x \<in> set (is_parent s). fst x < binding_count g) \<and>
     (\<forall>b \<in> set (is_queue s). b < binding_count g)"

definition search_left :: "graph \<Rightarrow> input_search \<Rightarrow> nat" where
  "search_left g s = 2 * (binding_count g - length (is_parent s)) + length (is_queue s)"

lemma search_ok_parents:
  assumes "search_ok g s"
  shows "length (is_parent s) \<le> binding_count g"
proof -
  have "length (is_parent s) = card (fst ` set (is_parent s))" using assms distinct_card [of "map fst (is_parent s)"] by (simp add: search_ok_def)
  also have "\<dots> \<le> card {..<binding_count g}" using assms by (intro card_mono) (auto simp: search_ok_def)
  finally show ?thesis by simp
qed

lemma enter_root_ok:
  assumes "search_ok g s" "b < binding_count g"
  shows "search_ok g (enter_root g from_node b s) \<and> search_left g (enter_root g from_node b s) \<le> search_left g s"
proof -
  have ok: "search_ok g (enter_root g from_node b s)"
    using assms by (auto simp: search_ok_def enter_root_def map_of_eq_None_iff)
  then show ?thesis using search_ok_parents [OF ok] by (auto simp: search_left_def enter_root_def split: if_splits)
qed

lemma enter_roots_ok:
  assumes "search_ok g s" "\<forall>b \<in> set bs. b < binding_count g"
  shows "search_ok g (fold (enter_root g from_node) bs s) \<and> search_left g (fold (enter_root g from_node) bs s) \<le> search_left g s"
  using assms
proof (induction bs arbitrary: s)
  case (Cons b bs)
  have "search_ok g (enter_root g from_node b s)" "search_left g (enter_root g from_node b s) \<le> search_left g s"
    using enter_root_ok Cons.prems by simp_all
  then show ?case using Cons.IH [of "enter_root g from_node b s"] Cons.prems(2) by auto
qed simp

lemma search_step_ok:
  assumes "wf_graph g" "search_ok g s" "is_queue s = node # queue"
  shows "\<exists>s'. search_step g (Some s) = Some s' \<and> search_ok g s' \<and> search_left g s' < search_left g s"
proof -
  let ?s = "s\<lparr>is_queue := queue\<rparr>"
  obtain s1 where s1: "fold_option (input_edge g node) (fb_edges (binding g node)) ?s = Some s1"
    "is_parent s1 = is_parent ?s" "is_queue s1 = is_queue ?s" using input_edges_total by blast
  have ok: "search_ok g s1" using assms(2,3) s1 by (simp add: search_ok_def)
  have "node < binding_count g" using assms(2,3) by (simp add: search_ok_def)
  then have "\<forall>d \<in> set (construction_deps g node). d < binding_count g" using construction_deps_in_range [OF assms(1)] by blast
  from enter_roots_ok [OF ok this, of "Some node"] show ?thesis
    using s1 assms(3) by (auto simp: search_step_def search_left_def)
qed

lemma search_total:
  assumes "wf_graph g" "search_ok g s"
  shows "\<exists>t. while_option search_go (search_step g) (Some s) = Some (Some t)"
proof -
  let ?I = "\<lambda>so. \<exists>s. so = Some s \<and> search_ok g s" and ?m = "\<lambda>so. search_left g (the so)"
  have step: "?I (search_step g so) \<and> ?m (search_step g so) < ?m so" if I: "?I so" and go: "search_go so" for so
  proof -
    obtain s where s: "so = Some s" "search_ok g s" using I by blast
    then obtain node queue where "is_queue s = node # queue" using go by (cases "is_queue s") (auto simp: search_go_def)
    then show ?thesis using search_step_ok [OF assms(1) s(2)] s(1) by fastforce
  qed
  obtain t where "while_option search_go (search_step g) (Some s) = Some t" "?I t"
    by (rule while_option_total [of ?I "Some s" search_go "search_step g" "measure ?m"]) (use assms(2) step in auto)
  then show ?thesis by blast
qed

section \<open>What a handler's search starts from\<close>

definition roots_ok :: "graph \<Rightarrow> input_walk \<times> nat list \<Rightarrow> bool" where
  "roots_ok g s \<longleftrightarrow> (\<forall>b \<in> set (snd s). b < binding_count g)"

lemma roots_ok_fold:
  "(\<And>x s. x \<in> set xs \<Longrightarrow> roots_ok g s \<Longrightarrow> roots_ok g (f x s)) \<Longrightarrow> roots_ok g s \<Longrightarrow> roots_ok g (fold f xs s)"
  by (induction xs arbitrary: s) auto

lemma read_root_ok:
  assumes "wf_graph g" "m < length (g_modules g)" "roots_ok g s"
  shows "roots_ok g (read_root g m via d rd s)"
proof (cases "rd_kind rd")
  case (ReadSingle k)
  show ?thesis
  proof (cases "lookup g m k")
    case (Some v)
    then show ?thesis using assms(3) lookup_in_range [OF assms(1,2)]
      by (cases v) (auto simp: roots_ok_def read_root_def ReadSingle case_prod_unfold)
  qed (use assms(3) in \<open>simp add: roots_ok_def read_root_def ReadSingle case_prod_unfold\<close>)
qed (use assms collection_in_range in \<open>auto simp: roots_ok_def read_root_def case_prod_unfold\<close>)

lemma read_roots_ok:
  "wf_graph g \<Longrightarrow> m < length (g_modules g) \<Longrightarrow> roots_ok g s \<Longrightarrow> roots_ok g (read_roots g m deps via s)"
  unfolding read_roots_def by (intro roots_ok_fold read_root_ok)

lemma enhancer_roots_ok:
  assumes "wf_graph g" "m < length (g_modules g)" "roots_ok g s"
  shows "roots_ok g (enhancer_roots g m e s)"
proof (cases e)
  case (ED_Type k)
  show ?thesis
  proof (cases "lookup g m k")
    case (Some v)
    then show ?thesis using assms(3) lookup_in_range [OF assms(1,2)]
      by (cases v) (auto simp: roots_ok_def enhancer_roots_def ED_Type case_prod_unfold)
  qed (use assms(3) in \<open>simp add: roots_ok_def enhancer_roots_def ED_Type case_prod_unfold\<close>)
qed (use assms(3) read_roots_ok [OF assms] in \<open>simp add: enhancer_roots_def case_prod_unfold\<close>)

lemma handler_roots_ok:
  assumes "wf_graph g" "hr_module h < length (g_modules g)" "hr_controller h < binding_count g"
  shows "roots_ok g (handler_roots g h)"
proof -
  have "roots_ok g (\<lparr>iw_seen = {}, iw_reads = []\<rparr>, hr_controller h # concat (map (collection g) (hd_role_keys (hr_decl h))))"
    using assms collection_in_range by (auto simp: roots_ok_def)
  then show ?thesis unfolding handler_roots_def by (intro roots_ok_fold enhancer_roots_ok read_roots_ok assms)
qed

lemma input_reads_total:
  assumes "wf_graph g" "hr_module h < length (g_modules g)" "hr_controller h < binding_count g"
  shows "\<exists>reads. input_reads g h = Some reads"
proof -
  obtain w roots where r: "handler_roots g h = (w, roots)" by fastforce
  let ?s = "\<lparr>is_parent = [], is_queue = [], is_walk = w\<rparr>"
  have "\<forall>b \<in> set roots. b < binding_count g" using handler_roots_ok [OF assms] r by (simp add: roots_ok_def)
  moreover have "search_ok g ?s" by (simp add: search_ok_def)
  ultimately have "search_ok g (fold (enter_root g None) roots ?s)" using enter_roots_ok by blast
  from search_total [OF assms(1) this] show ?thesis by (auto simp: input_reads_def r)
qed

lemma check_inputs_adds:
  assumes "wf_graph g" "handlers_in_range g"
  shows "only_adds (check_inputs g)"
proof -
  have "only_adds (\<lambda>errors. map_option (\<lambda>reads. errors @ concat (map (input_error g h) reads)) (input_reads g h))"
    if "h \<in> set (g_handlers g)" for h
    using input_reads_total [OF assms(1), of h] assms(2) that by (auto simp: only_adds_def handlers_in_range_def)
  then show ?thesis unfolding check_inputs_def [abs_def] by (rule only_adds_fold)
qed

end
