(* ===== verification/Wire_Laws.thy ===== *)
theory Wire_Laws
  imports Freeze_Laws Closure_Laws
begin

text \<open>
  Wiring as a whole: it always returns, and a graph it returns is one every later part may rely on. Its numbers are in
  range, every injection point and alias resolves, it has no dependency cycle, its connect order places each singleton
  after what it waits for, and nothing built once needs an execution.
\<close>

section \<open>Tables over a frozen graph\<close>

definition tables_ok :: "graph \<Rightarrow> bool" where
  "tables_ok g \<longleftrightarrow> (\<forall>table \<in> set (g_visibility g). \<forall>x \<in> set table. wf_visible g (snd x))"

text \<open>A graph as the freeze leaves it, \<open>first\<close> of its modules those of the base.\<close>

definition frozen_ok :: "graph \<Rightarrow> declared \<Rightarrow> bool" where
  "frozen_ok g d \<longleftrightarrow> core_ok (length (g_modules g)) g \<and> declared_ok (length (g_modules g)) d \<and> wf_exported g \<and> tables_ok g \<and>
     length (g_visibility g) = dc_first_module d \<and> dc_first_module d \<le> length (g_modules g) \<and>
     dc_first_binding d \<le> binding_count g"

lemma core_ok_wf_modules: "core_ok (length (g_modules g)) g \<Longrightarrow> wf_modules g"
  by (simp add: core_ok_def wf_modules_def)

lemma core_ok_handlers: "core_ok (length (g_modules g)) g \<Longrightarrow> handlers_in_range g"
  by (simp add: core_ok_def handlers_in_range_def)

lemma core_ok_module_ids:
  assumes "core_ok n g"
  shows "\<forall>m \<in> set (g_modules g). fm_id m < length (g_modules g)"
proof
  fix m assume "m \<in> set (g_modules g)"
  then obtain i where "i < length (g_modules g)" "gmodule g i = m" by (auto simp: in_set_conv_nth gmodule_def)
  then show "fm_id m < length (g_modules g)" using assms by (auto simp: core_ok_def)
qed

lemma core_ok_wf_graph:
  assumes "core_ok (length (g_modules g)) g" "tables_ok g" "length (g_visibility g) = length (g_modules g)"
  shows "wf_graph g"
proof -
  have edges: "\<forall>b \<in> set (g_bindings g). \<forall>e \<in> set (fb_edges b). wf_edge g e"
    using assms(1) unfolding core_ok_def binding_def by (metis in_set_conv_nth)
  have "\<forall>(k, ids) \<in> set (g_collections g). \<forall>b \<in> set ids. b < binding_count g"
    using core_ok_collections [OF assms(1)] unfolding ids_below_def by fastforce
  moreover have "\<forall>table \<in> set (g_visibility g). \<forall>(k, v) \<in> set table. wf_visible g v"
    using assms(2) unfolding tables_ok_def by fastforce
  ultimately show ?thesis using assms(1,3) edges unfolding wf_graph_def core_ok_def by blast
qed

lemma wf_graph_core:
  assumes "wf_graph g" "wf_modules g" "handlers_in_range g"
  shows "core_ok (length (g_modules g)) g"
proof -
  have "binding g b \<in> set (g_bindings g)" if "b < binding_count g" for b using that by (simp add: binding_def)
  then have "\<forall>b < binding_count g. \<forall>e \<in> set (fb_edges (binding g b)). wf_edge g e" using assms(1) unfolding wf_graph_def by blast
  moreover have "ids_below (binding_count g) (g_collections g)" using assms(1) unfolding wf_graph_def ids_below_def by fastforce
  ultimately show ?thesis using assms unfolding wf_graph_def wf_modules_def handlers_in_range_def core_ok_def by blast
qed

lemma build_tables_wf:
  assumes "frozen_ok g d"
  obtains h where "build_tables g d = Some h" "wf_graph h" "core_ok (length (g_modules h)) h" "g_modules h = g_modules g"
    "g_bindings h = g_bindings g" "g_root h = g_root g" "wf_exported h"
proof -
  let ?n = "length (g_modules g)"
  note G = assms [unfolded frozen_ok_def]
  have exps: "\<forall>x \<in> set (dc_exports d). fst x < ?n" using G by (simp add: declared_ok_def)
  obtain h where h: "build_tables g d = Some h" "g_modules h = g_modules g" "g_bindings h = g_bindings g"
    "g_collections h = g_collections g" "g_handlers h = g_handlers g" "g_root h = g_root g"
    "length (g_exported h) = ?n" "length (g_visibility h) = ?n"
    "\<And>m k. dc_first_module d \<le> m \<Longrightarrow> m < ?n \<Longrightarrow> lookup h m k = seen_by h m k"
    "\<And>m. m < dc_first_module d \<Longrightarrow> m < ?n \<Longrightarrow> m < length (g_visibility g) \<Longrightarrow> g_visibility h ! m = g_visibility g ! m"
    "wf_modules g \<Longrightarrow> wf_exported g \<Longrightarrow> wf_exported h"
    "\<And>m. dc_first_module d \<le> m \<Longrightarrow> m < ?n \<Longrightarrow> distinct (map fst (g_visibility h ! m))"
    by (rule build_tables_result [OF exps]) blast
  have core: "core_ok ?n h" by (rule core_ok_cong [of _ g]) (use G h core_ok_collections in auto)
  have exported: "wf_exported h" using h(11) G core_ok_wf_modules by blast
  have mods: "wf_modules h" using core_ok_wf_modules core h(2) by metis
  have "wf_visible h (snd x)" if m: "m < ?n" and x: "x \<in> set (g_visibility h ! m)" for m x
  proof (cases "m < dc_first_module d")
    case True
    then have "g_visibility h ! m = g_visibility g ! m" "m < length (g_visibility g)" using h(10) m G by auto
    then have "wf_visible g (snd x)" using x G unfolding tables_ok_def by (metis nth_mem)
    then show ?thesis using h(2,3) by (simp add: wf_visible_def cong: visible.case_cong)
  next
    case False
    then have "lookup h m (fst x) = Some (snd x)" using h(12) [of m] m x by (simp add: lookup_def)
    then have "seen_by h m (fst x) = Some (snd x)" using h(9) [of m "fst x"] False m by simp
    then show ?thesis using seen_by_range [OF mods exported] h(2,7) m by simp
  qed
  then have "tables_ok h" unfolding tables_ok_def using h(8) by (metis in_set_conv_nth)
  then have "wf_graph h" using core_ok_wf_graph core h(2,8) by simp
  then show thesis using that h(1-3,6) core exported by simp
qed

section \<open>Passes over the bindings\<close>

text \<open>A pass that changes roles, scopes and needs alone changes neither what is read nor what is in range.\<close>

definition rewired :: "graph \<Rightarrow> graph \<Rightarrow> bool" where
  "rewired g g' \<longleftrightarrow> g_modules g' = g_modules g \<and> g_visibility g' = g_visibility g \<and> g_handlers g' = g_handlers g \<and>
     g_root g' = g_root g \<and> g_collections g' = g_collections g \<and> g_exported g' = g_exported g \<and>
     binding_count g' = binding_count g \<and> (\<forall>b < binding_count g. same_wiring (binding g b) (binding g' b))"

lemma same_wiring_refl [simp]: "same_wiring b b"
  by (simp add: same_wiring_def)

lemma rewired_refl: "rewired g g"
  by (simp add: rewired_def)

lemma rewired_trans: "rewired a b \<Longrightarrow> rewired b c \<Longrightarrow> rewired a c"
  by (simp add: rewired_def same_wiring_def)

lemma rewired_bindings:
  "length bs = binding_count g \<Longrightarrow> (\<And>b. b < binding_count g \<Longrightarrow> same_wiring (g_bindings g ! b) (bs ! b)) \<Longrightarrow>
     rewired g (g\<lparr>g_bindings := bs\<rparr>)"
  by (simp add: rewired_def binding_def)

lemma rewired_closures: "rewired g (g\<lparr>g_closures := cs\<rparr>)"
  by (simp add: rewired_def binding_def)

lemma rewired_order: "rewired g (g\<lparr>g_connect_order := order\<rparr>)"
  by (simp add: rewired_def binding_def)

lemma rewired_eqs:
  assumes "rewired g g'"
  shows "g_modules g' = g_modules g" "g_visibility g' = g_visibility g" "g_handlers g' = g_handlers g" "g_root g' = g_root g"
    "g_collections g' = g_collections g" "g_exported g' = g_exported g" "binding_count g' = binding_count g"
  using assms by (simp_all add: rewired_def)

lemma rewired_binding:
  "rewired g g' \<Longrightarrow> b < binding_count g \<Longrightarrow> same_wiring (binding g b) (binding g' b)"
  by (simp add: rewired_def)

lemma rewired_reads:
  assumes "rewired g g'"
  shows "lookup g' = lookup g" "collection g' = collection g" "edge_deps g' = edge_deps g" "closure_deps g' = closure_deps g"
proof -
  show l: "lookup g' = lookup g" using assms by (auto simp: rewired_def lookup_def fun_eq_iff)
  show c: "collection g' = collection g" using assms by (auto simp: rewired_def collection_def fun_eq_iff)
  have "edge_deps g' t = edge_deps g t" for t by (cases t) (simp_all add: c)
  then show "edge_deps g' = edge_deps g" by blast
  have "read_deps g' m k = read_deps g m k" for m k by (cases k) (simp_all add: c l)
  then show "closure_deps g' = closure_deps g" by (simp add: closure_deps_def fun_eq_iff)
qed

lemma rewired_deps:
  assumes "rewired g g'" "b < binding_count g"
  shows "construction_deps g' b = construction_deps g b" "readiness_deps g' b = readiness_deps g b" "alias_target g' b = alias_target g b"
proof -
  note R = rewired_reads [OF assms(1)]
  have B: "fb_origin (binding g' b) = fb_origin (binding g b)" "fb_record (binding g' b) = fb_record (binding g b)"
    "fb_edges (binding g' b) = fb_edges (binding g b)"
    using rewired_binding [OF assms] by (simp_all add: same_wiring_def)
  show a: "alias_target g' b = alias_target g b" unfolding alias_target_def R B ..
  show "construction_deps g' b = construction_deps g b" unfolding construction_deps_def R a B ..
  show "readiness_deps g' b = readiness_deps g b" unfolding readiness_deps_def R B ..
qed

lemma rewired_successors: "rewired g g' \<Longrightarrow> dep_successors g' = dep_successors g"
  using rewired_deps rewired_eqs(7) by (auto simp: dep_successors_def)

lemma rewired_wf:
  assumes "rewired g g'" "wf_graph g" "core_ok (length (g_modules g)) g"
  shows "wf_graph g'" "core_ok (length (g_modules g')) g'"
proof -
  note E = rewired_eqs [OF assms(1)]
  have bs: "core_ok (length (g_modules g)) (g\<lparr>g_bindings := g_bindings g'\<rparr>)"
    by (rule core_ok_rewire [OF assms(3)]) (use rewired_binding [OF assms(1)] E(7) in \<open>simp_all add: binding_def\<close>)
  show core: "core_ok (length (g_modules g')) g'"
    unfolding E(1) by (rule core_ok_cong [OF bs]) (use E core_ok_collections [OF assms(3)] in simp_all)
  have "wf_visible g' = wf_visible g" using E(1,7) by (simp add: wf_visible_def fun_eq_iff cong: visible.case_cong)
  then have "tables_ok g'" using assms(2) by (fastforce simp: tables_ok_def wf_graph_def E)
  then show "wf_graph g'" by (rule core_ok_wf_graph [OF core]) (use assms(2) in \<open>simp add: wf_graph_def E\<close>)
qed

lemma assign_roles_rewired: "rewired g (assign_roles g)"
proof -
  have one: "rewired g (assign_role b g)" for b g
  proof (cases "fb_role (binding g b) = RoleProvider")
    case True
    have "same_wiring (g_bindings g ! c) ((g_bindings g)[b := (binding g b)\<lparr>fb_role := RoleEnhancer\<rparr>] ! c)" for c
      by (cases "b = c"; cases "b < binding_count g") (simp_all add: same_wiring_def binding_def list_update_beyond)
    then show ?thesis using True by (simp add: assign_role_def rewired_bindings)
  qed (simp add: assign_role_def rewired_refl)
  have "rewired g (fold assign_role bs g)" for bs
  proof (induction bs arbitrary: g)
    case (Cons b bs) show ?case using rewired_trans [OF one [of g b]] Cons.IH by simp
  qed (simp add: rewired_refl)
  then show ?thesis by (simp add: assign_roles_def)
qed

lemma marked_rewired: "length ns = binding_count g \<Longrightarrow> rewired g (marked g ns)"
  unfolding marked_def by (rule rewired_bindings) (simp_all add: same_wiring_def)

section \<open>Edges\<close>

lemma edges_of_reads_wf:
  assumes "wf_graph g" "fb_origin b < length (g_modules g)" "e \<in> set (edges_of_reads g b)"
  shows "wf_edge g e"
proof -
  obtain rd :: read_rec where "target_of g (fb_origin b) rd = Some (ed_target e)"
    using assms(3) by (auto simp: edges_of_reads_def reads_edges_def map_filter_set case_prod_unfold)
  then show ?thesis using lookup_in_range [OF assms(1,2)]
    by (auto simp: target_of_def wf_edge_def split: read_kind.splits option.splits visible.splits edge_target.splits)
qed

lemma with_edges_wf:
  assumes wf: "wf_graph g" and core: "core_ok (length (g_modules g)) g" and xs: "with_edges g B xs"
  shows "wf_graph (g\<lparr>g_bindings := xs\<rparr>)" "core_ok (length (g_modules g)) (g\<lparr>g_bindings := xs\<rparr>)"
proof -
  let ?g = "g\<lparr>g_bindings := xs\<rparr>"
  have len: "length xs = binding_count g" using xs by (simp add: with_edges_def)
  have eqs: "wf_edge ?g = wf_edge g" "wf_visible ?g = wf_visible g" "gmodule ?g = gmodule g"
    using len by (simp_all add: wf_edge_def wf_visible_def gmodule_def fun_eq_iff cong: edge_target.case_cong visible.case_cong)
  have "fb_id (binding ?g b) = b \<and> fb_origin (binding ?g b) < length (g_modules g) \<and> (\<forall>e \<in> set (fb_edges (binding ?g b)). wf_edge g e)"
    if b: "b < binding_count g" for b
  proof -
    have "binding ?g b = (if b \<in> B then (binding g b)\<lparr>fb_edges := edges_of_reads g (binding g b)\<rparr> else binding g b)"
      using xs by (simp add: with_edges_def binding_def)
    then show ?thesis using core b edges_of_reads_wf [OF wf, of "binding g b"] by (simp add: core_ok_def)
  qed
  then show c: "core_ok (length (g_modules g)) ?g" using core len unfolding core_ok_def eqs by simp
  have "tables_ok ?g" using wf by (fastforce simp: tables_ok_def wf_graph_def eqs)
  then show "wf_graph ?g" using core_ok_wf_graph [of ?g] c wf by (simp add: wf_graph_def)
qed

section \<open>Resolution is kept\<close>

text \<open>The passes after resolution keep the tables, the handlers and every record with its origin.\<close>

definition same_records :: "graph \<Rightarrow> graph \<Rightarrow> bool" where
  "same_records g g' \<longleftrightarrow> g_modules g' = g_modules g \<and> g_visibility g' = g_visibility g \<and> g_handlers g' = g_handlers g \<and>
     g_root g' = g_root g \<and> binding_count g' = binding_count g \<and>
     (\<forall>b < binding_count g. fb_origin (binding g' b) = fb_origin (binding g b) \<and> fb_record (binding g' b) = fb_record (binding g b))"

lemma same_records_trans: "same_records a b \<Longrightarrow> same_records b c \<Longrightarrow> same_records a c"
  by (simp add: same_records_def)

lemma rewired_records: "rewired g g' \<Longrightarrow> same_records g g'"
  using rewired_eqs [of g g'] rewired_binding [of g g'] by (simp add: same_records_def same_wiring_def)

lemma with_edges_records: "with_edges g B xs \<Longrightarrow> same_records g (g\<lparr>g_bindings := xs\<rparr>)"
  by (simp add: same_records_def with_edges_def binding_def)

lemma resolved_ok_records:
  assumes same: "same_records g g'" and hs: "handlers_in_range g" and ok: "resolved_ok g d"
  shows "resolved_ok g' d"
proof -
  note S = same [unfolded same_records_def]
  have l: "lookup g' = lookup g" using S by (simp add: lookup_def fun_eq_iff)
  have r: "read_ok g' = read_ok g" unfolding read_ok_def l by simp
  have dp: "deps_ok g' = deps_ok g" unfolding deps_ok_def r by simp
  have e: "enhancer_ok g' m x = enhancer_ok g m x" for m x by (cases x) (simp_all add: r dp)
  have c: "closures_ok g' b' = closures_ok g b" if "fb_origin b' = fb_origin b" "fb_record b' = fb_record b" for b b'
    unfolding closures_ok_def dp that ..
  have "\<forall>b \<in> set (drop (dc_first_binding d) (g_bindings g')).
      deps_ok g' (fb_origin b) (br_dependencies (fb_record b)) \<and> closures_ok g' b"
    using ok S c unfolding resolved_ok_def ball_drop dp by (simp add: binding_def)
  moreover have "handler_ok g' h" if "h \<in> set (drop (dc_first_handler d) (g_handlers g'))" for h
  proof -
    have h: "h \<in> set (drop (dc_first_handler d) (g_handlers g))" using that S by simp
    then have "hr_controller h < binding_count g" using hs by (auto simp: handlers_in_range_def dest: in_set_dropD)
    then have "fb_record (binding g' (hr_controller h)) = fb_record (binding g (hr_controller h))" using S by simp
    moreover have "handler_ok g h" using ok h by (simp add: resolved_ok_def)
    ultimately show ?thesis by (simp add: handler_ok_def unambiguous_def l dp e)
  qed
  ultimately show ?thesis using ok S unfolding resolved_ok_def dp by simp
qed

section \<open>The checks\<close>

text \<open>What a graph all checks passed guarantees.\<close>

definition aliases_ok :: "graph \<Rightarrow> nat \<Rightarrow> bool" where
  "aliases_ok g first \<longleftrightarrow> (\<forall>b target. first \<le> b \<and> b < binding_count g \<and> br_recipe (fb_record (binding g b)) = RecipeAlias target \<longrightarrow>
     (\<exists>t. lookup g (fb_origin (binding g b)) target = Some (VisBinding t)))"

definition built_once_ok :: "graph \<Rightarrow> bool" where
  "built_once_ok g \<longleftrightarrow> (\<forall>b < binding_count g. fb_effective (binding g b) = EffSingleton \<and>
     \<not> is_alias_or_failed (br_recipe (fb_record (binding g b))) \<longrightarrow>
     (\<forall>e \<in> set (fb_edges (binding g b)). \<not> is_execution_target (ed_target e)) \<and>
     (\<forall>c \<in> set (construction_deps g b). \<not> passes_execution g c))"

definition checked :: "graph \<Rightarrow> declared \<Rightarrow> bool" where
  "checked g d \<longleftrightarrow> wf_graph g \<and> core_ok (length (g_modules g)) g \<and> resolved_ok g d \<and> aliases_ok g (dc_first_binding d) \<and>
     acyclic (edges_of (dep_successors g)) \<and> built_once_ok g"

lemma aliases_ok_records: "same_records g g' \<Longrightarrow> aliases_ok g first \<Longrightarrow> aliases_ok g' first"
  by (auto simp: same_records_def aliases_ok_def lookup_def)

lemma alias_errors_none:
  assumes "check_bindings g d errors = errors @ []" "core_ok (length (g_modules g)) g"
  shows "aliases_ok g (dc_first_binding d)"
  unfolding aliases_ok_def
proof (intro allI impI)
  fix b target
  assume b: "dc_first_binding d \<le> b \<and> b < binding_count g \<and> br_recipe (fb_record (binding g b)) = RecipeAlias target"
  have "\<forall>x \<in> set (drop (dc_first_binding d) (g_bindings g)). record_error g x = []" using assms(1) by (simp add: check_bindings_def)
  then have "record_error g (binding g b) = []" using b unfolding ball_drop by (simp add: binding_def)
  then have "alias_error g (binding g b) = []" by (simp add: record_error_def)
  then show "\<exists>t. lookup g (fb_origin (binding g b)) target = Some (VisBinding t)"
    using b by (auto simp: alias_error_def Let_def split: option.splits visible.splits)
qed

lemma built_once:
  assumes "wf_graph g" "length ns = binding_count g" "needs_execution g = Some (marked g ns)" "check_scopes (marked g ns) errors = Some errors"
  shows "built_once_ok (marked g ns)"
proof -
  have wf: "wf_graph (marked g ns)" by (rule wf_graph_marked [OF assms(1,2)])
  have "check_scopes (marked g ns) [] = Some []"
    using check_scopes_result [OF wf, of errors] check_scopes_result [OF wf, of "[]"] assms(4) by auto
  from check_scopes_no_execution [OF assms(1,3) this] show ?thesis
    using assms(2) marked_binding [OF assms(2)] unfolding built_once_ok_def by simp
qed

lemma built_once_ok_cong:
  assumes "rewired g g'" "g_bindings g' = g_bindings g" "wf_graph g" "built_once_ok g"
  shows "built_once_ok g'"
proof -
  have eq: "binding g' = binding g" using assms(2) by (simp add: binding_def fun_eq_iff)
  have "passes_execution g' = passes_execution g" unfolding passes_execution_def [abs_def] eq ..
  then show ?thesis using eq assms(4) rewired_deps(1) [OF assms(1)] rewired_eqs(7) [OF assms(1)] unfolding built_once_ok_def by simp
qed

lemma checked_rewired:
  assumes "rewired g g'" "g_bindings g' = g_bindings g" "checked g d"
  shows "checked g' d"
proof -
  note C = assms(3) [unfolded checked_def]
  have "handlers_in_range g" using C core_ok_handlers by blast
  then show ?thesis
    using C rewired_wf [OF assms(1)] resolved_ok_records [OF rewired_records [OF assms(1)]] aliases_ok_records [OF rewired_records [OF assms(1)]]
      rewired_successors [OF assms(1)] built_once_ok_cong [OF assms(1,2)] by (simp add: checked_def)
qed

text \<open>Steps 3 to 5 over a graph with its tables: they return, and with no error added the graph is checked.\<close>

lemma dependency_steps:
  assumes wf: "wf_graph g" "core_ok (length (g_modules g)) g" and d: "dc_first_binding d \<le> binding_count g"
  obtains h deps cycles where "resolve_dependencies g d es = (h, es @ deps)" "dependency_cycles h cs = Some (cs @ cycles)"
    "wf_graph h" "core_ok (length (g_modules h)) h" "same_records g h"
    "deps = [] \<longrightarrow> resolved_ok g d" "cycles = [] \<longrightarrow> acyclic (edges_of (dep_successors h))"
proof -
  obtain xs deps where r: "resolve_dependencies g d es = (g\<lparr>g_bindings := xs\<rparr>, es @ deps)"
    "with_edges g {dc_first_binding d..<binding_count g} xs" "deps = [] \<longleftrightarrow> resolved_ok g d"
    using resolve_dependencies_result [OF d] by blast
  let ?h = "g\<lparr>g_bindings := xs\<rparr>"
  obtain cycles where c: "dependency_cycles ?h cs = Some (cs @ cycles)" using cycles_report [OF refl, of ?h cs] by blast
  have "cycles = [] \<Longrightarrow> acyclic (edges_of (dep_successors ?h))" using c no_cycles_iff_acyclic [of ?h cs] by simp
  then show thesis using that [of ?h deps cycles] r c with_edges_wf [OF wf r(2)] with_edges_records [OF r(2)] by simp
qed

lemma scope_steps:
  assumes wf: "wf_graph g" "core_ok (length (g_modules g)) g" and d: "declared_ok (length (g_modules g)) d"
  obtains h h' scopes more rest where "needs_execution (assign_roles g) = Some h" "check_scopes h ss = Some (ss @ scopes)"
    "closure_scopes h d (ss @ scopes) = Some (h', (ss @ scopes) @ more)"
    "Option.bind (check_closures h' d ((ss @ scopes) @ more)) (check_inputs h') = Some (((ss @ scopes) @ more) @ rest)"
    "rewired g h'" "scopes = [] \<longrightarrow> built_once_ok h'"
proof -
  let ?r = "assign_roles g"
  obtain ns where ns: "needs_execution ?r = Some (marked ?r ns)" "length ns = binding_count ?r" using needs_execution_result [of ?r] by blast
  let ?h = "marked ?r ns"
  have wfr: "wf_graph ?r" by (rule rewired_wf [OF assign_roles_rewired wf])
  have g_h: "rewired g ?h" by (rule rewired_trans [OF assign_roles_rewired marked_rewired [OF ns(2)]])
  note H = rewired_wf [OF g_h wf]
  obtain scopes where sc: "check_scopes ?h ss = Some (ss @ scopes)" using check_scopes_result [OF H(1)] by blast
  obtain cs more where cl: "closure_scopes ?h d (ss @ scopes) = Some (?h\<lparr>g_closures := cs\<rparr>, (ss @ scopes) @ more)"
    using closure_scopes_total [OF H(1) core_ok_handlers [OF H(2)]] by blast
  let ?h' = "?h\<lparr>g_closures := cs\<rparr>"
  have g_h': "rewired g ?h'" by (rule rewired_trans [OF g_h rewired_closures])
  note H' = rewired_wf [OF g_h' wf]
  have "\<forall>x \<in> set (dc_meta d). fst x < length (g_modules ?h')" using d rewired_eqs(1) [OF g_h'] by (simp add: declared_ok_def)
  then have "only_adds (\<lambda>s. Option.bind (check_closures ?h' d s) (check_inputs ?h'))"
    by (intro only_adds_bind check_closures_adds [OF H'(1) core_ok_module_ids [OF H'(2)]] check_inputs_adds [OF H'(1) core_ok_handlers [OF H'(2)]])
  then obtain rest where "Option.bind (check_closures ?h' d ((ss @ scopes) @ more)) (check_inputs ?h') = Some (((ss @ scopes) @ more) @ rest)"
    using only_addsD by blast
  moreover have "built_once_ok ?h'" if "scopes = []"
    using built_once_ok_cong [OF rewired_closures [of ?h cs]] built_once [OF wfr ns(2,1), of ss] sc that H(1) by simp
  ultimately show thesis using that [of ?h scopes ?h' more rest] ns(1) sc cl g_h' by simp
qed

lemma check_result:
  assumes ok: "frozen_ok g d"
  shows "\<exists>g' s'. check g d env s = Some (g', s') \<and> (into_errors s' = [] \<longrightarrow> checked g' d) \<and>
    g_modules g' = g_modules g \<and> binding_count g' = binding_count g"
proof -
  note G = ok [unfolded frozen_ok_def]
  obtain h where h: "build_tables g d = Some h" "wf_graph h" "core_ok (length (g_modules h)) h" "g_modules h = g_modules g"
    "g_bindings h = g_bindings g" by (rule build_tables_wf [OF ok]) blast
  let ?bs = "check_bindings h d (sp_bindings s)"
  have "dc_first_binding d \<le> binding_count h" using G h(5) by simp
  then obtain h1 deps cycles where h1: "resolve_dependencies h d (sp_dependencies s) = (h1, sp_dependencies s @ deps)"
    "dependency_cycles h1 (sp_cycles s) = Some (sp_cycles s @ cycles)" "wf_graph h1" "core_ok (length (g_modules h1)) h1" "same_records h h1"
    "deps = [] \<longrightarrow> resolved_ok h d" "cycles = [] \<longrightarrow> acyclic (edges_of (dep_successors h1))"
    by (rule dependency_steps [OF h(2,3), where es = "sp_dependencies s" and cs = "sp_cycles s"])
  have "declared_ok (length (g_modules h1)) d" using G h(4) h1(5) by (simp add: same_records_def)
  then obtain h2 h3 scopes more rest where h3: "needs_execution (assign_roles h1) = Some h2" "check_scopes h2 (sp_scopes s) = Some (sp_scopes s @ scopes)"
    "closure_scopes h2 d (sp_scopes s @ scopes) = Some (h3, (sp_scopes s @ scopes) @ more)"
    "Option.bind (check_closures h3 d ((sp_scopes s @ scopes) @ more)) (check_inputs h3) = Some (((sp_scopes s @ scopes) @ more) @ rest)"
    "rewired h1 h3" "scopes = [] \<longrightarrow> built_once_ok h3"
    by (rule scope_steps [OF h1(3,4), where ss = "sp_scopes s"])
  obtain closures where cl: "check_closures h3 d ((sp_scopes s @ scopes) @ more) = Some closures"
    "check_inputs h3 closures = Some (((sp_scopes s @ scopes) @ more) @ rest)" using h3(4) by (auto simp: bind_eq_Some_conv)
  have all: "same_records h h3" by (rule same_records_trans [OF h1(5) rewired_records [OF h3(5)]])
  let ?s' = "s\<lparr>sp_modules := check_modules h d (sp_modules s), sp_bindings := ?bs,
     sp_dependencies := check_controller_reads h1 d (sp_dependencies s @ deps), sp_cycles := sp_cycles s @ cycles,
     sp_scopes := ((sp_scopes s @ scopes) @ more) @ rest, sp_environment := check_environment h3 env d (sp_environment s)\<rparr>"
  have "check g d env s = Some (h3, ?s')"
    using h(1) h1(1,2) h3(1-3) cl by (simp add: check_def Let_def)
  moreover have "checked h3 d" if none: "into_errors ?s' = []"
  proof -
    have empty: "?bs = []" "sp_bindings s = []" "deps = []" "cycles = []" "scopes = []"
      using none by (auto simp: into_errors_def check_bindings_def check_controller_reads_def)
    have "aliases_ok h (dc_first_binding d)" using alias_errors_none [OF _ h(3), of d "[]"] empty(1,2) by simp
    then show ?thesis
      using rewired_wf [OF h3(5) h1(3,4)] rewired_successors [OF h3(5)] h1(6,7) h3(6) empty(3-5) aliases_ok_records [OF all]
        resolved_ok_records [OF all core_ok_handlers [OF h(3)]] by (simp add: checked_def)
  qed
  ultimately show ?thesis using all h(4,5) by (auto simp: same_records_def)
qed

section \<open>Wiring\<close>

lemma frozen_ok_empty:
  assumes r: "wf_registry r 0" and run: "freeze graph_empty r load plan steps = (g, d, steps')"
  shows "frozen_ok (g\<lparr>g_root := root\<rparr>) d" "dc_first_module d = 0" "dc_first_binding d = 0" "dc_first_handler d = 0"
proof -
  have core: "core_ok (length (g_modules graph_empty)) graph_empty" by (simp add: core_ok_def graph_empty_def ids_below_def)
  have r0: "wf_registry r (length (g_modules graph_empty))" using r by (simp add: graph_empty_def)
  note F = freeze_result [OF r0 core run]
  show first: "dc_first_module d = 0" "dc_first_binding d = 0" "dc_first_handler d = 0"
    using F(4) by (simp_all add: same_starts_def declared_new_def graph_empty_def)
  have "core_ok (length (g_modules g)) (g\<lparr>g_root := root\<rparr>)"
    by (rule core_ok_cong [OF F(1)]) (simp_all add: core_ok_collections [OF F(1)])
  then show "frozen_ok (g\<lparr>g_root := root\<rparr>) d"
    using F(2,5,6) first by (simp add: frozen_ok_def wf_exported_def tables_ok_def graph_empty_def)
qed

text \<open>Recording the connect order changes nothing the order was computed from.\<close>

lemma ordered_reads:
  fixes g :: graph and order :: "nat list"
  defines "g' \<equiv> g\<lparr>g_connect_order := order\<rparr>"
  shows "single g' = single g" "greedy g' = greedy g"
proof -
  have b: "binding g' = binding g" and l: "lookup g' = lookup g" and c: "collection g' = collection g"
    by (simp_all add: g'_def binding_def lookup_def collection_def fun_eq_iff)
  have "edge_deps g' t = edge_deps g t" for t by (cases t) (simp_all add: c)
  then have e: "edge_deps g' = edge_deps g" by blast
  have "read_deps g' m k = read_deps g m k" for m k by (cases k) (simp_all add: c l)
  then have rd: "closure_deps g' = closure_deps g" by (simp add: closure_deps_def fun_eq_iff)
  have a: "alias_target g' = alias_target g" unfolding alias_target_def [abs_def] b l ..
  have cd: "construction_deps g' = construction_deps g" unfolding construction_deps_def [abs_def] b e a ..
  have r: "readiness_deps g' = readiness_deps g" unfolding readiness_deps_def [abs_def] b rd ..
  have w: "waits_for g' = waits_for g" unfolding waits_for_def [abs_def] through_def b cd r ..
  show s: "single g' = single g" unfolding b by (simp add: g'_def)
  have "ready_at g' = ready_at g" unfolding ready_at_def [abs_def] w using s by (simp add: fun_eq_iff)
  then show "greedy g' = greedy g" unfolding greedy_def [abs_def] by simp
qed

text \<open>Every injection point of a graph wired whole: no module of it was there before.\<close>

definition all_resolve :: "graph \<Rightarrow> bool" where
  "all_resolve g \<longleftrightarrow>
     (\<forall>b \<in> set (g_bindings g). deps_ok g (fb_origin b) (br_dependencies (fb_record b)) \<and> closures_ok g b) \<and>
     (\<forall>m \<in> set (g_modules g). \<forall>h \<in> set (fm_hooks m). deps_ok g (fm_id m) (hk_dependencies h)) \<and>
     (\<forall>h \<in> set (g_handlers g). handler_ok g h)"

lemma wire_registry_result:
  assumes "wf_registry r 0"
  shows "\<exists>res. wire_registry r env plan = Some res \<and> (case res of Inl errors \<Rightarrow> errors \<noteq> [] | Inr g \<Rightarrow>
    wf_graph g \<and> all_resolve g \<and> aliases_ok g 0 \<and> acyclic (edges_of (dep_successors g)) \<and> built_once_ok g \<and>
    set (g_connect_order g) = {b. single g b} \<and> greedy g (g_connect_order g))"
proof -
  define r' where "r' = (case we_timer env of Some timer \<Rightarrow> add_timer_module timer (we_runtime env) r | None \<Rightarrow> r)"
  have r': "wf_registry r' 0" using assms add_timer_module_wf by (simp add: r'_def split: option.split)
  obtain g d s where f: "freeze graph_empty r' None plan steps_default = (g, d, s)" by (metis prod_cases3)
  note F = frozen_ok_empty [OF r' f]
  obtain h s' where c: "check (g\<lparr>g_root := dc_root d\<rparr>) d env s = Some (h, s')" "into_errors s' = [] \<longrightarrow> checked h d"
    using check_result [OF F(1)] by blast
  have eq: "wire_registry r env plan = (if into_errors s' \<noteq> [] then Some (Inl (into_errors s'))
      else map_option (\<lambda>order. Inr (h\<lparr>g_connect_order := order\<rparr>)) (connect_order h))"
    using f c(1) by (simp add: wire_registry_def r'_def [symmetric])
  show ?thesis
  proof (cases "into_errors s' = []")
    case True
    then have h: "checked h d" using c(2) by simp
    then obtain order where o: "connect_order h = Some order" "set order = {b. single h b}" "greedy h order"
      using connect_order_sorted [of h] unfolding checked_def by blast
    let ?h = "h\<lparr>g_connect_order := order\<rparr>"
    have "checked ?h d" by (rule checked_rewired [OF rewired_order _ h]) simp
    moreover from this have "all_resolve ?h" using F(2-4) by (simp add: checked_def resolved_ok_def all_resolve_def)
    ultimately show ?thesis using eq True o F(3) ordered_reads [where g = h and order = order] by (simp add: checked_def)
  qed (simp add: eq)
qed

text \<open>
  C1. Wiring an application. Whatever the modules register and whatever a test's plan replaces, a graph \<open>wire\<close> returns has
  every number in range, resolves every injection point and alias, and has no dependency cycle; nothing in it built once
  needs an execution; and its connect order lists exactly the singletons, each after what it waits for and at every
  position the smallest one ready.
\<close>

theorem wire_sound:
  assumes "wire fuel mods root env plan = Some (Inr g)"
  shows "wf_graph g \<and> all_resolve g \<and> aliases_ok g 0 \<and> acyclic (edges_of (dep_successors g)) \<and> built_once_ok g \<and>
    set (g_connect_order g) = {b. single g b} \<and> greedy g (g_connect_order g)"
proof -
  obtain r where r: "register_all fuel mods root (case plan of Some p \<Rightarrow> tp_replacements p | None \<Rightarrow> []) = Some r"
    and w: "wire_registry r env plan = Some (Inr g)" using assms by (auto simp: wire_def bind_eq_Some_conv)
  from wire_registry_result [OF register_all_wf [OF r], of env plan] w show ?thesis by auto
qed

text \<open>
  C2. Wiring always answers. When the application's modules have finitely many identities, and the walk is allowed that
  many, \<open>wire\<close> returns the graph or at least one error: every loop of every step ends.
\<close>

theorem wire_total:
  assumes "finite C" and "\<forall>m. canon (mm_identity (mods m)) \<in> C" and "card C \<le> fuel"
  shows "(\<exists>g. wire fuel mods root env plan = Some (Inr g)) \<or>
    (\<exists>errors. wire fuel mods root env plan = Some (Inl errors) \<and> errors \<noteq> [])"
proof -
  obtain r where r: "register_all fuel mods root (case plan of Some p \<Rightarrow> tp_replacements p | None \<Rightarrow> []) = Some r"
    using register_all_total [OF assms] by blast
  obtain res where "wire_registry r env plan = Some res" "\<forall>errors. res = Inl errors \<longrightarrow> errors \<noteq> []"
    using wire_registry_result [OF register_all_wf [OF r], of env plan] by fastforce
  then show ?thesis using r by (cases res) (simp_all add: wire_def)
qed

section \<open>An application wired\<close>

text \<open>A root that binds a service reading the pool its import exports, with a clock set.\<close>

definition app_key :: "string \<Rightarrow> key" where
  "app_key name = key_of (RustType 10 name) unit_type"

definition app_at :: location where
  "app_at = (''app.rs'', 1, 1)"

definition app_binding :: "string \<Rightarrow> requirement \<Rightarrow> binding_record" where
  "app_binding name req =
     binding_record_new (app_key name) name BK_Single SK_Auto (RecipeConstruct 0) (deps_add name req no_deps) app_at"

definition app_mods :: "nat \<Rightarrow> module_impl" where
  "app_mods m =
     (if m = 0 then
        \<lparr>mm_identity = sample_identity ''Root'', mm_settings = settings_new,
         mm_register = (\<lambda>n. n\<lparr>nd_imports := [\<lparr>im_module = 1, im_at = app_at\<rparr>],
           nd_bindings := [app_binding ''Service'' (req_dep (app_key ''Pool'') [])]\<rparr>)\<rparr>
      else
        \<lparr>mm_identity = sample_identity ''Leaf'', mm_settings = settings_new,
         mm_register = (\<lambda>n. n\<lparr>nd_bindings := [app_binding ''Pool'' []],
           nd_exports := [\<lparr>ex_key = app_key ''Pool'', ex_reexport = False, ex_location = app_at\<rparr>]\<rparr>)\<rparr>)"

definition app_env :: wire_env where
  "app_env = \<lparr>we_timer = Some 0, we_runtime = None, we_knobs_set = [''hook_timeout''], we_zero_defaults = []\<rparr>"

lemma app_wired:
  "(case wire 2 app_mods 0 app_env None of Some (Inr g) \<Rightarrow> Some (g_connect_order g) | _ \<Rightarrow> None) = Some [0, 1, 2]"
  by code_simp

theorem wire_sound_witness:
  "\<exists>g. wire 2 app_mods 0 app_env None = Some (Inr g) \<and> g_connect_order g = [0, 1, 2] \<and> wf_graph g \<and> all_resolve g \<and>
     acyclic (edges_of (dep_successors g)) \<and> built_once_ok g \<and> greedy g (g_connect_order g)"
proof -
  obtain g where g: "wire 2 app_mods 0 app_env None = Some (Inr g)" "g_connect_order g = [0, 1, 2]"
    using app_wired by (auto split: option.splits sum.splits)
  show ?thesis using g wire_sound [OF g(1)] by blast
qed

theorem wire_total_witness:
  "(\<exists>g. wire 2 app_mods 0 app_env None = Some (Inr g)) \<or>
   (\<exists>errors. wire 2 app_mods 0 app_env None = Some (Inl errors) \<and> errors \<noteq> [])"
proof -
  let ?C = "{canon (sample_identity ''Root''), canon (sample_identity ''Leaf'')}"
  have ids: "\<forall>m. canon (mm_identity (app_mods m)) \<in> ?C" by (simp add: app_mods_def)
  have "card ?C \<le> 2" by (simp add: card_insert_if)
  then show ?thesis using wire_total [of ?C app_mods 2 0 app_env None] ids by simp
qed

end
