(* ===== verification/Redact_Laws.thy ===== *)
theory Redact_Laws
  imports Redact
begin

text \<open>
  What redaction guarantees: every registered secret long enough to match is cut out of a text and nothing else
  changes, and neither a userinfo, nor a query or fragment reaches a URL reported as a setting.
\<close>

section \<open>Secrets are cut out\<close>

text \<open>The text kept between the cuts, with \<open>cuts\<close> between them.\<close>

fun interleave :: "string list \<Rightarrow> string list \<Rightarrow> string" where
  "interleave (k # ks) (c # cs) = k @ c @ interleave ks cs"
| "interleave ks [] = concat ks"
| "interleave [] cs = concat cs"

definition contains_text :: "string \<Rightarrow> string \<Rightarrow> bool" where
  "contains_text p s \<longleftrightarrow> (\<exists>before after. s = before @ p @ after)"

lemma split_text_None: "split_text p s = None \<longleftrightarrow> \<not> contains_text p s"
proof (induction s)
  case Nil
  then show ?case by (subst split_text.simps) (auto simp: contains_text_def strip_prefix_def)
next
  case (Cons c cs)
  have "contains_text p (c # cs) \<longleftrightarrow> strip_prefix p (c # cs) \<noteq> None \<or> contains_text p cs"
  proof
    assume "contains_text p (c # cs)"
    then obtain before after where s: "c # cs = before @ p @ after" by (auto simp: contains_text_def)
    show "strip_prefix p (c # cs) \<noteq> None \<or> contains_text p cs"
    proof (cases before)
      case Nil then show ?thesis using s by (simp add: strip_prefix_def)
    next
      case (Cons b bs) then show ?thesis using s by (auto simp: contains_text_def)
    qed
  next
    assume "strip_prefix p (c # cs) \<noteq> None \<or> contains_text p cs"
    then show "contains_text p (c # cs)"
    proof
      assume "strip_prefix p (c # cs) \<noteq> None"
      then obtain t where "c # cs = p @ t" by (auto simp: strip_prefix_Some)
      then show ?thesis unfolding contains_text_def by (metis append_Nil)
    next
      assume "contains_text p cs"
      then obtain before after where "cs = before @ p @ after" by (auto simp: contains_text_def)
      then have "c # cs = (c # before) @ p @ after" by simp
      then show ?thesis unfolding contains_text_def by blast
    qed
  qed
  then show ?case using Cons.IH by (subst split_text.simps) (auto split: option.splits)
qed

text \<open>The secret cut at each place is the longest that starts there.\<close>

fun longest_cuts :: "string list \<Rightarrow> string list \<Rightarrow> string list \<Rightarrow> bool" where
  "longest_cuts texts (k # ks) (c # cs) =
     ((\<forall>s \<in> set texts. min_matched \<le> length s \<and> strip_prefix s (c @ interleave ks cs) \<noteq> None \<longrightarrow> byte_len s \<le> byte_len c) \<and>
      longest_cuts texts ks cs)"
| "longest_cuts texts ks cs = True"

definition cut_out :: "string list \<Rightarrow> string \<Rightarrow> string list \<Rightarrow> string list \<Rightarrow> bool" where
  "cut_out texts text kept cuts \<longleftrightarrow>
     length kept = Suc (length cuts) \<and> text = interleave kept cuts \<and> longest_cuts texts kept cuts \<and>
     (\<forall>c \<in> set cuts. c \<in> set texts \<and> min_matched \<le> length c) \<and>
     (\<forall>k \<in> set kept. \<forall>s \<in> set texts. min_matched \<le> length s \<longrightarrow> \<not> contains_text s k)"

lemma find_map_sorted_first:
  assumes "sorted (map f xs)" "find_map (\<lambda>s. strip_prefix s msg) xs = Some after"
  shows "\<exists>s \<in> set xs. msg = s @ after \<and> (\<forall>t \<in> set xs. strip_prefix t msg \<noteq> None \<longrightarrow> f s \<le> f t)"
  using assms
proof (induction xs)
  case (Cons x xs)
  show ?case
  proof (cases "strip_prefix x msg")
    case None
    then have "find_map (\<lambda>s. strip_prefix s msg) xs = Some after" using Cons.prems(2) by simp
    with Cons.IH Cons.prems(1) None show ?thesis by auto
  next
    case (Some a)
    then have "msg = x @ after" using Cons.prems(2) Some by (auto simp: strip_prefix_Some [symmetric])
    then show ?thesis using Cons.prems(1) by auto
  qed
qed simp

lemma find_matched_longest:
  assumes "find_map (\<lambda>s. strip_prefix s msg) (matched_secrets texts) = Some after"
  obtains s where "s \<in> set texts" "4 \<le> length s" "msg = s @ after"
    "\<forall>t \<in> set texts. 4 \<le> length t \<and> strip_prefix t msg \<noteq> None \<longrightarrow> byte_len t \<le> byte_len s"
proof -
  have "sorted (map (\<lambda>s. - int (byte_len s)) (matched_secrets texts))" by (simp add: matched_secrets_def)
  from find_map_sorted_first [OF this assms] show ?thesis using that by auto
qed

lemma contains_text_Cons:
  assumes "contains_text s (c # k)"
  shows "contains_text s k \<or> (\<exists>t. c # k = s @ t)"
proof -
  obtain before after where b: "c # k = before @ s @ after" using assms by (auto simp: contains_text_def)
  show ?thesis
  proof (cases before)
    case Nil then show ?thesis using b by auto
  next
    case (Cons x xs) then show ?thesis using b by (auto simp: contains_text_def)
  qed
qed

lemma interleave_Cons: "interleave ((c # k) # ks) cuts = c # interleave (k # ks) cuts"
  by (cases cuts) simp_all

lemma interleave_head: "\<exists>t. interleave (k # ks) cuts = k @ t"
  by (cases cuts) auto

lemma longest_cuts_head: "longest_cuts texts ((c # k) # ks) cuts = longest_cuts texts (k # ks) cuts"
  by (cases cuts) simp_all

lemma replace_scan_parts:
  "\<exists>kept cuts. cut_out texts msg kept cuts \<and> replace_scan texts msg = interleave kept (replicate (length cuts) marker)"
proof (induction texts msg rule: replace_scan.induct)
  case (1 texts)
  have "cut_out texts [] [[]] []" by (auto simp: cut_out_def contains_text_def min_matched_def)
  then show ?case by (metis interleave.simps(2) concat.simps replicate_0 length_0_conv append_Nil2 replace_scan.simps(1))
next
  case (2 texts c cs)
  show ?case
  proof (cases "find_map (\<lambda>s. strip_prefix s (c # cs)) (matched_secrets texts)")
    case (Some after)
    obtain s where s: "s \<in> set texts" "4 \<le> length s" "c # cs = s @ after"
      "\<forall>t \<in> set texts. 4 \<le> length t \<and> strip_prefix t (c # cs) \<noteq> None \<longrightarrow> byte_len t \<le> byte_len s"
      by (rule find_matched_longest [OF Some])
    obtain kept cuts where ih: "cut_out texts after kept cuts"
      "replace_scan texts after = interleave kept (replicate (length cuts) marker)"
      using 2(2) [OF Some] by blast
    have "cut_out texts (c # cs) ([] # kept) (s # cuts)"
      using ih(1) s unfolding cut_out_def by (auto simp: contains_text_def min_matched_def)
    moreover have "replace_scan texts (c # cs) = interleave ([] # kept) (replicate (length (s # cuts)) marker)"
      using Some ih(2) by simp
    ultimately show ?thesis by blast
  next
    case None
    then have no: "\<forall>t. c # cs \<noteq> s @ t" if "s \<in> set texts" "4 \<le> length s" for s
      using that by (auto simp: find_map_None strip_prefix_Some [symmetric])
    obtain kept cuts where ih: "cut_out texts cs kept cuts"
      "replace_scan texts cs = interleave kept (replicate (length cuts) marker)"
      using 2(1) [OF None] by blast
    obtain k ks where k: "kept = k # ks" using ih(1) by (cases kept) (auto simp: cut_out_def)
    obtain t where t: "cs = k @ t" using ih(1) interleave_head k unfolding cut_out_def by metis
    have "\<not> contains_text s (c # k)" if s: "s \<in> set texts" "4 \<le> length s" for s
    proof
      assume "contains_text s (c # k)"
      then consider "contains_text s k" | u where "c # k = s @ u" using contains_text_Cons by blast
      then show False
      proof cases
        case 1 then show ?thesis using ih(1) k s by (auto simp: cut_out_def min_matched_def)
      next
        case 2 then have "c # cs = s @ (u @ t)" using t by simp
        then show ?thesis using no [OF s] by blast
      qed
    qed
    then have "cut_out texts (c # cs) ((c # k) # ks) cuts"
      using ih(1) k unfolding cut_out_def by (simp add: interleave_Cons longest_cuts_head min_matched_def)
    moreover have "replace_scan texts (c # cs) = interleave ((c # k) # ks) (replicate (length cuts) marker)"
      using None ih(2) k by (simp add: interleave_Cons)
    ultimately show ?thesis by blast
  qed
qed

text \<open>
  C18. Replacing the secrets of a graph in a text keeps everything but the secrets and leaves none of them behind:
  the result is the text with every secret it cut exchanged for the marker; each cut is a registered secret of
  at least four characters, the longest that starts there, so a secret containing another is cut whole; and no
  registered secret of four characters or more is left in what is kept between two cuts.
\<close>

theorem replace_secrets_cuts:
  "\<exists>kept cuts. cut_out texts msg kept cuts \<and>
     replace_secrets texts msg = interleave kept (replicate (length cuts) marker)"
proof (cases "matched_secrets texts = []")
  case True
  then have "\<forall>s \<in> set texts. \<not> 4 \<le> length s" using set_matched [of texts] by auto
  then have "cut_out texts msg [msg] []" by (auto simp: cut_out_def min_matched_def)
  moreover have "replace_secrets texts msg = interleave [msg] (replicate (length ([] :: string list)) marker)"
    using True by (simp add: replace_secrets_def)
  ultimately show ?thesis by blast
next
  case False then show ?thesis using replace_scan_parts [of texts msg] by (simp add: replace_secrets_def)
qed

section \<open>URLs\<close>

lemma rsplit_char_split: "c \<notin> set zs \<Longrightarrow> rsplit_char c (ys @ c # zs) = Some (ys, c # zs)"
proof -
  assume "c \<notin> set zs"
  then have "\<And>d. d \<in> set (rev zs) \<Longrightarrow> d \<noteq> c" by auto
  then have "dropWhile (\<lambda>d. d \<noteq> c) (rev zs @ c # rev ys) = dropWhile (\<lambda>d. d \<noteq> c) (c # rev ys)"
    "takeWhile (\<lambda>d. d \<noteq> c) (rev zs @ c # rev ys) = rev zs @ takeWhile (\<lambda>d. d \<noteq> c) (c # rev ys)"
    by (fact dropWhile_append2, fact takeWhile_append2)
  then show ?thesis by (simp add: rsplit_char_def)
qed

lemma rsplit_char_Some:
  assumes "rsplit_char c s = Some (before, rest)"
  obtains after where "rest = c # after" "s = before @ c # after" "c \<notin> set after"
proof -
  have "c \<in> set s" using assms by (simp add: rsplit_char_def split: if_splits)
  then obtain ys zs where "s = ys @ c # zs" "c \<notin> set zs" by (meson split_list_last)
  then show ?thesis using that [of zs] rsplit_char_split [of c zs ys] assms by simp
qed

lemma rsplit_char_None: "rsplit_char c s = None \<longleftrightarrow> c \<notin> set s"
  by (simp add: rsplit_char_def)

lemma rsplit_char_append: "rsplit_char c (user @ c # host) =
   (case rsplit_char c host of Some (before, rest) \<Rightarrow> Some (user @ c # before, rest) | None \<Rightarrow> Some (user, c # host))"
proof (cases "c \<in> set host")
  case True
  then obtain ys zs where "host = ys @ c # zs" "c \<notin> set zs" by (meson split_list_last)
  then show ?thesis using rsplit_char_split [of c zs ys] rsplit_char_split [of c zs "user @ c # ys"] by simp
next
  case False
  then show ?thesis using rsplit_char_split [of c host user] by (simp add: rsplit_char_None [THEN iffD2])
qed

lemma host_of_userinfo: "host_of (user @ CHR ''@'' # host) = host_of host"
  by (auto simp: host_of_def rsplit_char_append split: option.splits)

lemma host_of_no_at: "CHR ''@'' \<notin> set (host_of authority)"
  by (auto simp: host_of_def rsplit_char_None split: option.splits elim!: rsplit_char_Some)

lemma host_of_subset: "set (host_of authority) \<subseteq> set authority"
  by (auto simp: host_of_def split: option.splits elim!: rsplit_char_Some)

lemma is_scheme_chars: "is_scheme s \<Longrightarrow> c \<in> set s \<Longrightarrow> is_ascii_alnum c \<or> c \<in> {CHR ''+'', CHR ''-'', CHR ''.''}"
  by (cases s) (auto simp: is_ascii_letter_def is_ascii_alnum_def list_all_iff Let_def)

lemma split_scheme_parts:
  assumes "split_scheme url = (scheme, rest)"
  shows "url = scheme @ rest" "CHR ''@'' \<notin> set scheme"
proof -
  consider s where "split_text ''://'' url = Some (s, rest)" "is_scheme s" "scheme = s @ ''://''"
    | "take 2 url = ''//''" "scheme = ''//''" "rest = drop 2 url"
    | "scheme = []" "rest = url"
    using assms unfolding split_scheme_def by (auto split: option.splits if_splits)
  then have "url = scheme @ rest \<and> CHR ''@'' \<notin> set scheme"
  proof cases
    case 1
    then show ?thesis using is_scheme_chars [of s "CHR ''@''"] split_text_Some [OF 1(1)] by (auto simp: is_ascii_alnum_def)
  next
    case 2
    then show ?thesis using append_take_drop_id [of 2 url] by simp
  qed simp
  then show "url = scheme @ rest" "CHR ''@'' \<notin> set scheme" by blast+
qed

text \<open>
  C19. A URL reported as a setting holds no \<open>@\<close>, no \<open>?\<close> and no \<open>#\<close>: whatever the text, neither a userinfo nor
  a query nor a fragment is in what is reported.
\<close>

theorem setting_url_no_credentials:
  "set (setting_url url) \<inter> {CHR ''@'', CHR ''?'', CHR ''#''} = {}"
proof -
  let ?url = "before_query (clean_url url)"
  obtain scheme rest where p: "split_scheme ?url = (scheme, rest)" by (rule prod.exhaust)
  have "set ?url \<inter> {CHR ''?'', CHR ''#''} = {}" by (auto simp: before_query_def dest: set_takeWhileD)
  then have q: "set scheme \<inter> {CHR ''?'', CHR ''#''} = {}" "set rest \<inter> {CHR ''?'', CHR ''#''} = {}"
    using split_scheme_parts(1) [OF p] by (metis Int_Un_distrib2 Un_empty set_append)+
  have host: "set (host_of (takeWhile (\<lambda>c. c \<noteq> CHR ''/'') rest)) \<subseteq> set rest"
    using host_of_subset set_takeWhileD by fastforce
  have path: "set (dropWhile (\<lambda>c. c \<noteq> CHR ''/'') rest) \<subseteq> set rest" by (auto dest: set_dropWhileD)
  show ?thesis
    using q host path split_scheme_parts(2) [OF p] host_of_no_at [of "takeWhile (\<lambda>c. c \<noteq> CHR ''/'') rest"]
    by (auto simp: setting_url_def p Let_def)
qed

definition trim_end :: "string \<Rightarrow> string" where
  "trim_end s = rev (dropWhile (\<lambda>c. of_char c \<le> (32 :: nat)) (rev s))"

lemma trim_end_append: "32 < (of_char x :: nat) \<Longrightarrow> trim_end (a @ x # b) = a @ x # trim_end b"
proof -
  assume x: "32 < (of_char x :: nat)"
  have "dropWhile P (ys @ x # zs) = dropWhile P ys @ x # zs" if "\<not> P x" for P and ys zs :: string
    using that by (induction ys) auto
  from this [of "\<lambda>c. of_char c \<le> (32 :: nat)"] x show ?thesis by (simp add: trim_end_def)
qed

definition kept_char :: "char \<Rightarrow> bool" where
  "kept_char c = (of_char c \<notin> {9, 10, 13 :: nat})"

lemma clean_url_head:
  assumes "32 < (of_char c :: nat)"
  shows "clean_url (c # cs) = c # filter kept_char (trim_end cs)"
  using assms trim_end_append [of c "[]" cs]
  by (simp add: clean_url_def trim_controls_def trim_end_def kept_char_def [abs_def])

lemma scheme_visible: "is_scheme s \<Longrightarrow> c \<in> set s \<Longrightarrow> 32 < (of_char c :: nat) \<and> c \<notin> {CHR '':'', CHR ''/'', CHR ''?'', CHR ''#'', CHR ''@''}"
  using is_scheme_chars [of s c] by (auto simp: is_ascii_alnum_def Let_def)

lemma clean_url_scheme:
  assumes "is_scheme scheme"
  shows "clean_url (scheme @ ''://'' @ rest) = scheme @ ''://'' @ filter kept_char (trim_end rest)"
proof -
  obtain c cs where s: "scheme = c # cs" using assms by (cases scheme) auto
  have "kept_char d" if "d \<in> set cs" for d
    using scheme_visible [OF assms, of d] that s by (auto simp: kept_char_def)
  then have "filter kept_char cs = cs" by simp
  moreover have "trim_end (cs @ ''://'' @ rest) = cs @ ''://'' @ trim_end rest"
    using trim_end_append [of "CHR ''/''" "cs @ '':/''" rest] by simp
  ultimately show ?thesis using clean_url_head [of c "cs @ ''://'' @ rest"] scheme_visible [OF assms, of c] s
    by (simp add: kept_char_def)
qed

lemma split_text_scheme: "CHR '':'' \<notin> set a \<Longrightarrow> split_text ''://'' (a @ ''://'' @ x) = Some (a, x)"
proof (induction a)
  case Nil then show ?case by (subst split_text.simps) (simp add: strip_prefix_def)
next
  case (Cons c cs)
  then have "strip_prefix ''://'' ((c # cs) @ ''://'' @ x) = None" by (auto simp: strip_prefix_def)
  then show ?case using Cons by (subst split_text.simps) simp
qed

lemma setting_url_scheme:
  assumes "is_scheme scheme"
  shows "setting_url (scheme @ ''://'' @ rest) =
    (let rest = before_query (filter kept_char (trim_end rest));
         host = host_of (takeWhile (\<lambda>c. c \<noteq> CHR ''/'') rest);
         path = dropWhile (\<lambda>c. c \<noteq> CHR ''/'') rest
     in if port_of host \<noteq> None \<and> CHR ''@'' \<notin> set path then scheme @ ''://'' @ host @ path
        else scheme @ ''://[unreadable]'')"
proof -
  have "before_query (scheme @ ''://'' @ t) = scheme @ ''://'' @ before_query t" for t
    unfolding before_query_def using scheme_visible [OF assms] by (subst takeWhile_append2) auto
  moreover have "split_scheme (scheme @ ''://'' @ t) = (scheme @ ''://'', t)" for t
  proof -
    have "CHR '':'' \<notin> set scheme" using scheme_visible [OF assms] by blast
    from split_text_scheme [OF this, of t] show ?thesis unfolding split_scheme_def using assms by simp
  qed
  ultimately show ?thesis unfolding setting_url_def clean_url_scheme [OF assms] by (simp add: Let_def)
qed

text \<open>
  C20. Two URLs that differ in their userinfo alone are reported alike, so a credential neither shows in a
  report nor makes two settings compare different: a userinfo that holds none of the characters which end an
  authority has no influence on the reported text, whatever follows it.
\<close>

theorem setting_url_userinfo_free:
  assumes "is_scheme scheme" and "set user \<inter> {CHR ''/'', CHR ''?'', CHR ''#''} = {}"
  shows "setting_url (scheme @ ''://'' @ user @ ''@'' @ rest) = setting_url (scheme @ ''://'' @ rest)"
proof -
  let ?u = "filter kept_char user" and ?r = "before_query (filter kept_char (trim_end rest))"
  have "trim_end (user @ ''@'' @ rest) = user @ ''@'' @ trim_end rest"
    using trim_end_append [of "CHR ''@''" user rest] by simp
  moreover have "before_query (?u @ ''@'' @ t) = ?u @ ''@'' @ before_query t" for t
    unfolding before_query_def using assms(2) by (subst takeWhile_append2) auto
  ultimately have r: "before_query (filter kept_char (trim_end (user @ ''@'' @ rest))) = ?u @ CHR ''@'' # ?r"
    by (simp add: kept_char_def)
  have u: "\<And>c. c \<in> set ?u \<Longrightarrow> c \<noteq> CHR ''/''" using assms(2) by auto
  have "takeWhile (\<lambda>c. c \<noteq> CHR ''/'') (?u @ CHR ''@'' # ?r) = ?u @ CHR ''@'' # takeWhile (\<lambda>c. c \<noteq> CHR ''/'') ?r"
    "dropWhile (\<lambda>c. c \<noteq> CHR ''/'') (?u @ CHR ''@'' # ?r) = dropWhile (\<lambda>c. c \<noteq> CHR ''/'') ?r"
    using takeWhile_append2 [of ?u "\<lambda>c. c \<noteq> CHR ''/''" "CHR ''@'' # ?r"] dropWhile_append2 [of ?u "\<lambda>c. c \<noteq> CHR ''/''" "CHR ''@'' # ?r"] u
    by simp_all
  then show ?thesis unfolding setting_url_scheme [OF assms(1)] r by (simp add: Let_def host_of_userinfo)
qed

theorem setting_url_userinfo_free_witness:
  "setting_url ''redis://user:p@ss@cache:6379/2'' = setting_url ''redis://cache:6379/2''"
  using setting_url_userinfo_free [of "''redis''" "''user:p@ss''" "''cache:6379/2''"]
  by (simp add: is_ascii_letter_def is_ascii_alnum_def)

text \<open>
  C21. The userinfo strip keeps nothing of the userinfo: after \<open>scheme://\<close> an authority, a run of characters none of which
  is \<open>/\<close>, \<open>?\<close>, \<open>#\<close>, a quote, a backquote, an angle bracket or whitespace, is exchanged for the marker up to its last \<open>@\<close>, and the
  text from the character that ends the authority on is stripped in turn. A userinfo that holds one of those characters
  is outside the theorem; \<open>quoted_userinfo_kept\<close> shows that one with a quote is kept.
\<close>

theorem strip_userinfo_marks:
  assumes "split_text ''://'' msg = Some (before, user @ ''@'' @ host @ rest)"
    and "list_all (\<lambda>c. \<not> ends_authority c) (user @ host)" and "CHR ''@'' \<notin> set host"
    and "rest = [] \<or> ends_authority (hd rest)"
  shows "strip_userinfo msg = before @ ''://'' @ marker @ ''@'' @ host @ strip_userinfo rest"
proof -
  let ?a = "user @ CHR ''@'' # host" and ?P = "\<lambda>c. \<not> ends_authority c"
  have a: "\<And>c. c \<in> set ?a \<Longrightarrow> ?P c"
    using assms(2) by (auto simp: list_all_iff) (simp add: ends_authority_def is_whitespace_def)
  have "takeWhile ?P rest = []" "dropWhile ?P rest = rest" using assms(4) by (cases rest; simp)+
  then have "takeWhile ?P (?a @ rest) = ?a" "dropWhile ?P (?a @ rest) = rest"
    using takeWhile_append2 [of ?a ?P rest] dropWhile_append2 [of ?a ?P rest] a by simp_all
  moreover have "strip_authority ?a = marker @ CHR ''@'' # host"
    using rsplit_char_split [OF assms(3), of user] by (simp add: strip_authority_def)
  ultimately show ?thesis using assms(1) by (subst strip_userinfo.simps) simp
qed

theorem strip_userinfo_marks_witness:
  "strip_userinfo ''dial redis://user:pw@cache:6379/2 failed'' = ''dial redis://[redacted]@cache:6379/2 failed''"
proof -
  have "split_text ''://'' ''dial redis://user:pw@cache:6379/2 failed'' =
      Some (''dial redis'', ''user:pw'' @ ''@'' @ ''cache:6379'' @ ''/2 failed'')" by code_simp
  moreover have "list_all (\<lambda>c. \<not> ends_authority c) (''user:pw'' @ ''cache:6379'')" by code_simp
  moreover have "strip_userinfo ''/2 failed'' = ''/2 failed''" by code_simp
  ultimately show ?thesis
    using strip_userinfo_marks [of "''dial redis://user:pw@cache:6379/2 failed''" "''dial redis''" "''user:pw''" "''cache:6379''" "''/2 failed''"]
    by (simp add: ends_authority_def marker_def)
qed

text \<open>
  RFC 3986 allows a quote in a userinfo, but the strip ends the authority at one: the password is neither taken for a
  userinfo nor exchanged.
\<close>

definition quoted_userinfo :: string where
  "quoted_userinfo = ''redis://u:it'' @ [CHR 0x27] @ ''s@host''"

lemma quoted_userinfo_kept: "strip_userinfo quoted_userinfo = quoted_userinfo"
  by code_simp

end
