(* ===== verification/Prepare.thy ===== *)
theory Prepare
  imports Records
begin

text \<open>
  The failures a server's \<open>prepare\<close> collects (\<open>ulo-transport/src/prepare.rs\<close>, \<open>count.rs\<close>) and the report
  the core writes of every server's (\<open>ulo/src/error/configure.rs\<close>). A failure naming types holds its text as
  a function of the names written in full, which is known only once every server has answered. \<open>&str\<close> and
  \<open>String\<close> are byte strings.
\<close>

section \<open>What a prepare error lists\<close>

definition location_text :: "location \<Rightarrow> string" where
  "location_text location = (case location of (file, line, column) \<Rightarrow> file @ '':'' @ decimal line @ '':'' @ decimal column)"

datatype unreached = NoRoute | HealthOnly string | EmptyScope | RawGateway | BackslashSegment

fun unreached_text :: "unreached \<Rightarrow> string" where
  "unreached_text NoRoute = ''matches no route's path''"
| "unreached_text (HealthOnly service) =
     ''matches only `'' @ service @ ''`'s paths among those the server answers, and that health service runs no scoped entry, so the entry would never run''"
| "unreached_text EmptyScope = ''names no route pattern, so it covers no route''"
| "unreached_text RawGateway = ''reads every message raw, so the handler would never run''"
| "unreached_text BackslashSegment =
     ''holds a `'' @ [CHR 0x5C] @ ''`, raw or as `%5C`, and a request path holding one is refused with 400 before routing''"

record prepare_entry =
  pn_names :: "type_name list"
  pn_location :: "location option"
  pn_subject :: "string option"
  pn_scopes :: "string list"
  pn_reason :: "unreached option"

definition prepare_entry_new :: "type_name list \<Rightarrow> prepare_entry" where
  "prepare_entry_new names = \<lparr>pn_names = names, pn_location = None, pn_subject = None, pn_scopes = [], pn_reason = None\<rparr>"

definition entry_at :: "location \<Rightarrow> prepare_entry \<Rightarrow> prepare_entry" where
  "entry_at location e = e\<lparr>pn_location := Some location\<rparr>"

definition entry_about :: "string \<Rightarrow> prepare_entry \<Rightarrow> prepare_entry" where
  "entry_about subject e = e\<lparr>pn_subject := Some subject\<rparr>"

definition entry_scoped :: "string list \<Rightarrow> prepare_entry \<Rightarrow> prepare_entry" where
  "entry_scoped scopes e = e\<lparr>pn_scopes := scopes\<rparr>"

definition entry_because :: "unreached \<Rightarrow> prepare_entry \<Rightarrow> prepare_entry" where
  "entry_because reason e = e\<lparr>pn_reason := Some reason\<rparr>"

record prepare_error =
  pr_names :: "type_name list"
  pr_entries :: "prepare_entry list"
  pr_text :: "type_name set \<Rightarrow> string"
  pr_permanent :: bool

definition prepare_error_new :: "type_name list \<Rightarrow> (type_name set \<Rightarrow> string) \<Rightarrow> prepare_error" where
  "prepare_error_new names text = \<lparr>pr_names = names, pr_entries = [], pr_text = text, pr_permanent = False\<rparr>"

definition with_permanent :: "bool \<Rightarrow> prepare_error \<Rightarrow> prepare_error" where
  "with_permanent permanent e = e\<lparr>pr_permanent := permanent\<rparr>"

definition with_entries :: "prepare_entry list \<Rightarrow> prepare_error \<Rightarrow> prepare_error" where
  "with_entries entries e = e\<lparr>pr_entries := entries\<rparr>"

definition prepare_error_display :: "prepare_error \<Rightarrow> string" where
  "prepare_error_display e = pr_text e (colliding (pr_names e))"

text \<open>
  A \<open>BoxError\<close> is a \<open>PrepareError\<close> or any other error. The other carries, for itself and for each error down
  its \<open>source()\<close> chain, whether that is a \<open>Permanent\<close>.
\<close>

datatype boxed_error = Prepared prepare_error | OtherError outside_error "bool list"

definition carries_permanent :: "bool list \<Rightarrow> bool" where
  "carries_permanent links = (True \<in> set (take 32 links))"

section \<open>Failures\<close>

datatype failure_inner = PlainText string | NamingText "type_name list" "type_name set \<Rightarrow> string"

record failure =
  fl_inner :: failure_inner
  fl_location :: "location option"
  fl_subject :: "string option"
  fl_scopes :: "string list"
  fl_reason :: "unreached option"
  fl_nested :: "prepare_entry list"
  fl_permanent :: bool
  fl_link :: "string option"

definition failure_of :: "failure_inner \<Rightarrow> failure" where
  "failure_of inner =
     \<lparr>fl_inner = inner, fl_location = None, fl_subject = None, fl_scopes = [], fl_reason = None, fl_nested = [],
      fl_permanent = False, fl_link = None\<rparr>"

definition failure_plain :: "string \<Rightarrow> failure" where
  "failure_plain text = failure_of (PlainText text)"

definition failure_naming :: "type_name list \<Rightarrow> (type_name set \<Rightarrow> string) \<Rightarrow> failure" where
  "failure_naming names text = failure_of (NamingText names text)"

fun failure_from_error :: "boxed_error \<Rightarrow> failure" where
  "failure_from_error (Prepared prepared) =
     (failure_naming (pr_names prepared) (pr_text prepared))
       \<lparr>fl_nested := pr_entries prepared, fl_permanent := pr_permanent prepared\<rparr>"
| "failure_from_error (OtherError e links) = (failure_plain (oe_message e))\<lparr>fl_permanent := carries_permanent links\<rparr>"

definition failure_at :: "location \<Rightarrow> failure \<Rightarrow> failure" where
  "failure_at location f = f\<lparr>fl_location := Some location\<rparr>"

definition failure_in_link :: "string \<Rightarrow> failure \<Rightarrow> failure" where
  "failure_in_link link f = f\<lparr>fl_link := Some link\<rparr>"

definition failure_about :: "string \<Rightarrow> failure \<Rightarrow> failure" where
  "failure_about subject f = f\<lparr>fl_subject := Some subject\<rparr>"

definition failure_scoped :: "string list \<Rightarrow> failure \<Rightarrow> failure" where
  "failure_scoped scopes f = f\<lparr>fl_scopes := scopes\<rparr>"

definition failure_because :: "unreached \<Rightarrow> failure \<Rightarrow> failure" where
  "failure_because reason f = f\<lparr>fl_reason := Some reason\<rparr>"

definition failure_names :: "failure \<Rightarrow> type_name list" where
  "failure_names f = (case fl_inner f of PlainText _ \<Rightarrow> [] | NamingText names _ \<Rightarrow> names)"

definition failure_entries :: "failure \<Rightarrow> prepare_entry list" where
  "failure_entries f =
     (if fl_nested f \<noteq> [] then
        (case fl_link f of
           None \<Rightarrow> fl_nested f
         | Some link \<Rightarrow> map (\<lambda>e. case pn_subject e of Some _ \<Rightarrow> e | None \<Rightarrow> entry_about link e) (fl_nested f))
      else
        (let entry = entry_scoped (fl_scopes f) (prepare_entry_new (failure_names f));
             entry = (case fl_location f of Some location \<Rightarrow> entry_at location entry | None \<Rightarrow> entry);
             entry = (case (case fl_subject f of Some subject \<Rightarrow> Some subject | None \<Rightarrow> fl_link f) of
                        Some subject \<Rightarrow> entry_about subject entry | None \<Rightarrow> entry);
             entry = (case fl_reason f of Some reason \<Rightarrow> entry_because reason entry | None \<Rightarrow> entry)
         in [entry]))"

definition failure_text :: "type_name set \<Rightarrow> failure \<Rightarrow> string" where
  "failure_text full f =
     (let text = (case fl_inner f of PlainText text \<Rightarrow> text | NamingText _ text \<Rightarrow> text full)
      in case fl_link f of Some link \<Rightarrow> ''link `'' @ link @ ''`: '' @ text | None \<Rightarrow> text)"

definition push_error :: "boxed_error \<Rightarrow> failure list \<Rightarrow> failure list" where
  "push_error e failures = failures @ [failure_from_error e]"

definition push_link_error :: "string \<Rightarrow> boxed_error \<Rightarrow> failure list \<Rightarrow> failure list" where
  "push_link_error link e failures = failures @ [failure_in_link link (failure_from_error e)]"

definition failures_text :: "failure list \<Rightarrow> type_name set \<Rightarrow> string" where
  "failures_text failures full =
     (case failures of
        [] \<Rightarrow> ''prepare failed''
      | [f] \<Rightarrow> failure_text full f
      | _ \<Rightarrow> decimal (length failures) @ '' problems:'' @ concat (map (\<lambda>f. [CHR 0x0A] @ ''  - '' @ failure_text full f) failures))"

definition into_error :: "failure list \<Rightarrow> prepare_error" where
  "into_error failures =
     with_permanent (list_ex fl_permanent failures)
       (with_entries (concat (map failure_entries failures))
         (prepare_error_new (concat (map failure_names failures)) (failures_text failures)))"

definition into_result :: "failure list \<Rightarrow> boxed_error + unit" where
  "into_result failures = (if failures = [] then Inr () else Inl (Prepared (into_error failures)))"

text \<open>The refusals of a setting that would refuse everything it governs. A \<open>Duration\<close> is a number of nanoseconds.\<close>

datatype setting_count = CountDefault | CountMax nat | CountUnlimited

definition default_max_inflight :: nat where
  "default_max_inflight = 1024"

fun max_inflight :: "setting_count \<Rightarrow> nat option" where
  "max_inflight CountDefault = Some default_max_inflight"
| "max_inflight (CountMax calls) = Some calls"
| "max_inflight CountUnlimited = None"

definition zero_bound :: "string \<Rightarrow> bound \<Rightarrow> string \<Rightarrow> failure option" where
  "zero_bound setting b effect =
     (if b = B_After 0
      then Some (failure_plain (''`.'' @ setting @ ''(Bound::After(Duration::ZERO))` would '' @ effect @
        ''; write `Bound::Unbounded` to turn the timeout off''))
      else None)"

definition zero_count :: "string \<Rightarrow> setting_count \<Rightarrow> string \<Rightarrow> failure option" where
  "zero_count setting count effect =
     (if count = CountMax 0
      then Some (failure_plain (''`.'' @ setting @ ''(Count::Max(0))` would '' @ effect @ ''; write `Count::Unlimited` to remove the limit''))
      else None)"

section \<open>The report of every server\<close>

record configure_error =
  ce_transport :: type_name
  ce_source :: redacted
  ce_transport_full :: bool

definition boxed_outside :: "boxed_error \<Rightarrow> outside_error" where
  "boxed_outside e =
     (case e of Prepared p \<Rightarrow> \<lparr>oe_message = prepare_error_display p, oe_sources = []\<rparr> | OtherError o' _ \<Rightarrow> o')"

fun prepared_names :: "boxed_error \<Rightarrow> type_name list" where
  "prepared_names (Prepared p) = pr_names p"
| "prepared_names (OtherError _ _) = []"

definition report_names :: "(type_name \<times> boxed_error) list \<Rightarrow> type_name list" where
  "report_names refused = map fst refused @ concat (map (\<lambda>(_, e). prepared_names e) refused)"

definition configure_collect :: "string list \<Rightarrow> (type_name \<times> boxed_error) list \<Rightarrow> configure_error list" where
  "configure_collect secrets refused =
     (let full = colliding (report_names refused)
      in map (\<lambda>(transport, e).
           \<lparr>ce_transport = transport,
            ce_source = (case e of
                Prepared p \<Rightarrow> redact_as secrets (boxed_outside e) (pr_text p full)
              | OtherError _ _ \<Rightarrow> redact secrets (boxed_outside e)),
            ce_transport_full = (transport \<in> full)\<rparr>) refused)"

definition configure_error_display :: "configure_error \<Rightarrow> string" where
  "configure_error_display e =
     ''transport `'' @ (if ce_transport_full e then tn_full (ce_transport e) else tn_text (ce_transport e)) @ ''`: '' @ rc_text (ce_source e)"

definition configure_errors_display :: "configure_error list \<Rightarrow> string" where
  "configure_errors_display errors =
     ''error: configuration failed with '' @ decimal (length errors) @ '' '' @ (if length errors = 1 then ''error'' else ''errors'') @
     concat (map (\<lambda>e. [CHR 0x0A, CHR 0x0A] @ ''  '' @ [CHR 0xC3, CHR 0x97] @ '' '' @ configure_error_display e) errors)"

end
