(* ===== verification/Prepare_Laws.thy ===== *)
theory Prepare_Laws
  imports Prepare
begin

text \<open>
  How the startup report names types. Every server's failures are written against one set of names, so two
  types that print alike anywhere in the report print in full everywhere in it.
\<close>

section \<open>Names apart across servers\<close>

lemma report_names_in:
  assumes "(transport, Prepared (into_error failures)) \<in> set refused" "f \<in> set failures" "a \<in> set (failure_names f)"
  shows "a \<in> set (report_names refused)"
proof -
  have "a \<in> set (prepared_names (Prepared (into_error failures)))"
    using assms(2,3) by (auto simp: into_error_def with_permanent_def with_entries_def prepare_error_new_def)
  then show ?thesis using assms(1) by (force simp: report_names_def)
qed

lemma collect_text:
  assumes "(transport, Prepared (into_error failures)) \<in> set refused"
  shows "\<exists>e \<in> set (configure_collect secrets refused). ce_transport e = transport \<and>
    rc_text (ce_source e) = scrub secrets (failures_text failures (colliding (report_names refused)))"
  using assms by (force simp: configure_collect_def Let_def redact_as_def into_error_def with_permanent_def with_entries_def prepare_error_new_def)

text \<open>
  C31. The startup report writes two types apart wherever they are named. Take the failures two servers' \<open>prepare\<close>
  collected, and a type each of them names, with different paths. Both servers' entries of the report are
  written against one set of names, scrubbed of secrets, and under it the two types have different texts.
\<close>

theorem configure_report_apart:
  assumes "(t, Prepared (into_error fs)) \<in> set refused" "(u, Prepared (into_error gs)) \<in> set refused"
    "f \<in> set fs" "g \<in> set gs" "a \<in> set (failure_names f)" "b \<in> set (failure_names g)" "tn_full a \<noteq> tn_full b"
  shows "\<exists>full. written full a \<noteq> written full b \<and>
    (\<exists>e \<in> set (configure_collect secrets refused). ce_transport e = t \<and> rc_text (ce_source e) = scrub secrets (failures_text fs full)) \<and>
    (\<exists>e \<in> set (configure_collect secrets refused). ce_transport e = u \<and> rc_text (ce_source e) = scrub secrets (failures_text gs full))"
proof (intro exI conjI)
  show "written (colliding (report_names refused)) a \<noteq> written (colliding (report_names refused)) b"
    by (rule written_apart [OF report_names_in [OF assms(1,3,5)] report_names_in [OF assms(2,4,6)] assms(7)])
qed (use collect_text assms(1,2) in blast)+

definition user_failure :: "nat \<Rightarrow> string \<Rightarrow> failure" where
  "user_failure n path = failure_naming [\<lparr>tn_id = RustType n path\<rparr>] (\<lambda>full. ''`'' @ written full \<lparr>tn_id = RustType n path\<rparr> @ ''` is read'')"

theorem configure_report_apart_witness:
  "\<exists>full. written full \<lparr>tn_id = RustType 1 ''a::User''\<rparr> \<noteq> written full \<lparr>tn_id = RustType 2 ''b::User''\<rparr> \<and>
     list_ex (\<lambda>e. rc_text (ce_source e) = scrub [] (failures_text [user_failure 1 ''a::User''] full))
       (configure_collect [] [(\<lparr>tn_id = RustType 8 ''ulo_http::Http''\<rparr>, Prepared (into_error [user_failure 1 ''a::User''])),
          (\<lparr>tn_id = RustType 9 ''ulo_ws::Ws''\<rparr>, Prepared (into_error [user_failure 2 ''b::User'']))])"
proof -
  let ?refused = "[(\<lparr>tn_id = RustType 8 ''ulo_http::Http''\<rparr>, Prepared (into_error [user_failure 1 ''a::User''])),
          (\<lparr>tn_id = RustType 9 ''ulo_ws::Ws''\<rparr>, Prepared (into_error [user_failure 2 ''b::User'']))]"
  have "\<exists>full. written full \<lparr>tn_id = RustType 1 ''a::User''\<rparr> \<noteq> written full \<lparr>tn_id = RustType 2 ''b::User''\<rparr> \<and>
    (\<exists>e \<in> set (configure_collect [] ?refused). ce_transport e = \<lparr>tn_id = RustType 8 ''ulo_http::Http''\<rparr> \<and>
       rc_text (ce_source e) = scrub [] (failures_text [user_failure 1 ''a::User''] full)) \<and>
    (\<exists>e \<in> set (configure_collect [] ?refused). ce_transport e = \<lparr>tn_id = RustType 9 ''ulo_ws::Ws''\<rparr> \<and>
       rc_text (ce_source e) = scrub [] (failures_text [user_failure 2 ''b::User''] full))"
    by (rule configure_report_apart [where f = "user_failure 1 ''a::User''" and g = "user_failure 2 ''b::User''"])
      (auto simp: user_failure_def failure_naming_def failure_names_def failure_of_def)
  then show ?thesis by (auto simp: list_ex_iff)
qed

end
