(* ===== verification/Route_Pattern.thy ===== *)
theory Route_Pattern
  imports Keys "HOL-Library.List_Lexorder" "HOL-Library.Char_ord"
begin

text \<open>
  Route patterns, \<open>crates/ulo-http/src/router/pattern.rs\<close>: the grammar of a route and of a pre-dispatch
  scope, matching a request path, and the comparisons of a scope with a route that \<open>prepare\<close> makes. Text
  is a list of the Unicode code points below 256; a byte offset into a path, which the code takes only at
  a segment's start, is counted in characters. Percent-decoding is the crate \<open>percent_encoding\<close>: the
  argument \<open>pdec\<close> stands for \<open>percent_decode_str(..).decode_utf8_lossy()\<close>.
\<close>

section \<open>Segments and names\<close>

datatype segment = SegStatic string | SegParam string | SegRest string

record pattern =
  pt_raw :: string
  pt_segments :: "segment list"

record pattern_error =
  pe_pattern :: string
  pe_reason :: string

definition is_alphabetic :: "char \<Rightarrow> bool" where
  "is_alphabetic c = (let n = of_char c :: nat in
     65 \<le> n \<and> n \<le> 90 \<or> 97 \<le> n \<and> n \<le> 122 \<or> n \<in> {170, 181, 186} \<or> 192 \<le> n \<and> n \<noteq> 215 \<and> n \<noteq> 247)"

definition is_alphanumeric :: "char \<Rightarrow> bool" where
  "is_alphanumeric c = (let n = of_char c :: nat in
     is_alphabetic c \<or> 48 \<le> n \<and> n \<le> 57 \<or> n \<in> {178, 179, 185, 188, 189, 190})"

definition check_name :: "string \<Rightarrow> string + unit" where
  "check_name name =
     (case name of
        [] \<Rightarrow> Inl ''a parameter name is empty''
      | c # rest \<Rightarrow>
          if c \<noteq> CHR ''_'' \<and> \<not> is_alphabetic c then Inl ''a parameter name starts with `_` or a letter''
          else if list_ex (\<lambda>c. c \<noteq> CHR ''_'' \<and> \<not> is_alphanumeric c) rest
          then Inl ''a parameter name holds only `_`, letters and digits''
          else Inr ())"

definition named :: "string list \<Rightarrow> string \<Rightarrow> string + string list" where
  "named names name =
     (if name \<in> set names then Inl ''a parameter name appears twice'' else Inr (names @ [name]))"

section \<open>Decoding\<close>

definition is_encoded_slash :: "string \<Rightarrow> bool" where
  "is_encoded_slash w = (w = ''%2F'' \<or> w = ''%2f'')"

fun encoded_slash :: "string \<Rightarrow> nat option" where
  "encoded_slash [] = None"
| "encoded_slash (c # cs) =
     (if is_encoded_slash (take 3 (c # cs)) then Some 0 else map_option Suc (encoded_slash cs))"

lemma encoded_slash_Some:
  "encoded_slash s = Some i \<Longrightarrow> i < length s \<and> is_encoded_slash (take 3 (drop i s)) \<and> (\<forall>j < i. \<not> is_encoded_slash (take 3 (drop j s)))"
proof (induction s arbitrary: i)
  case (Cons c cs)
  show ?case
  proof (cases "is_encoded_slash (take 3 (c # cs))")
    case True with Cons.prems show ?thesis by auto
  next
    case False
    then obtain k where k: "encoded_slash cs = Some k" "i = Suc k" using Cons.prems by auto
    have "\<not> is_encoded_slash (take 3 (drop j (c # cs)))" if j: "j < i" for j
      using False Cons.IH [OF k(1)] k(2) j by (cases j) auto
    then show ?thesis using k Cons.IH [OF k(1)] by simp
  qed
qed simp

function (sequential) decode :: "(string \<Rightarrow> string) \<Rightarrow> string \<Rightarrow> string" where
  "decode pdec rest =
     (case encoded_slash rest of
        Some slash \<Rightarrow> pdec (take slash rest) @ take 3 (drop slash rest) @ decode pdec (drop (slash + 3) rest)
      | None \<Rightarrow> pdec rest)"
  by pat_completeness auto
termination
  by (relation "measure (\<lambda>(_, s). length s)") (auto dest!: encoded_slash_Some)

declare decode.simps [simp del]

definition static_matches :: "(string \<Rightarrow> string) \<Rightarrow> string \<Rightarrow> string \<Rightarrow> bool" where
  "static_matches pdec t piece = (t = piece \<or> CHR ''%'' \<in> set piece \<and> decode pdec piece = t)"

section \<open>Paths\<close>

definition normalize :: "string \<Rightarrow> string" where
  "normalize path =
     (case strip_suffix ''/'' path of
        Some stripped \<Rightarrow> if stripped \<noteq> [] then stripped else path
      | None \<Rightarrow> path)"

fun with_offsets :: "nat \<Rightarrow> string list \<Rightarrow> (nat \<times> string) list" where
  "with_offsets offset [] = []"
| "with_offsets offset (p # ps) = (offset, p) # with_offsets (offset + length p + 1) ps"

definition split_path :: "string \<Rightarrow> (nat \<times> string) list" where
  "split_path path =
     (case strip_prefix ''/'' path of
        None \<Rightarrow> [(0, path)]
      | Some rest \<Rightarrow> if rest = [] then [] else with_offsets 1 (split_on (CHR ''/'') rest))"

section \<open>Parsing\<close>

definition parse_piece :: "(string \<Rightarrow> string) \<Rightarrow> bool \<Rightarrow> bool \<Rightarrow> string list \<Rightarrow> string \<Rightarrow> string + segment \<times> string list" where
  "parse_piece pdec scope is_last names piece =
     (if piece = [] then Inl ''a segment between two `/` is empty''
      else if scope \<and> piece = ''*'' then
        (if \<not> is_last then Inl ''`*` is the last segment only'' else Inr (SegRest ''*'', names))
      else
        (case strip_prefix ''{'' piece of
           Some inner \<Rightarrow>
             (case strip_suffix ''}'' inner of
                None \<Rightarrow> Inl ''a `{` opens a segment that does not end with `}`''
              | Some inner \<Rightarrow>
                  (case strip_prefix ''*'' inner of
                     Some name \<Rightarrow>
                       (case check_name name of
                          Inl reason \<Rightarrow> Inl reason
                        | Inr _ \<Rightarrow>
                            if \<not> is_last then Inl ''`{*name}` is the last segment only''
                            else map_sum id (\<lambda>names. (SegRest name, names)) (named names name))
                   | None \<Rightarrow>
                       (case check_name inner of
                          Inl reason \<Rightarrow> Inl reason
                        | Inr _ \<Rightarrow> map_sum id (\<lambda>names. (SegParam inner, names)) (named names inner))))
         | None \<Rightarrow>
             if CHR ''{'' \<in> set piece \<or> CHR ''}'' \<in> set piece
             then Inl ''a brace appears outside a whole `{name}` segment''
             else Inr (SegStatic (decode pdec piece), names)))"

fun parse_pieces :: "(string \<Rightarrow> string) \<Rightarrow> bool \<Rightarrow> string list \<Rightarrow> string list \<Rightarrow> string + segment list" where
  "parse_pieces pdec scope names [] = Inr []"
| "parse_pieces pdec scope names (piece # pieces) =
     (case parse_piece pdec scope (pieces = []) names piece of
        Inl reason \<Rightarrow> Inl reason
      | Inr (seg, names) \<Rightarrow> map_sum id (\<lambda>segs. seg # segs) (parse_pieces pdec scope names pieces))"

definition parse_segments :: "(string \<Rightarrow> string) \<Rightarrow> string \<Rightarrow> bool \<Rightarrow> string + segment list" where
  "parse_segments pdec t scope =
     (if take 1 t \<noteq> ''/'' then Inl ''a pattern starts with `/`''
      else if normalize t = ''/'' then Inr []
      else parse_pieces pdec scope [] (split_on (CHR ''/'') (drop 1 (normalize t))))"

definition pattern_parse :: "(string \<Rightarrow> string) \<Rightarrow> string \<Rightarrow> pattern_error + pattern" where
  "pattern_parse pdec t =
     map_sum (\<lambda>reason. \<lparr>pe_pattern = t, pe_reason = reason\<rparr>) (\<lambda>segs. \<lparr>pt_raw = normalize t, pt_segments = segs\<rparr>)
       (parse_segments pdec t False)"

definition pattern_join :: "string \<Rightarrow> string \<Rightarrow> string" where
  "pattern_join prefix_text route =
     (let prefix_text = rev (dropWhile (\<lambda>c. c = CHR ''/'') (rev prefix_text));
          route = dropWhile (\<lambda>c. c = CHR ''/'') route;
          joined = (if take 1 prefix_text \<noteq> ''/'' then ''/'' @ prefix_text else prefix_text)
      in if route = [] then joined
         else (if joined \<noteq> [] \<and> last joined = CHR ''/'' then joined else joined @ ''/'') @ route)"

section \<open>Matching\<close>

type_synonym path_params = "(string \<times> string) list"

fun match_from :: "(string \<Rightarrow> string) \<Rightarrow> string \<Rightarrow> (nat \<times> string) list \<Rightarrow> nat \<Rightarrow> path_params \<Rightarrow> segment list \<Rightarrow> path_params option" where
  "match_from pdec path pieces index pairs [] = (if length pieces = index then Some pairs else None)"
| "match_from pdec path pieces index pairs (SegRest name # segs) =
     (case get_nth pieces index of
        None \<Rightarrow> None
      | Some (offset, piece) \<Rightarrow> if piece = [] then None else Some (pairs @ [(name, decode pdec (drop offset path))]))"
| "match_from pdec path pieces index pairs (SegStatic t # segs) =
     (case get_nth pieces index of
        None \<Rightarrow> None
      | Some (_, piece) \<Rightarrow>
          if \<not> static_matches pdec t piece then None else match_from pdec path pieces (Suc index) pairs segs)"
| "match_from pdec path pieces index pairs (SegParam name # segs) =
     (case get_nth pieces index of
        None \<Rightarrow> None
      | Some (_, piece) \<Rightarrow>
          if piece = [] then None
          else match_from pdec path pieces (Suc index) (pairs @ [(name, decode pdec piece)]) segs)"

definition match_split :: "(string \<Rightarrow> string) \<Rightarrow> pattern \<Rightarrow> string \<Rightarrow> (nat \<times> string) list \<Rightarrow> path_params option" where
  "match_split pdec p path pieces = match_from pdec path pieces 0 [] (pt_segments p)"

definition matches :: "(string \<Rightarrow> string) \<Rightarrow> pattern \<Rightarrow> string \<Rightarrow> path_params option" where
  "matches pdec p path = (let path = normalize path in match_split pdec p path (split_path path))"

fun same_position :: "segment \<Rightarrow> segment \<Rightarrow> bool" where
  "same_position (SegStatic a) (SegStatic b) = (a = b)"
| "same_position (SegParam _) (SegParam _) = True"
| "same_position (SegRest _) (SegRest _) = True"
| "same_position _ _ = False"

definition conflicts :: "pattern \<Rightarrow> pattern \<Rightarrow> bool" where
  "conflicts p q =
     (length (pt_segments p) = length (pt_segments q) \<and>
      list_all (\<lambda>(a, b). same_position a b) (zip (pt_segments p) (pt_segments q)))"

fun segment_rank :: "segment \<Rightarrow> nat" where
  "segment_rank (SegStatic _) = 0"
| "segment_rank (SegParam _) = 1"
| "segment_rank (SegRest _) = 2"

definition precedence :: "pattern \<Rightarrow> nat list" where
  "precedence p = map segment_rank (pt_segments p)"

fun segment_name :: "segment \<Rightarrow> string option" where
  "segment_name (SegParam name) = Some name"
| "segment_name (SegRest name) = Some name"
| "segment_name (SegStatic _) = None"

definition param_names :: "pattern \<Rightarrow> string list" where
  "param_names p = List.map_filter segment_name (pt_segments p)"

fun holds_backslash :: "segment \<Rightarrow> bool" where
  "holds_backslash (SegStatic t) = (CHR 0x5C \<in> set t)"
| "holds_backslash _ = False"

definition unreachable_segment :: "string \<Rightarrow> segment list \<Rightarrow> string option" where
  "unreachable_segment raw segs =
     (case position_of holds_backslash segs of
        None \<Rightarrow> None
      | Some index \<Rightarrow>
          (case strip_prefix ''/'' raw of
             None \<Rightarrow> None
           | Some rest \<Rightarrow> get_nth (split_on (CHR ''/'') rest) index))"

section \<open>Scopes and shapes\<close>

record scope_pattern =
  sp_raw :: string
  sp_segments :: "segment list"
  sp_wildcard :: bool

fun is_rest :: "segment \<Rightarrow> bool" where
  "is_rest (SegRest _) = True"
| "is_rest _ = False"

definition scope_parse :: "(string \<Rightarrow> string) \<Rightarrow> string \<Rightarrow> pattern_error + scope_pattern" where
  "scope_parse pdec t =
     map_sum (\<lambda>reason. \<lparr>pe_pattern = t, pe_reason = reason\<rparr>)
       (\<lambda>segs. let wildcard = (segs \<noteq> [] \<and> is_rest (last segs))
               in \<lparr>sp_raw = normalize t, sp_segments = (if wildcard then butlast segs else segs), sp_wildcard = wildcard\<rparr>)
       (parse_segments pdec t True)"

record shape =
  sh_fixed :: "segment list"
  sh_open :: bool

definition pattern_shape :: "pattern \<Rightarrow> shape" where
  "pattern_shape p =
     (if pt_segments p \<noteq> [] \<and> is_rest (last (pt_segments p))
      then \<lparr>sh_fixed = butlast (pt_segments p), sh_open = True\<rparr>
      else \<lparr>sh_fixed = pt_segments p, sh_open = False\<rparr>)"

definition scope_shape :: "scope_pattern \<Rightarrow> shape" where
  "scope_shape s = \<lparr>sh_fixed = sp_segments s, sh_open = sp_wildcard s\<rparr>"

fun segment_covers :: "segment \<Rightarrow> segment \<Rightarrow> bool" where
  "segment_covers (SegStatic a) (SegStatic b) = (a = b)"
| "segment_covers (SegParam _) _ = True"
| "segment_covers _ _ = False"

definition shape_contains :: "shape \<Rightarrow> shape \<Rightarrow> bool" where
  "shape_contains s other =
     (let mine = length (sh_fixed s); theirs = length (sh_fixed other);
          fits = (case (sh_open s, sh_open other) of
              (True, True) \<Rightarrow> mine \<le> theirs
            | (True, False) \<Rightarrow> mine < theirs
            | (False, False) \<Rightarrow> theirs = mine
            | (False, True) \<Rightarrow> False)
      in fits \<and> list_all (\<lambda>(a, b). segment_covers a b) (zip (sh_fixed s) (sh_fixed other)))"

fun segments_meet :: "segment \<Rightarrow> segment \<Rightarrow> bool" where
  "segments_meet (SegStatic a) (SegStatic b) = (a = b)"
| "segments_meet _ _ = True"

definition shape_overlaps :: "shape \<Rightarrow> shape \<Rightarrow> bool" where
  "shape_overlaps s other =
     (let mine = length (sh_fixed s); theirs = length (sh_fixed other);
          fits = (case (sh_open s, sh_open other) of
              (True, True) \<Rightarrow> True
            | (True, False) \<Rightarrow> mine < theirs
            | (False, True) \<Rightarrow> theirs < mine
            | (False, False) \<Rightarrow> theirs = mine)
      in fits \<and> list_all (\<lambda>(a, b). segments_meet a b) (zip (sh_fixed s) (sh_fixed other)))"

fun narrower :: "segment option \<Rightarrow> segment \<Rightarrow> segment" where
  "narrower (Some (SegStatic t)) seg = SegStatic t"
| "narrower _ seg = seg"

definition shape_intersection :: "shape \<Rightarrow> shape \<Rightarrow> shape option" where
  "shape_intersection s other =
     (if \<not> shape_overlaps s other then None
      else
        (let (long, short) = (if length (sh_fixed other) \<le> length (sh_fixed s)
                              then (sh_fixed s, sh_fixed other) else (sh_fixed other, sh_fixed s))
         in Some \<lparr>sh_fixed = map (\<lambda>(index, seg). narrower (get_nth short index) seg) (List.enumerate 0 long),
                  sh_open = (sh_open s \<and> sh_open other)\<rparr>))"

definition scope_covers :: "scope_pattern \<Rightarrow> pattern \<Rightarrow> bool" where
  "scope_covers s p = shape_contains (scope_shape s) (pattern_shape p)"

definition scope_overlaps :: "scope_pattern \<Rightarrow> pattern \<Rightarrow> bool" where
  "scope_overlaps s p = shape_overlaps (scope_shape s) (pattern_shape p)"

definition scope_contains :: "scope_pattern \<Rightarrow> scope_pattern \<Rightarrow> bool" where
  "scope_contains s other = shape_contains (scope_shape s) (scope_shape other)"

definition shared_with :: "scope_pattern \<Rightarrow> pattern \<Rightarrow> shape option" where
  "shared_with s p = shape_intersection (scope_shape s) (pattern_shape p)"

definition pattern_contains :: "pattern \<Rightarrow> shape \<Rightarrow> bool" where
  "pattern_contains p shared = shape_contains (pattern_shape p) shared"

fun segment_takes :: "(string \<Rightarrow> string) \<Rightarrow> segment \<Rightarrow> string \<Rightarrow> bool" where
  "segment_takes pdec (SegStatic t) piece = static_matches pdec t piece"
| "segment_takes pdec (SegParam _) piece = (piece \<noteq> [])"
| "segment_takes pdec (SegRest _) piece = False"

definition covers_path :: "(string \<Rightarrow> string) \<Rightarrow> scope_pattern \<Rightarrow> string \<Rightarrow> bool" where
  "covers_path pdec s path =
     (let pieces = split_path (normalize path);
          fits = (if sp_wildcard s then length (sp_segments s) < length pieces else length pieces = length (sp_segments s))
      in fits \<and> list_all (\<lambda>(seg, piece). segment_takes pdec seg (snd piece)) (zip (sp_segments s) pieces))"

section \<open>Paths refused before routing\<close>

fun after_dot :: "string \<Rightarrow> string option" where
  "after_dot (c # cs) =
     (if c = CHR ''.'' then Some cs
      else if c = CHR ''%'' \<and> (take 2 cs = ''2e'' \<or> take 2 cs = ''2E'') then Some (drop 2 cs)
      else None)"
| "after_dot [] = None"

lemma after_dot_shorter: "after_dot s = Some t \<Longrightarrow> length t < length s"
  by (cases s) (auto split: if_splits)

function (sequential) dots_from :: "nat \<Rightarrow> string \<Rightarrow> bool" where
  "dots_from dots [] = (0 < dots)"
| "dots_from dots (c # cs) =
     (case after_dot (c # cs) of
        None \<Rightarrow> False
      | Some rest \<Rightarrow> if 2 < dots + 1 then False else dots_from (dots + 1) rest)"
  by pat_completeness auto
termination
  by (relation "measure (\<lambda>(_, s). length s)") (auto simp del: after_dot.simps dest!: after_dot_shorter)

definition is_dot_segment :: "string \<Rightarrow> bool" where
  "is_dot_segment seg = dots_from 0 seg"

definition has_dot_segment :: "string \<Rightarrow> bool" where
  "has_dot_segment path = list_ex is_dot_segment (split_on (CHR ''/'') path)"

fun has_encoded_backslash :: "string \<Rightarrow> bool" where
  "has_encoded_backslash [] = False"
| "has_encoded_backslash (c # cs) =
     (take 3 (c # cs) = ''%5C'' \<or> take 3 (c # cs) = ''%5c'' \<or> has_encoded_backslash cs)"

definition has_backslash :: "string \<Rightarrow> bool" where
  "has_backslash path = (CHR 0x5C \<in> set path \<or> has_encoded_backslash path)"

end
