(* ===== verification/Cors.thy ===== *)
theory Cors
  imports Ulo_Prelude
begin

text \<open>
  The CORS middleware (\<open>ulo-http/src/cors.rs\<close>). The header map and the header value of the \<open>http\<close> crate are a
  parameter, a record of the operations the code calls; \<open>header_laws\<close> states what they do. A header name and
  a method are their text. A body is the bytes it yields, a \<open>Duration\<close> its nanoseconds, and \<open>next\<close> is the rest of the stage as a function.
\<close>

section \<open>Headers, requests and responses\<close>

record 'h header_ops =
  hm_empty :: 'h
  hm_get :: "'h \<Rightarrow> string \<Rightarrow> string option"
  hm_get_all :: "'h \<Rightarrow> string \<Rightarrow> string list"
  hm_insert :: "string \<Rightarrow> string \<Rightarrow> 'h \<Rightarrow> 'h"
  hm_append :: "string \<Rightarrow> string \<Rightarrow> 'h \<Rightarrow> 'h"
  hv_from_str :: "string \<Rightarrow> string option"
  hv_to_str :: "string \<Rightarrow> string option"

record 'h request =
  rq_method :: string
  rq_path :: string
  rq_headers :: 'h
  rq_body :: string

record 'h response =
  rs_status :: nat
  rs_headers :: 'h
  rs_body :: string

text \<open>
  \<open>insert\<close> replaces every value of a name, \<open>append\<close> adds one after them and \<open>get\<close> reads the first. A header
  value is made of visible ASCII text, and reads back as that text; nothing is said of any other text.
\<close>

definition visible :: "string \<Rightarrow> bool" where
  "visible s = list_all (\<lambda>c. 32 \<le> (of_char c :: nat) \<and> of_char c < (127 :: nat)) s"

definition header_laws :: "'h header_ops \<Rightarrow> bool" where
  "header_laws ops \<longleftrightarrow>
     (\<forall>n. hm_get_all ops (hm_empty ops) n = []) \<and>
     (\<forall>h n. hm_get ops h n = (case hm_get_all ops h n of [] \<Rightarrow> None | v # _ \<Rightarrow> Some v)) \<and>
     (\<forall>h n v m. hm_get_all ops (hm_insert ops n v h) m = (if m = n then [v] else hm_get_all ops h m)) \<and>
     (\<forall>h n v m. hm_get_all ops (hm_append ops n v h) m = (if m = n then hm_get_all ops h m @ [v] else hm_get_all ops h m)) \<and>
     (\<forall>s. visible s \<longrightarrow> hv_from_str ops s = Some s \<and> hv_to_str ops s = Some s)"

section \<open>The configuration\<close>

datatype origins = OriginsNone | OriginsList "string list" | OriginsAny

datatype allow_headers = HeadersNone | HeadersList "string list" | HeadersAny

record cors =
  co_origins :: origins
  co_methods :: "string list"
  co_headers :: allow_headers
  co_expose :: "string list"
  co_credentials :: bool
  co_max_age :: "nat option"

definition cors_new :: cors where
  "cors_new = \<lparr>co_origins = OriginsNone, co_methods = [], co_headers = HeadersNone, co_expose = [], co_credentials = False,
     co_max_age = None\<rparr>"

definition allow_origin :: "string \<Rightarrow> cors \<Rightarrow> cors" where
  "allow_origin origin c =
     c\<lparr>co_origins := (case co_origins c of OriginsList list \<Rightarrow> OriginsList (list @ [origin]) | _ \<Rightarrow> OriginsList [origin])\<rparr>"

definition allow_any_origin :: "cors \<Rightarrow> cors" where
  "allow_any_origin c = c\<lparr>co_origins := OriginsAny\<rparr>"

definition allow_methods :: "string list \<Rightarrow> cors \<Rightarrow> cors" where
  "allow_methods methods c = c\<lparr>co_methods := co_methods c @ methods\<rparr>"

definition allow_headers_list :: "string list \<Rightarrow> cors \<Rightarrow> cors" where
  "allow_headers_list headers c = c\<lparr>co_headers := HeadersList headers\<rparr>"

definition allow_any_header :: "cors \<Rightarrow> cors" where
  "allow_any_header c = c\<lparr>co_headers := HeadersAny\<rparr>"

definition expose_headers :: "string list \<Rightarrow> cors \<Rightarrow> cors" where
  "expose_headers headers c = c\<lparr>co_expose := co_expose c @ headers\<rparr>"

definition allow_credentials :: "bool \<Rightarrow> cors \<Rightarrow> cors" where
  "allow_credentials allow c = c\<lparr>co_credentials := allow\<rparr>"

definition cors_max_age :: "nat \<Rightarrow> cors \<Rightarrow> cors" where
  "cors_max_age age c = c\<lparr>co_max_age := Some age\<rparr>"

definition cors_check :: "cors \<Rightarrow> string + unit" where
  "cors_check c =
     (if co_credentials c \<and> co_origins c = OriginsAny
      then Inl ''invalid CORS configuration: `*` as the allowed origin cannot be combined with credentials''
      else Inr ())"

section \<open>The headers of a response\<close>

definition allowed_origin :: "cors \<Rightarrow> string \<Rightarrow> string option" where
  "allowed_origin c origin =
     (case co_origins c of
        OriginsNone \<Rightarrow> None
      | OriginsAny \<Rightarrow> if co_credentials c then None else Some ''*''
      | OriginsList list \<Rightarrow> if list_ex (\<lambda>allowed. allowed = origin) list then Some origin else None)"

fun join_comma :: "string list \<Rightarrow> string" where
  "join_comma [] = []"
| "join_comma [item] = item"
| "join_comma (item # items) = item @ '', '' @ join_comma items"

definition header_list :: "'h header_ops \<Rightarrow> string list \<Rightarrow> string option" where
  "header_list ops items = (let joined = join_comma items in if joined = [] then None else hv_from_str ops joined)"

definition trim_spaces :: "string \<Rightarrow> string" where
  "trim_spaces s =
     (let blank = (\<lambda>c. c = CHR '' '' \<or> 9 \<le> (of_char c :: nat) \<and> of_char c \<le> (13 :: nat))
      in rev (dropWhile blank (rev (dropWhile blank s))))"

definition ascii_lower :: "char \<Rightarrow> char" where
  "ascii_lower c = (let n = of_char c :: nat in if 65 \<le> n \<and> n \<le> 90 then char_of (n + 32) else c)"

definition vary_lists :: "string \<Rightarrow> string \<Rightarrow> bool" where
  "vary_lists name v =
     list_ex (\<lambda>item. trim_spaces item = ''*'' \<or> map ascii_lower (trim_spaces item) = map ascii_lower name) (split_on (CHR '','') v)"

definition vary :: "'h header_ops \<Rightarrow> string \<Rightarrow> 'h \<Rightarrow> 'h" where
  "vary ops name headers =
     (if list_ex (vary_lists name) (List.map_filter (hv_to_str ops) (hm_get_all ops headers ''vary'')) then headers
      else (case hv_from_str ops name of Some v \<Rightarrow> hm_append ops ''vary'' v headers | None \<Rightarrow> headers))"

definition insert_some :: "'h header_ops \<Rightarrow> string \<Rightarrow> string option \<Rightarrow> 'h \<Rightarrow> 'h" where
  "insert_some ops name v headers = (case v of Some v \<Rightarrow> hm_insert ops name v headers | None \<Rightarrow> headers)"

definition preflight :: "'h header_ops \<Rightarrow> cors \<Rightarrow> 'h request \<Rightarrow> 'h response" where
  "preflight ops c req =
     (let headers = fold (vary ops) [''origin'', ''access-control-request-method'', ''access-control-request-headers''] (hm_empty ops);
          answer = (\<lambda>headers. \<lparr>rs_status = 204, rs_headers = headers, rs_body = []\<rparr>)
      in case Option.bind (hm_get ops (rq_headers req) ''origin'') (allowed_origin c) of
           None \<Rightarrow> answer headers
         | Some allow \<Rightarrow>
             (let headers = hm_insert ops ''access-control-allow-origin'' allow headers;
                  headers = (if co_credentials c then hm_insert ops ''access-control-allow-credentials'' ''true'' headers else headers);
                  headers = insert_some ops ''access-control-allow-methods'' (header_list ops (co_methods c)) headers;
                  allowed = (case co_headers c of
                      HeadersNone \<Rightarrow> None
                    | HeadersList names \<Rightarrow> header_list ops names
                    | HeadersAny \<Rightarrow> hm_get ops (rq_headers req) ''access-control-request-headers'');
                  headers = insert_some ops ''access-control-allow-headers'' allowed headers;
                  headers = insert_some ops ''access-control-max-age'' (map_option (\<lambda>age. decimal (age div 10 ^ 9)) (co_max_age c)) headers
              in answer headers))"

definition decorate :: "'h header_ops \<Rightarrow> cors \<Rightarrow> string option \<Rightarrow> 'h \<Rightarrow> 'h" where
  "decorate ops c origin headers =
     (let headers = vary ops ''origin'' headers
      in case Option.bind origin (allowed_origin c) of
           None \<Rightarrow> headers
         | Some allow \<Rightarrow>
             (let headers = hm_insert ops ''access-control-allow-origin'' allow headers;
                  headers = (if co_credentials c then hm_insert ops ''access-control-allow-credentials'' ''true'' headers else headers)
              in insert_some ops ''access-control-expose-headers'' (header_list ops (co_expose c)) headers))"

definition is_preflight :: "'h header_ops \<Rightarrow> 'h request \<Rightarrow> bool" where
  "is_preflight ops req \<longleftrightarrow>
     rq_method req = ''OPTIONS'' \<and> hm_get ops (rq_headers req) ''origin'' \<noteq> None \<and>
     hm_get ops (rq_headers req) ''access-control-request-method'' \<noteq> None"

definition cors_handle ::
    "'h header_ops \<Rightarrow> cors \<Rightarrow> 'h request \<Rightarrow> ('h request \<Rightarrow> 'e + 'h response) \<Rightarrow> 'e + 'h response" where
  "cors_handle ops c req next_run =
     (if is_preflight ops req then Inr (preflight ops c req)
      else map_sum id (\<lambda>response. response\<lparr>rs_headers := decorate ops c (hm_get ops (rq_headers req) ''origin'') (rs_headers response)\<rparr>)
             (next_run req))"

section \<open>What a browser is told\<close>

lemma header_laws_simps:
  assumes "header_laws ops"
  shows "hm_get_all ops (hm_empty ops) n = []"
    "hm_get ops h n = (case hm_get_all ops h n of [] \<Rightarrow> None | v # _ \<Rightarrow> Some v)"
    "hm_get_all ops (hm_insert ops n v h) m = (if m = n then [v] else hm_get_all ops h m)"
    "hm_get_all ops (hm_append ops n v h) m = (if m = n then hm_get_all ops h m @ [v] else hm_get_all ops h m)"
    "visible s \<Longrightarrow> hv_from_str ops s = Some s \<and> hv_to_str ops s = Some s"
  using assms unfolding header_laws_def by blast+

lemma vary_other: "header_laws ops \<Longrightarrow> n \<noteq> ''vary'' \<Longrightarrow> hm_get_all ops (vary ops name h) n = hm_get_all ops h n"
  by (auto simp: vary_def header_laws_simps(4) split: option.splits)

lemma insert_some_other: "header_laws ops \<Longrightarrow> n \<noteq> m \<Longrightarrow> hm_get_all ops (insert_some ops m v h) n = hm_get_all ops h n"
  by (auto simp: insert_some_def header_laws_simps(3) split: option.splits)

lemma allowed_origin_Some:
  "allowed_origin c origin = Some v \<longleftrightarrow>
     (v = ''*'' \<and> co_origins c = OriginsAny \<and> \<not> co_credentials c) \<or> (v = origin \<and> (\<exists>list. co_origins c = OriginsList list \<and> origin \<in> set list))"
  by (auto simp: allowed_origin_def list_ex_iff split: origins.splits if_splits)

definition varies_on :: "'h header_ops \<Rightarrow> string \<Rightarrow> 'h \<Rightarrow> bool" where
  "varies_on ops name h = list_ex (vary_lists name) (List.map_filter (hv_to_str ops) (hm_get_all ops h ''vary''))"

lemma vary_varies:
  assumes "header_laws ops" "visible name" "vary_lists name name"
  shows "varies_on ops name (vary ops name h)"
  using assms header_laws_simps(5) [OF assms(1,2)]
  by (auto simp: varies_on_def vary_def header_laws_simps(4) [OF assms(1)] map_filter_def)

lemma vary_keeps:
  assumes "header_laws ops" "varies_on ops m h"
  shows "varies_on ops m (vary ops name h)"
  using assms by (auto simp: varies_on_def vary_def header_laws_simps(4) map_filter_def split: option.splits)

definition told :: "'h header_ops \<Rightarrow> cors \<Rightarrow> string option \<Rightarrow> 'h \<Rightarrow> bool" where
  "told ops c origin h \<longleftrightarrow>
     hm_get ops h ''access-control-allow-origin'' = Option.bind origin (allowed_origin c) \<and>
     hm_get ops h ''access-control-allow-credentials'' =
       (if Option.bind origin (allowed_origin c) \<noteq> None \<and> co_credentials c then Some ''true'' else None) \<and>
     varies_on ops ''origin'' h"

lemma varies_insert: "header_laws ops \<Longrightarrow> n \<noteq> ''vary'' \<Longrightarrow> varies_on ops m (hm_insert ops n v h) = varies_on ops m h"
  by (simp add: varies_on_def header_laws_simps(3))

lemma varies_insert_some: "header_laws ops \<Longrightarrow> n \<noteq> ''vary'' \<Longrightarrow> varies_on ops m (insert_some ops n v h) = varies_on ops m h"
  by (simp add: varies_on_def insert_some_other)

lemma decorate_told:
  assumes "header_laws ops" "hm_get_all ops h ''access-control-allow-origin'' = []" "hm_get_all ops h ''access-control-allow-credentials'' = []"
  shows "told ops c origin (decorate ops c origin h)"
proof -
  have "visible ''origin''" "vary_lists ''origin'' ''origin''" by code_simp+
  note varies = vary_varies [OF assms(1) this]
  show ?thesis using assms varies
    by (cases "Option.bind origin (allowed_origin c)")
      (auto simp: told_def decorate_def Let_def header_laws_simps(2,3) vary_other insert_some_other varies_insert varies_insert_some)
qed

lemma preflight_told:
  assumes "header_laws ops"
  shows "told ops c (hm_get ops (rq_headers req) ''origin'') (rs_headers (preflight ops c req))"
proof -
  let ?vary = "vary ops ''access-control-request-headers'' (vary ops ''access-control-request-method'' (vary ops ''origin'' (hm_empty ops)))"
  have "visible ''origin''" "vary_lists ''origin'' ''origin''" by code_simp+
  then have varies: "varies_on ops ''origin'' ?vary" by (intro vary_keeps vary_varies assms)
  have get: "hm_get_all ops (rs_headers (preflight ops c req)) n =
      (if n = ''access-control-allow-origin'' then (case Option.bind (hm_get ops (rq_headers req) ''origin'') (allowed_origin c) of None \<Rightarrow> [] | Some v \<Rightarrow> [v])
       else if n = ''vary'' then hm_get_all ops ?vary n
       else if Option.bind (hm_get ops (rq_headers req) ''origin'') (allowed_origin c) \<noteq> None \<and> co_credentials c then [''true''] else [])"
    if "n \<in> {''access-control-allow-origin'', ''vary'', ''access-control-allow-credentials''}" for n
    using that assms by (cases "Option.bind (hm_get ops (rq_headers req) ''origin'') (allowed_origin c)")
      (auto simp: preflight_def Let_def vary_other insert_some_other header_laws_simps(1,3))
  show ?thesis
  proof -
    have "varies_on ops ''origin'' (rs_headers (preflight ops c req))" using varies unfolding varies_on_def by (subst get) auto
    moreover have "hm_get ops (rs_headers (preflight ops c req)) ''access-control-allow-origin'' =
        Option.bind (hm_get ops (rq_headers req) ''origin'') (allowed_origin c)"
      unfolding header_laws_simps(2) [OF assms, of "rs_headers (preflight ops c req)"] by (subst get) (auto split: option.splits)
    moreover have "hm_get ops (rs_headers (preflight ops c req)) ''access-control-allow-credentials'' =
       (if Option.bind (hm_get ops (rq_headers req) ''origin'') (allowed_origin c) \<noteq> None \<and> co_credentials c then Some ''true'' else None)"
      unfolding header_laws_simps(2) [OF assms, of "rs_headers (preflight ops c req)"] by (subst get) auto
    ultimately show ?thesis by (simp add: told_def)
  qed
qed

text \<open>
  C24. The origin a CORS response allows. Whatever the request and the configuration, when the rest of the stage
  sets neither the allowed origin nor the credentials header itself, a response of \<open>Cors::handle\<close> allows an origin
  only when the configuration lists the request's own or allows any. It allows \<open>*\<close> with no credentials header, and
  it varies on \<open>Origin\<close>.
\<close>

theorem cors_handle_safe:
  fixes next_run :: "'h request \<Rightarrow> 'e + 'h response"
  assumes "header_laws ops" "cors_handle ops c req next_run = Inr response"
    "\<And>inner n. next_run req = Inr inner \<Longrightarrow> n \<in> {''access-control-allow-origin'', ''access-control-allow-credentials''} \<Longrightarrow>
       hm_get_all ops (rs_headers inner) n = []"
  shows "varies_on ops ''origin'' (rs_headers response) \<and>
    (case hm_get ops (rs_headers response) ''access-control-allow-origin'' of
       None \<Rightarrow> hm_get ops (rs_headers response) ''access-control-allow-credentials'' = None
     | Some v \<Rightarrow>
         (v = ''*'' \<and> co_origins c = OriginsAny \<and> hm_get ops (rs_headers response) ''access-control-allow-credentials'' = None) \<or>
         (hm_get ops (rq_headers req) ''origin'' = Some v \<and> (\<exists>list. co_origins c = OriginsList list \<and> v \<in> set list)))"
proof -
  have "told ops c (hm_get ops (rq_headers req) ''origin'') (rs_headers response)"
  proof (cases "is_preflight ops req")
    case True then show ?thesis using assms(2) preflight_told [OF assms(1)] by (auto simp: cors_handle_def)
  next
    case False
    then obtain inner where "next_run req = Inr inner"
      "rs_headers response = decorate ops c (hm_get ops (rq_headers req) ''origin'') (rs_headers inner)"
      using assms(2) by (cases "next_run req") (auto simp: cors_handle_def)
    then show ?thesis using decorate_told [OF assms(1)] assms(3) by simp
  qed
  then show ?thesis
    by (auto simp: told_def allowed_origin_Some bind_eq_Some_conv split: option.splits)
qed

text \<open>A header map kept as the list of its lines meets the laws.\<close>

definition line_headers :: "(string \<times> string) list header_ops" where
  "line_headers =
     (let all = (\<lambda>h n. map snd (filter (\<lambda>l. fst l = n) h))
      in \<lparr>hm_empty = [], hm_get = (\<lambda>h n. case all h n of [] \<Rightarrow> None | v # _ \<Rightarrow> Some v), hm_get_all = all,
          hm_insert = (\<lambda>n v h. filter (\<lambda>l. fst l \<noteq> n) h @ [(n, v)]), hm_append = (\<lambda>n v h. h @ [(n, v)]),
          hv_from_str = (\<lambda>s. if visible s then Some s else None), hv_to_str = (\<lambda>s. if visible s then Some s else None)\<rparr>)"

lemma line_headers_laws: "header_laws line_headers"
proof -
  have "filter (\<lambda>l. fst l = m) (filter (\<lambda>l. fst l \<noteq> n) h) = (if m = n then [] else filter (\<lambda>l. fst l = m) h)"
    for m n :: string and h :: "(string \<times> string) list" by (auto simp: filter_empty_conv intro: filter_cong)
  then show ?thesis by (simp add: header_laws_def line_headers_def)
qed

theorem cors_handle_safe_witness:
  "hm_get line_headers (rs_headers
     (projr (cors_handle line_headers (allow_credentials True (allow_origin ''https://app.example'' cors_new))
        \<lparr>rq_method = ''GET'', rq_path = ''/'', rq_headers = [(''origin'', ''https://app.example'')], rq_body = []\<rparr>
        (\<lambda>_. Inr \<lparr>rs_status = 200, rs_headers = [], rs_body = []\<rparr> :: unit + (string \<times> string) list response))))
     ''access-control-allow-origin'' = Some ''https://app.example'' \<and>
   varies_on line_headers ''origin'' (rs_headers
     (projr (cors_handle line_headers (allow_credentials True (allow_origin ''https://app.example'' cors_new))
        \<lparr>rq_method = ''GET'', rq_path = ''/'', rq_headers = [(''origin'', ''https://app.example'')], rq_body = []\<rparr>
        (\<lambda>_. Inr \<lparr>rs_status = 200, rs_headers = [], rs_body = []\<rparr> :: unit + (string \<times> string) list response))))"
  (is "?get (rs_headers (projr ?r)) \<and> _")
proof -
  let ?c = "allow_credentials True (allow_origin ''https://app.example'' cors_new)"
  let ?req = "\<lparr>rq_method = ''GET'', rq_path = ''/'', rq_headers = [(''origin'', ''https://app.example'')], rq_body = []\<rparr>"
  let ?next = "\<lambda>_. Inr \<lparr>rs_status = 200, rs_headers = [], rs_body = []\<rparr> :: unit + (string \<times> string) list response"
  have answered: "?r = Inr (projr ?r)" by code_simp
  have plain: "hm_get_all line_headers (rs_headers inner) n = []" if "?next ?req = Inr inner" for inner n
    using that by (auto simp: line_headers_def)
  have "?get (rs_headers (projr ?r))" by code_simp
  then show ?thesis using cors_handle_safe [OF line_headers_laws answered plain] by blast
qed

end
