(* ===== verification/Pre_Dispatch.thy ===== *)
theory Pre_Dispatch
  imports Route_Pattern Prepare Cors
begin

text \<open>
  The pre-dispatch stage (\<open>ulo-http/src/pre_dispatch.rs\<close>): how a module declares its entries, the stage
  \<open>prepare\<close> builds of them, the entries one route runs, and the run of a sub-step.

  A middleware, a tower layer and an adopted type are numbers; what each does is a parameter of the run. An
  \<open>Arc<PreDispatch>\<close> is its pointer, a number, with the value it holds; a \<open>ModuleRef\<close> is a module's number. The
  flags the stage sets while routes take their entries, and the scoped stages it hands out again, are state
  passed from route to route.
\<close>

section \<open>What a module declares\<close>

datatype pd_step = StepByType nat | StepValue nat | StepLayer nat | StepAdopt nat type_name

record pd_entry =
  en_step :: pd_step
  en_scoped :: bool
  en_scope :: "string list"
  en_exclude :: "string list"
  en_supplies :: "(type_name \<times> location) list"
  en_dependencies :: "nat list"
  en_check :: "(string + unit) option"
  en_cors :: "cors option"
  en_location :: location

record pre_dispatch =
  pd_entries :: "pd_entry list"
  pd_stray_excludes :: "location list"
  pd_stray_supplies :: "location list"
  pd_adopt_supplies :: "location list"

definition pre_dispatch_default :: pre_dispatch where
  "pre_dispatch_default = \<lparr>pd_entries = [], pd_stray_excludes = [], pd_stray_supplies = [], pd_adopt_supplies = []\<rparr>"

definition update_last :: "('a \<Rightarrow> 'a) \<Rightarrow> 'a list \<Rightarrow> 'a list" where
  "update_last f xs = (if xs = [] then [] else butlast xs @ [f (last xs)])"

definition pd_push ::
    "pd_step \<Rightarrow> string list option \<Rightarrow> nat list \<Rightarrow> (string + unit) option \<Rightarrow> location \<Rightarrow> pre_dispatch \<Rightarrow> pre_dispatch" where
  "pd_push step scope dependencies check at pd =
     pd\<lparr>pd_entries := pd_entries pd @
       [\<lparr>en_step = step, en_scoped = (scope \<noteq> None), en_scope = (case scope of Some s \<Rightarrow> s | None \<Rightarrow> []), en_exclude = [],
         en_supplies = [], en_dependencies = dependencies, en_check = check, en_cors = None, en_location = at\<rparr>]\<rparr>"

definition pd_apply :: "nat \<Rightarrow> location \<Rightarrow> pre_dispatch \<Rightarrow> pre_dispatch" where
  "pd_apply m at = pd_push (StepByType m) None [m] None at"

text \<open>The downcast of the value to \<open>Cors\<close> is an argument.\<close>

definition pd_apply_value :: "nat \<Rightarrow> cors option \<Rightarrow> location \<Rightarrow> pre_dispatch \<Rightarrow> pre_dispatch" where
  "pd_apply_value m cors at pd =
     (let pd = pd_push (StepValue m) None [] (map_option cors_check cors) at pd
      in pd\<lparr>pd_entries := update_last (\<lambda>e. e\<lparr>en_cors := cors\<rparr>) (pd_entries pd)\<rparr>)"

definition pd_apply_for :: "nat \<Rightarrow> string list \<Rightarrow> location \<Rightarrow> pre_dispatch \<Rightarrow> pre_dispatch" where
  "pd_apply_for m patterns at = pd_push (StepByType m) (Some patterns) [m] None at"

definition pd_layer :: "nat \<Rightarrow> location \<Rightarrow> pre_dispatch \<Rightarrow> pre_dispatch" where
  "pd_layer l at = pd_push (StepLayer l) None [] None at"

definition pd_layer_for :: "string list \<Rightarrow> nat \<Rightarrow> location \<Rightarrow> pre_dispatch \<Rightarrow> pre_dispatch" where
  "pd_layer_for patterns l at = pd_push (StepLayer l) (Some patterns) [] None at"

definition pd_adopt :: "nat \<Rightarrow> type_name \<Rightarrow> location \<Rightarrow> pre_dispatch \<Rightarrow> pre_dispatch" where
  "pd_adopt v ty at = pd_push (StepAdopt v ty) None [] None at"

definition pd_supplies :: "type_name \<Rightarrow> location \<Rightarrow> pre_dispatch \<Rightarrow> pre_dispatch" where
  "pd_supplies ty at pd =
     (if pd_entries pd = [] then pd\<lparr>pd_stray_supplies := pd_stray_supplies pd @ [at]\<rparr>
      else (case en_step (last (pd_entries pd)) of
              StepAdopt _ _ \<Rightarrow> pd\<lparr>pd_adopt_supplies := pd_adopt_supplies pd @ [at]\<rparr>
            | _ \<Rightarrow> pd\<lparr>pd_entries := update_last (\<lambda>e. e\<lparr>en_supplies := en_supplies e @ [(ty, at)]\<rparr>) (pd_entries pd)\<rparr>))"

definition pd_exclude :: "string list \<Rightarrow> location \<Rightarrow> pre_dispatch \<Rightarrow> pre_dispatch" where
  "pd_exclude patterns at pd =
     (if pd_entries pd = [] then pd\<lparr>pd_stray_excludes := pd_stray_excludes pd @ [at]\<rparr>
      else pd\<lparr>pd_entries := update_last (\<lambda>e. e\<lparr>en_exclude := en_exclude e @ patterns\<rparr>) (pd_entries pd)\<rparr>)"

definition pd_dependencies :: "pre_dispatch \<Rightarrow> nat list" where
  "pd_dependencies pd = concat (map en_dependencies (pd_entries pd))"

section \<open>The stage\<close>

datatype pd_action = ActByType nat | ActValue nat | ActLayer nat | ActAdopt nat

fun action_of :: "pd_step \<Rightarrow> pd_action" where
  "action_of (StepByType m) = ActByType m"
| "action_of (StepValue m) = ActValue m"
| "action_of (StepLayer l) = ActLayer l"
| "action_of (StepAdopt v _) = ActAdopt v"

record runnable =
  ru_module :: nat
  ru_action :: pd_action
  ru_exclude :: "scope_pattern list"

record path_filter =
  pf_scope :: "scope_pattern list"
  pf_exclude :: "scope_pattern list"

definition admits :: "(string \<Rightarrow> string) \<Rightarrow> path_filter \<Rightarrow> string \<Rightarrow> bool" where
  "admits pdec f path \<longleftrightarrow>
     list_ex (\<lambda>scope. covers_path pdec scope path) (pf_scope f) \<and> \<not> list_ex (\<lambda>scope. covers_path pdec scope path) (pf_exclude f)"

record covering =
  cv_runnable :: runnable
  cv_scope :: "scope_pattern list"
  cv_exclude :: "scope_pattern list"

definition covering_filter :: "covering \<Rightarrow> path_filter" where
  "covering_filter c = \<lparr>pf_scope = cv_scope c, pf_exclude = cv_exclude c\<rparr>"

record stage_step =
  ss_module :: nat
  ss_ptr :: nat
  ss_meta :: pre_dispatch
  ss_index :: nat

record scoped_stage =
  sc_steps :: "stage_step list"
  sc_filters :: "path_filter option list"
  sc_run :: "runnable list"

definition scoped_stage_empty :: scoped_stage where
  "scoped_stage_empty = \<lparr>sc_steps = [], sc_filters = [], sc_run = []\<rparr>"

record stage =
  sg_scoped :: "stage_step list"
  sg_shared :: "scoped_stage list"
  sg_run :: "runnable list"
  sg_covering :: "covering list"
  sg_reached :: "bool list list"
  sg_unrouted :: scoped_stage
  sg_cors :: "(cors \<times> scope_pattern list) list"

definition stage_empty :: stage where
  "stage_empty = \<lparr>sg_scoped = [], sg_shared = [], sg_run = [], sg_covering = [], sg_reached = [],
     sg_unrouted = scoped_stage_empty, sg_cors = []\<rparr>"

definition stage_flags :: "nat \<Rightarrow> bool list" where
  "stage_flags count = map (\<lambda>_. False) [0..<count]"

section \<open>Building the stage\<close>

definition pre_dispatch_entry :: string where
  "pre_dispatch_entry = ''pre-dispatch entry''"

definition unreachable_text :: "string \<Rightarrow> string \<Rightarrow> string" where
  "unreachable_text what seg = what @ '' can never match: its static segment `'' @ seg @ ''` '' @ unreached_text BackslashSegment"

definition pattern_error_text :: "pattern_error \<Rightarrow> string" where
  "pattern_error_text e = ''`'' @ pe_pattern e @ ''` is not a route pattern: '' @ pe_reason e"

definition refuse_scope :: "location \<Rightarrow> string \<Rightarrow> string \<Rightarrow> unreached option \<Rightarrow> failure" where
  "refuse_scope at msg pattern reason =
     (let failure = failure_scoped [pattern] (failure_about pre_dispatch_entry
            (failure_at at (failure_plain (''pre-dispatch entry at '' @ location_text at @ '': '' @ msg))))
      in case reason of Some reason \<Rightarrow> failure_because reason failure | None \<Rightarrow> failure)"

fun scopes_of :: "(string \<Rightarrow> string) \<Rightarrow> string list \<Rightarrow> string \<Rightarrow> bool \<Rightarrow> location \<Rightarrow> failure list \<Rightarrow> scope_pattern list \<times> failure list" where
  "scopes_of pdec [] what routed at failures = ([], failures)"
| "scopes_of pdec (pattern # patterns) what routed at failures =
     (let (parsed, failures) =
        (case scope_parse pdec pattern of
           Inr parsed \<Rightarrow>
             (case (if routed then unreachable_segment (sp_raw parsed) (sp_segments parsed) else None) of
                Some seg \<Rightarrow> ([], failures @ [refuse_scope at
                    (unreachable_text (''the '' @ what @ '' `'' @ pattern @ ''`'') seg) pattern (Some BackslashSegment)])
              | None \<Rightarrow> ([parsed], failures))
         | Inl err \<Rightarrow> ([], failures @ [refuse_scope at (pattern_error_text err) pattern None]));
        (rest, failures) = scopes_of pdec patterns what routed at failures
      in (parsed @ rest, failures))"

definition stray_failure :: "string \<Rightarrow> string \<Rightarrow> location \<Rightarrow> failure" where
  "stray_failure before after at =
     failure_about pre_dispatch_entry (failure_at at (failure_plain (before @ location_text at @ after)))"

definition stray_failures :: "pre_dispatch \<Rightarrow> failure list" where
  "stray_failures meta =
     map (stray_failure ''`exclude` at '' '' follows no pre-dispatch entry, so it excludes nothing'') (pd_stray_excludes meta) @
     map (stray_failure ''`supplies` at ''
       '' follows no pre-dispatch entry; it declares what the entry before it inserts, and a value the host keeps is copied in by the embedding with `Embedded::forward`'')
       (pd_stray_supplies meta) @
     map (stray_failure ''`supplies` at ''
       '' follows an `adopt` entry: `adopt` copies a value out of the request and inserts none; declare the `supplies` after the entry that inserts it'')
       (pd_adopt_supplies meta)"

definition check_failures :: "pd_entry \<Rightarrow> failure list" where
  "check_failures e =
     (case en_check e of
        Some (Inl err) \<Rightarrow> [stray_failure ''pre-dispatch entry at '' ('': '' @ err) (en_location e)]
      | _ \<Rightarrow> [])"

definition build_entry ::
    "(string \<Rightarrow> string) \<Rightarrow> bool \<Rightarrow> nat \<Rightarrow> nat \<Rightarrow> pre_dispatch \<Rightarrow> nat \<times> pd_entry \<Rightarrow> stage \<times> failure list \<Rightarrow> stage \<times> failure list" where
  "build_entry pdec http m ptr meta = (\<lambda>(index, e) (st, failures).
     let failures = failures @ check_failures e;
         (exclude, failures) = scopes_of pdec (en_exclude e) ''exclusion'' http (en_location e) failures;
         action = action_of (en_step e)
     in if \<not> en_scoped e then
          (let st = (case en_cors e of Some cors \<Rightarrow> st\<lparr>sg_cors := sg_cors st @ [(cors, exclude)]\<rparr> | None \<Rightarrow> st)
           in (st\<lparr>sg_run := sg_run st @ [\<lparr>ru_module = m, ru_action = action, ru_exclude = exclude\<rparr>]\<rparr>, failures))
        else
          (let failures = (if en_scope e = []
                 then failures @ [failure_because EmptyScope
                        (stray_failure ''pre-dispatch entry at '' ('' '' @ unreached_text EmptyScope) (en_location e))]
                 else failures);
               (scope, failures) = scopes_of pdec (en_scope e) ''scope'' http (en_location e) failures
           in (st\<lparr>sg_scoped := sg_scoped st @ [\<lparr>ss_module = m, ss_ptr = ptr, ss_meta = meta, ss_index = index\<rparr>],
                  sg_covering := sg_covering st @
                    [\<lparr>cv_runnable = \<lparr>ru_module = m, ru_action = action, ru_exclude = []\<rparr>, cv_scope = scope, cv_exclude = exclude\<rparr>],
                  sg_reached := sg_reached st @ [stage_flags (length scope)]\<rparr>, failures)))"

definition build_meta ::
    "(string \<Rightarrow> string) \<Rightarrow> bool \<Rightarrow> nat \<times> nat \<times> pre_dispatch \<Rightarrow> stage \<times> failure list \<Rightarrow> stage \<times> failure list" where
  "build_meta pdec http = (\<lambda>(m, ptr, meta) (st, failures).
     fold (build_entry pdec http m ptr meta) (List.enumerate 0 (pd_entries meta)) (st, failures @ stray_failures meta))"

definition stage_build :: "(string \<Rightarrow> string) \<Rightarrow> bool \<Rightarrow> (nat \<times> nat \<times> pre_dispatch) list \<Rightarrow> failure list + stage" where
  "stage_build pdec http metas =
     (let (st, failures) = fold (build_meta pdec http) metas (stage_empty, [])
      in if failures \<noteq> [] then Inl failures
         else Inr (st\<lparr>sg_unrouted :=
           \<lparr>sc_steps = sg_scoped st, sc_filters = map (\<lambda>c. Some (covering_filter c)) (sg_covering st),
            sc_run = map cv_runnable (sg_covering st)\<rparr>\<rparr>))"

section \<open>The entries of one route\<close>

definition holds :: "scoped_stage \<Rightarrow> stage_step list \<Rightarrow> path_filter option list \<Rightarrow> bool" where
  "holds s steps filters \<longleftrightarrow>
     length (sc_steps s) = length steps \<and>
     list_all (\<lambda>(held, wanted). ss_ptr held = ss_ptr wanted \<and> ss_index held = ss_index wanted) (zip (sc_steps s) steps) \<and>
     list_all (\<lambda>(held, wanted). (held \<noteq> None) = (wanted \<noteq> None)) (zip (sc_filters s) filters)"

definition every_request :: "scoped_stage \<Rightarrow> stage_step list" where
  "every_request s = map fst (filter (\<lambda>(_, f). f = None) (zip (sc_steps s) (sc_filters s)))"

definition runnable_for :: "(string \<Rightarrow> string) \<Rightarrow> scoped_stage \<Rightarrow> string \<Rightarrow> runnable list" where
  "runnable_for pdec s path =
     (if list_all (\<lambda>f. f = None) (sc_filters s) then sc_run s
      else map fst (filter (\<lambda>(_, f). case f of None \<Rightarrow> True | Some f \<Rightarrow> admits pdec f path) (zip (sc_run s) (sc_filters s))))"

definition takes_whole :: "covering \<Rightarrow> pattern \<Rightarrow> bool" where
  "takes_whole c p \<longleftrightarrow> list_ex (\<lambda>exclude. scope_covers exclude p) (cv_exclude c)"

definition scope_reached :: "covering \<Rightarrow> pattern \<Rightarrow> scope_pattern \<Rightarrow> bool \<Rightarrow> bool" where
  "scope_reached c p scope reached \<longleftrightarrow>
     reached \<or> scope_overlaps scope p \<and> \<not> list_ex (\<lambda>exclude. scope_contains exclude scope) (cv_exclude c)"

definition cover_entry :: "pattern \<Rightarrow> covering \<Rightarrow> bool list \<Rightarrow> path_filter option option \<times> bool list" where
  "cover_entry p c reached =
     (if takes_whole c p then (None, reached)
      else
        (let flags = map (\<lambda>(scope, r). scope_reached c p scope r) (zip (cv_scope c) reached)
         in if \<not> list_ex (\<lambda>scope. scope_overlaps scope p) (cv_scope c) then (None, flags)
            else
              (let whole = (list_ex (\<lambda>scope. scope_covers scope p) (cv_scope c) \<and>
                            \<not> list_ex (\<lambda>exclude. scope_overlaps exclude p) (cv_exclude c))
               in (Some (if whole then None else Some (covering_filter c)), flags))))"

definition covered_entries :: "stage \<Rightarrow> pattern \<Rightarrow> (nat \<times> path_filter option) list" where
  "covered_entries st p =
     List.map_filter (\<lambda>(index, c, reached). map_option (\<lambda>f. (index, f)) (fst (cover_entry p c reached)))
       (List.enumerate 0 (zip (sg_covering st) (sg_reached st)))"

definition scoped_for :: "stage \<Rightarrow> pattern \<Rightarrow> scoped_stage \<times> stage" where
  "scoped_for st p =
     (let covered = covered_entries st p;
          st = st\<lparr>sg_reached := map (\<lambda>(c, reached). snd (cover_entry p c reached)) (zip (sg_covering st) (sg_reached st))\<rparr>;
          steps = map (\<lambda>(index, _). sg_scoped st ! index) covered;
          filters = map snd covered
      in case find (\<lambda>s. holds s steps filters) (sg_shared st) of
           Some s \<Rightarrow> (s, st)
         | None \<Rightarrow>
             (let s = \<lparr>sc_steps = steps, sc_filters = filters, sc_run = map (\<lambda>(index, _). cv_runnable (sg_covering st ! index)) covered\<rparr>
              in (s, st\<lparr>sg_shared := sg_shared st @ [s]\<rparr>)))"

definition stage_scoped :: "(string \<Rightarrow> string) \<Rightarrow> stage \<Rightarrow> string \<Rightarrow> (string + scoped_stage) \<times> stage" where
  "stage_scoped pdec st route =
     (case pattern_parse pdec route of
        Inl err \<Rightarrow> (Inl (pattern_error_text err), st)
      | Inr p \<Rightarrow> (case scoped_for st p of (s, st) \<Rightarrow> (Inr s, st)))"

definition unreached_scope :: "location \<Rightarrow> string \<Rightarrow> unreached \<Rightarrow> failure" where
  "unreached_scope at scope reason =
     failure_because reason (failure_scoped [scope] (failure_about pre_dispatch_entry (failure_at at
       (failure_plain (''pre-dispatch entry at '' @ location_text at @ '' is scoped to `'' @ scope @ ''`, which '' @ unreached_text reason)))))"

definition stage_unreached :: "stage \<Rightarrow> failure list" where
  "stage_unreached st =
     concat (map (\<lambda>((c, reached), step).
       let at = en_location (pd_entries (ss_meta step) ! ss_index step)
       in map (\<lambda>(scope, _). unreached_scope at (sp_raw scope) NoRoute) (filter (\<lambda>(_, r). \<not> r) (zip (cv_scope c) reached)))
       (zip (zip (sg_covering st) (sg_reached st)) (sg_scoped st)))"

definition runs_on_every_request :: "stage \<Rightarrow> nat \<Rightarrow> nat \<Rightarrow> pattern \<Rightarrow> pattern list \<Rightarrow> bool" where
  "runs_on_every_request st ptr index p before =
     (case find (\<lambda>(_, step). ss_ptr step = ptr \<and> ss_index step = index) (zip (sg_covering st) (sg_scoped st)) of
        None \<Rightarrow> False
      | Some (c, _) \<Rightarrow>
          list_ex (\<lambda>scope. scope_covers scope p) (cv_scope c) \<and>
          list_all (\<lambda>exclude. case shared_with exclude p of
              None \<Rightarrow> True
            | Some shared \<Rightarrow> list_ex (\<lambda>route. pattern_contains route shared) before) (cv_exclude c))"

definition decorate_refusal :: "(string \<Rightarrow> string) \<Rightarrow> 'h header_ops \<Rightarrow> stage \<Rightarrow> 'h request \<Rightarrow> 'h response \<Rightarrow> 'h response" where
  "decorate_refusal pdec ops st req refused =
     (let origin = hm_get ops (rq_headers req) ''origin''
      in fold (\<lambda>(cors, exclude) refused.
           if \<not> list_ex (\<lambda>scope. covers_path pdec scope (rq_path req)) exclude
           then refused\<lparr>rs_headers := decorate ops cors origin (rs_headers refused)\<rparr> else refused)
         (rev (sg_cors st)) refused)"

definition shares_path :: "(string \<Rightarrow> string) \<Rightarrow> string \<Rightarrow> string \<Rightarrow> bool" where
  "shares_path pdec scope route =
     (case (scope_parse pdec scope, pattern_parse pdec route) of
        (Inr scope, Inr route) \<Rightarrow> scope_overlaps scope route
      | _ \<Rightarrow> False)"

section \<open>The run of a sub-step\<close>

text \<open>
  What the entries do is the record \<open>stage_env\<close>: the lookup of a middleware by type, a middleware's \<open>handle\<close>, a
  layered service, the copy of \<open>adopt\<close>, and \<open>StageHost::fail\<close>. The request's execution is the state \<open>'x\<close> each
  passes on. An error value stands for an \<open>Err\<close> and for a panic \<open>AppHandle::catch_panic\<close> caught.
\<close>

type_synonym ('h, 'x) rest = "'h request \<Rightarrow> 'x \<Rightarrow> 'h response \<times> 'x"

record ('h, 'x, 'e) stage_env =
  ev_resolve :: "nat \<Rightarrow> nat \<Rightarrow> 'x \<Rightarrow> ('e + nat) \<times> 'x"
  ev_handle :: "nat \<Rightarrow> 'h request \<Rightarrow> ('h request \<Rightarrow> 'x \<Rightarrow> ('e + 'h response) \<times> 'x) \<Rightarrow> 'x \<Rightarrow> ('e + 'h response) \<times> 'x"
  ev_layer :: "nat \<Rightarrow> 'h request \<Rightarrow> ('h, 'x) rest \<Rightarrow> 'x \<Rightarrow> ('e + 'h response) \<times> 'x"
  ev_adopt :: "nat \<Rightarrow> 'h request \<Rightarrow> 'x \<Rightarrow> 'x"
  ev_fail :: "'e \<Rightarrow> 'x \<Rightarrow> 'h response \<times> 'x"

definition skips :: "(string \<Rightarrow> string) \<Rightarrow> runnable \<Rightarrow> string \<Rightarrow> bool" where
  "skips pdec r path = list_ex (\<lambda>scope. covers_path pdec scope path) (ru_exclude r)"

definition handle_with ::
    "('h, 'x, 'e) stage_env \<Rightarrow> nat \<Rightarrow> 'h request \<Rightarrow> ('h, 'x) rest \<Rightarrow> 'x \<Rightarrow> ('e + 'h response) \<times> 'x" where
  "handle_with env m req rest = ev_handle env m req (\<lambda>req x. case rest req x of (answer, x) \<Rightarrow> (Inr answer, x))"

definition start ::
    "('h, 'x, 'e) stage_env \<Rightarrow> runnable \<Rightarrow> 'h request \<Rightarrow> ('h, 'x) rest \<Rightarrow> 'x \<Rightarrow> ('e + 'h response) \<times> 'x" where
  "start env r req rest x =
     (case ru_action r of
        ActValue m \<Rightarrow> handle_with env m req rest x
      | ActByType ty \<Rightarrow>
          (case ev_resolve env ty (ru_module r) x of
             (Inl err, x) \<Rightarrow> (Inl err, x)
           | (Inr m, x) \<Rightarrow> handle_with env m req rest x)
      | ActAdopt v \<Rightarrow> (case rest req (ev_adopt env v req x) of (answer, x) \<Rightarrow> (Inr answer, x))
      | ActLayer l \<Rightarrow> ev_layer env l req rest x)"

fun stage_run :: "(string \<Rightarrow> string) \<Rightarrow> ('h, 'x, 'e) stage_env \<Rightarrow> runnable list \<Rightarrow> ('h, 'x) rest \<Rightarrow> ('h, 'x) rest" where
  "stage_run pdec env [] end_rest req x = end_rest req x"
| "stage_run pdec env (r # rs) end_rest req x =
     (if skips pdec r (rq_path req) then stage_run pdec env rs end_rest req x
      else (case start env r req (stage_run pdec env rs end_rest) x of
              (Inr response, x) \<Rightarrow> (response, x)
            | (Inl err, x) \<Rightarrow> ev_fail env err x))"

end
