(* ===== verification/Route_Laws.thy ===== *)
theory Route_Laws
  imports Route_Pattern
begin

text \<open>
  What a route or scope pattern means is the set of request paths it takes. Matching, the comparison of a
  scope with a route and the intersection of two shapes are proved against that meaning.
\<close>

section \<open>Shapes as sets of paths\<close>

text \<open>A path is the list of its segments. \<open>shape_takes\<close> is the test of \<open>covers_path\<close> over it.\<close>

definition shape_takes :: "(string \<Rightarrow> string) \<Rightarrow> shape \<Rightarrow> string list \<Rightarrow> bool" where
  "shape_takes pdec sh ps \<longleftrightarrow>
     (if sh_open sh then length (sh_fixed sh) < length ps else length ps = length (sh_fixed sh)) \<and>
     (\<forall>i < length (sh_fixed sh). segment_takes pdec (sh_fixed sh ! i) (ps ! i))"

definition path_segments :: "string \<Rightarrow> string list" where
  "path_segments path = map snd (split_path (normalize path))"

lemma list_all_zip: "list_all P (zip xs ys) \<longleftrightarrow> (\<forall>i < min (length xs) (length ys). P (xs ! i, ys ! i))"
  by (simp add: list_all_length)

lemma covers_path_takes: "covers_path pdec s path \<longleftrightarrow> shape_takes pdec (scope_shape s) (path_segments path)"
  unfolding covers_path_def shape_takes_def path_segments_def scope_shape_def Let_def
  by (cases "sp_wildcard s") (auto simp: list_all_zip)

text \<open>A pattern's \<open>{*rest}\<close> is its last segment; each static segment is written without an escape.\<close>

definition rest_last :: "segment list \<Rightarrow> bool" where
  "rest_last segs \<longleftrightarrow> (\<forall>seg \<in> set (butlast segs). \<not> is_rest seg)"

fun plain_segment :: "segment \<Rightarrow> bool" where
  "plain_segment (SegStatic t) = (t \<noteq> [] \<and> CHR ''%'' \<notin> set t \<and> CHR ''/'' \<notin> set t)"
| "plain_segment _ = True"

definition plain_shape :: "shape \<Rightarrow> bool" where
  "plain_shape sh \<longleftrightarrow> (\<forall>seg \<in> set (sh_fixed sh). plain_segment seg \<and> \<not> is_rest seg)"

fun segments_take :: "(string \<Rightarrow> string) \<Rightarrow> segment list \<Rightarrow> string list \<Rightarrow> bool" where
  "segments_take pdec [] ps = (ps = [])"
| "segments_take pdec (seg # segs) [] = False"
| "segments_take pdec (seg # segs) (p # ps) =
     (if is_rest seg then p \<noteq> [] else segment_takes pdec seg p \<and> segments_take pdec segs ps)"

lemma match_from_takes:
  assumes "index \<le> length pieces"
  shows "match_from pdec path pieces index pairs segs \<noteq> None \<longleftrightarrow> segments_take pdec segs (map snd (drop index pieces))"
  using assms
proof (induction segs arbitrary: index pairs)
  case Nil then show ?case by auto
next
  case (Cons seg segs)
  show ?case
  proof (cases "index < length pieces")
    case True
    then have d: "drop index pieces = pieces ! index # drop (Suc index) pieces" by (simp add: Cons_nth_drop_Suc)
    obtain offset piece where p: "pieces ! index = (offset, piece)" by (cases "pieces ! index")
    show ?thesis using True Cons.IH [of "Suc index"] d p by (cases seg) (auto simp: get_nth_def)
  next
    case False then show ?thesis using Cons.prems by (cases seg) (auto simp: get_nth_def)
  qed
qed

lemma segments_take_shape:
  assumes "rest_last segs"
  shows "segments_take pdec segs ps \<longleftrightarrow>
    shape_takes pdec (pattern_shape \<lparr>pt_raw = raw, pt_segments = segs\<rparr>) ps \<and>
    (segs \<noteq> [] \<and> is_rest (last segs) \<longrightarrow> ps ! (length segs - 1) \<noteq> [])"
  using assms
proof (induction segs arbitrary: ps)
  case Nil then show ?case by (auto simp: shape_takes_def pattern_shape_def)
next
  case (Cons seg segs)
  show ?case
  proof (cases ps)
    case Nil then show ?thesis by (auto simp: shape_takes_def pattern_shape_def)
  next
    case (Cons q qs)
    show ?thesis
    proof (cases "segs = []")
      case True
      then show ?thesis using Cons by (cases seg) (auto simp: shape_takes_def pattern_shape_def length_Suc_conv)
    next
      case False
      then have "\<not> is_rest seg" "rest_last segs" using Cons.prems by (auto simp: rest_last_def)
      then show ?thesis using False Cons Cons.IH [of qs]
        by (auto simp: shape_takes_def pattern_shape_def nth_Cons less_Suc_eq_0_disj split: nat.splits if_splits)
    qed
  qed
qed

lemma matches_takes:
  assumes "rest_last (pt_segments p)"
  shows "matches pdec p path \<noteq> None \<longleftrightarrow>
    shape_takes pdec (pattern_shape p) (path_segments path) \<and>
    (sh_open (pattern_shape p) \<longrightarrow> path_segments path ! length (sh_fixed (pattern_shape p)) \<noteq> [])"
proof -
  have "matches pdec p path \<noteq> None \<longleftrightarrow> segments_take pdec (pt_segments p) (path_segments path)"
    using match_from_takes [of 0] by (simp add: matches_def match_split_def path_segments_def Let_def)
  moreover have "p = \<lparr>pt_raw = pt_raw p, pt_segments = pt_segments p\<rparr>" by simp
  ultimately show ?thesis
    using segments_take_shape [OF assms, of pdec "path_segments path" "pt_raw p"] by (auto simp: pattern_shape_def)
qed

section \<open>What parsing gives\<close>

lemma parse_piece_segment:
  assumes "parse_piece pdec scope is_last names piece = Inr (seg, names')"
  shows "piece \<noteq> [] \<and> (is_rest seg \<longrightarrow> is_last) \<and> (\<forall>t. seg = SegStatic t \<longrightarrow> t = decode pdec piece)"
  using assms unfolding parse_piece_def named_def
  by (auto split: if_splits option.splits sum.splits simp: map_sum_def)

lemma parse_pieces_segments:
  assumes "parse_pieces pdec scope names pieces = Inr segs"
  shows "rest_last segs \<and> (\<forall>seg \<in> set segs. \<forall>t. seg = SegStatic t \<longrightarrow> (\<exists>piece \<in> set pieces. piece \<noteq> [] \<and> t = decode pdec piece)) \<and>
    length segs = length pieces"
  using assms
proof (induction pieces arbitrary: names segs)
  case Nil then show ?case by (simp add: rest_last_def)
next
  case (Cons piece pieces)
  obtain seg names' rest where p: "parse_piece pdec scope (pieces = []) names piece = Inr (seg, names')"
    "parse_pieces pdec scope names' pieces = Inr rest" "segs = seg # rest"
    using Cons.prems by (auto split: sum.splits simp: map_sum_def)
  note ih = Cons.IH [OF p(2)] and one = parse_piece_segment [OF p(1)]
  have "rest_last segs" using ih one p(3) by (cases rest) (auto simp: rest_last_def)
  then show ?case using ih one p(3) by auto
qed

lemma encoded_slash_percent: "CHR ''%'' \<notin> set s \<Longrightarrow> encoded_slash s = None"
  by (induction s) (auto simp: is_encoded_slash_def)

definition decodes_escapes :: "(string \<Rightarrow> string) \<Rightarrow> bool" where
  "decodes_escapes pdec \<longleftrightarrow> (\<forall>s. CHR ''%'' \<notin> set s \<longrightarrow> pdec s = s)"

lemma decode_plain: "decodes_escapes pdec \<Longrightarrow> CHR ''%'' \<notin> set s \<Longrightarrow> decode pdec s = s"
  by (subst decode.simps) (simp add: encoded_slash_percent decodes_escapes_def)

lemma set_normalize: "set (normalize t) \<subseteq> set t"
proof -
  have "set r \<subseteq> set t" if "strip_suffix ''/'' t = Some r" for r
    using that by (auto simp: strip_suffix_def strip_prefix_Some)
  then show ?thesis by (auto simp: normalize_def split: option.splits)
qed

lemma parse_segments_plain:
  assumes "decodes_escapes pdec" "CHR ''%'' \<notin> set t'" "parse_segments pdec t' scope = Inr segs"
  shows "rest_last segs" "\<forall>seg \<in> set segs. plain_segment seg"
proof -
  have "\<not> take 1 t' \<noteq> ''/''"
  proof
    assume "take 1 t' \<noteq> ''/''"
    then have "parse_segments pdec t' scope = Inl ''a pattern starts with `/`''" unfolding parse_segments_def by (rule if_P)
    with assms(3) show False by simp
  qed
  then consider "segs = []" | "parse_pieces pdec scope [] (split_on (CHR ''/'') (drop 1 (normalize t'))) = Inr segs"
    using assms(3) unfolding parse_segments_def by (cases "normalize t' = ''/''") (simp_all del: One_nat_def)
  then have "rest_last segs \<and> (\<forall>seg \<in> set segs. plain_segment seg)"
  proof cases
    case 1 then show ?thesis by (simp add: rest_last_def)
  next
    case 2
    have plain: "plain_segment (SegStatic (decode pdec piece))"
      if piece: "piece \<in> set (split_on (CHR ''/'') (drop 1 (normalize t')))" "piece \<noteq> []" for piece
    proof -
      have "CHR ''/'' \<notin> set piece" "set piece \<subseteq> set (drop 1 (normalize t'))" using split_on_piece [OF piece(1)] by auto
      moreover have "set (drop 1 (normalize t')) \<subseteq> set t'" by (rule order_trans [OF set_drop_subset set_normalize])
      ultimately have "CHR ''%'' \<notin> set piece" using assms(2) by blast
      then show ?thesis using piece(2) \<open>CHR ''/'' \<notin> set piece\<close> decode_plain [OF assms(1)] by simp
    qed
    have "plain_segment seg" if seg: "seg \<in> set segs" for seg
    proof (cases seg)
      case (SegStatic t)
      then obtain piece where "piece \<in> set (split_on (CHR ''/'') (drop 1 (normalize t')))" "piece \<noteq> []" "t = decode pdec piece"
        using parse_pieces_segments [OF 2] seg by blast
      then show ?thesis using plain SegStatic by blast
    qed simp_all
    then show ?thesis using parse_pieces_segments [OF 2] by blast
  qed
  then show "rest_last segs" "\<forall>seg \<in> set segs. plain_segment seg" by blast+
qed

lemma plain_shape_segments:
  assumes "rest_last segs" "\<forall>seg \<in> set segs. plain_segment seg"
  shows "plain_shape (pattern_shape \<lparr>pt_raw = raw, pt_segments = segs\<rparr>)"
  using assms by (cases segs rule: rev_cases) (auto simp: plain_shape_def pattern_shape_def rest_last_def)

lemma pattern_parse_plain:
  assumes "decodes_escapes pdec" "CHR ''%'' \<notin> set t" "pattern_parse pdec t = Inr p"
  shows "rest_last (pt_segments p)" "plain_shape (pattern_shape p)"
proof -
  obtain segs where segs: "parse_segments pdec t False = Inr segs" "p = \<lparr>pt_raw = normalize t, pt_segments = segs\<rparr>"
    using assms(3) by (cases "parse_segments pdec t False") (auto simp: pattern_parse_def)
  note plain = parse_segments_plain [OF assms(1,2) segs(1)]
  show "rest_last (pt_segments p)" "plain_shape (pattern_shape p)"
    using plain plain_shape_segments [OF plain] unfolding segs(2) by simp_all
qed

lemma scope_parse_plain:
  assumes "decodes_escapes pdec" "CHR ''%'' \<notin> set t" "scope_parse pdec t = Inr s"
  shows "plain_shape (scope_shape s)"
proof -
  obtain segs where segs: "parse_segments pdec t True = Inr segs"
    "scope_shape s = pattern_shape \<lparr>pt_raw = t, pt_segments = segs\<rparr>"
    using assms(3) by (cases "parse_segments pdec t True") (auto simp: scope_parse_def scope_shape_def pattern_shape_def Let_def)
  show ?thesis unfolding segs(2) by (rule plain_shape_segments [OF parse_segments_plain [OF assms(1,2) segs(1)]])
qed

section \<open>Comparing shapes\<close>

lemma static_takes_nonempty: "plain_segment seg \<Longrightarrow> segment_takes pdec seg piece \<Longrightarrow> piece \<noteq> []"
  by (cases seg) (auto simp: static_matches_def)

lemma segment_covers_sound:
  "segment_covers a b \<Longrightarrow> plain_segment b \<Longrightarrow> segment_takes pdec b piece \<Longrightarrow> segment_takes pdec a piece"
  by (cases "(a, b)" rule: segment_covers.cases) (auto dest: static_takes_nonempty)

lemma shape_contains_nth:
  "shape_contains a b \<longleftrightarrow>
     (case (sh_open a, sh_open b) of
        (True, True) \<Rightarrow> length (sh_fixed a) \<le> length (sh_fixed b)
      | (True, False) \<Rightarrow> length (sh_fixed a) < length (sh_fixed b)
      | (False, False) \<Rightarrow> length (sh_fixed b) = length (sh_fixed a)
      | (False, True) \<Rightarrow> False) \<and>
     (\<forall>i < min (length (sh_fixed a)) (length (sh_fixed b)). segment_covers (sh_fixed a ! i) (sh_fixed b ! i))"
  by (simp add: shape_contains_def Let_def list_all_zip)

lemma shape_contains_sound:
  assumes "shape_contains a b" "plain_shape b" "shape_takes pdec b ps"
  shows "shape_takes pdec a ps"
proof -
  have len: "length (sh_fixed a) \<le> length (sh_fixed b)"
    "if sh_open a then length (sh_fixed a) < length ps else length ps = length (sh_fixed a)"
    using assms(1,3) by (auto simp: shape_contains_nth shape_takes_def split: bool.splits)
  have "segment_takes pdec (sh_fixed a ! i) (ps ! i)" if i: "i < length (sh_fixed a)" for i
  proof (rule segment_covers_sound)
    show "segment_covers (sh_fixed a ! i) (sh_fixed b ! i)" using assms(1) i len(1) by (simp add: shape_contains_nth)
    show "plain_segment (sh_fixed b ! i)" using assms(2) i len(1) by (simp add: plain_shape_def)
    show "segment_takes pdec (sh_fixed b ! i) (ps ! i)" using assms(3) i len(1) by (simp add: shape_takes_def)
  qed
  then show ?thesis using len(2) by (simp add: shape_takes_def)
qed

text \<open>A segment the one takes and the other, when it does not cover it, does not.\<close>

definition witness_piece :: "segment option \<Rightarrow> segment \<Rightarrow> string" where
  "witness_piece avoid seg =
     (case seg of
        SegStatic t \<Rightarrow> t
      | _ \<Rightarrow> (case avoid of Some (SegStatic t) \<Rightarrow> t @ ''x'' | _ \<Rightarrow> ''x''))"

definition plain_piece :: "string \<Rightarrow> bool" where
  "plain_piece p \<longleftrightarrow> p \<noteq> [] \<and> CHR ''/'' \<notin> set p"

lemma witness_piece_plain:
  "plain_segment seg \<Longrightarrow> (\<And>a. avoid = Some a \<Longrightarrow> plain_segment a) \<Longrightarrow> plain_piece (witness_piece avoid seg)"
  by (cases seg; cases avoid) (auto simp: witness_piece_def plain_piece_def split: segment.splits)

lemma witness_piece_taken: "\<not> is_rest seg \<Longrightarrow> segment_takes pdec seg (witness_piece avoid seg)"
  by (cases seg; cases avoid) (auto simp: witness_piece_def static_matches_def split: segment.splits)

lemma witness_piece_avoids:
  "\<not> segment_covers a seg \<Longrightarrow> plain_segment a \<Longrightarrow> plain_segment seg \<Longrightarrow> \<not> is_rest seg \<Longrightarrow>
     \<not> segment_takes pdec a (witness_piece (Some a) seg)"
  by (cases a; cases seg) (auto simp: witness_piece_def static_matches_def)

definition witness_path :: "segment list \<Rightarrow> segment list \<Rightarrow> string list" where
  "witness_path avoid segs = map (\<lambda>i. witness_piece (get_nth avoid i) (segs ! i)) [0..<length segs]"

lemma witness_path_nth [simp]: "i < length segs \<Longrightarrow> witness_path avoid segs ! i = witness_piece (get_nth avoid i) (segs ! i)"
  and witness_path_length [simp]: "length (witness_path avoid segs) = length segs"
  by (simp_all add: witness_path_def)

lemma witness_path_plain:
  assumes "\<forall>seg \<in> set segs. plain_segment seg" "\<forall>seg \<in> set avoid. plain_segment seg" "p \<in> set (witness_path avoid segs)"
  shows "plain_piece p"
proof -
  obtain i where i: "i < length segs" "p = witness_piece (get_nth avoid i) (segs ! i)"
    using assms(3) by (auto simp: witness_path_def)
  show ?thesis unfolding i(2)
    by (rule witness_piece_plain) (use assms i(1) in \<open>auto simp: get_nth_def split: if_splits\<close>)
qed

lemma shape_takes_witness:
  assumes "plain_shape b" "if sh_open b then extra \<noteq> [] else extra = []"
  shows "shape_takes pdec b (witness_path avoid (sh_fixed b) @ extra)"
  using assms by (auto simp: shape_takes_def plain_shape_def nth_append intro!: witness_piece_taken)

lemma shape_contains_complete:
  assumes "\<not> shape_contains a b" "plain_shape a" "plain_shape b"
  shows "\<exists>ps. (\<forall>p \<in> set ps. plain_piece p) \<and> shape_takes pdec b ps \<and> \<not> shape_takes pdec a ps"
proof -
  let ?w = "witness_path (sh_fixed a) (sh_fixed b)"
  have plain: "\<forall>p \<in> set (?w @ replicate n ''x''). plain_piece p" for n
    using witness_path_plain [of "sh_fixed b" "sh_fixed a"] assms(2,3)
    by (auto simp: plain_shape_def) (simp_all add: plain_piece_def)
  have taken: "shape_takes pdec b (?w @ replicate n ''x'')" if "if sh_open b then 0 < n else n = 0" for n
    by (rule shape_takes_witness [OF assms(3)]) (use that in \<open>auto split: if_splits\<close>)
  have "\<exists>n. (if sh_open b then 0 < n else n = 0) \<and> \<not> shape_takes pdec a (?w @ replicate n ''x'')"
  proof (cases "case (sh_open a, sh_open b) of (True, True) \<Rightarrow> length (sh_fixed a) \<le> length (sh_fixed b)
      | (True, False) \<Rightarrow> length (sh_fixed a) < length (sh_fixed b) | (False, False) \<Rightarrow> length (sh_fixed b) = length (sh_fixed a)
      | (False, True) \<Rightarrow> False")
    case True
    then obtain i where i: "i < length (sh_fixed a)" "i < length (sh_fixed b)" "\<not> segment_covers (sh_fixed a ! i) (sh_fixed b ! i)"
      using assms(1) by (auto simp: shape_contains_nth)
    have "\<not> segment_takes pdec (sh_fixed a ! i) ((?w @ replicate n ''x'') ! i)" for n
      using i assms(2,3) witness_piece_avoids [OF i(3)] by (simp add: nth_append get_nth_def plain_shape_def)
    then have "\<not> shape_takes pdec a (?w @ replicate (if sh_open b then 1 else 0) ''x'')" using i(1) unfolding shape_takes_def by blast
    then show ?thesis by (intro exI [of _ "if sh_open b then 1 else 0"]) auto
  next
    case False
    then show ?thesis
      by (intro exI [of _ "if sh_open b then (if sh_open a \<or> length (sh_fixed a) \<noteq> Suc (length (sh_fixed b)) then 1 else 2) else 0"])
        (auto simp: shape_takes_def split: bool.splits)
  qed
  then show ?thesis using plain taken by blast
qed

section \<open>The intersection of two shapes\<close>

lemma static_same:
  assumes "decodes_escapes pdec" "plain_segment (SegStatic t)" "plain_segment (SegStatic u)"
    "static_matches pdec t piece" "static_matches pdec u piece"
  shows "t = u"
  using assms by (auto simp: static_matches_def)

lemma segments_meet_taken:
  assumes "decodes_escapes pdec" "plain_segment a" "plain_segment b" "segment_takes pdec a piece" "segment_takes pdec b piece"
  shows "segments_meet a b"
proof (cases "\<exists>t u. a = SegStatic t \<and> b = SegStatic u")
  case True then show ?thesis using assms static_same [OF assms(1)] by auto
next
  case False then show ?thesis by (cases a; cases b) auto
qed

lemma narrower_takes:
  assumes "segments_meet a b" "plain_segment a" "plain_segment b" "\<not> is_rest a" "\<not> is_rest b"
  shows "segment_takes pdec (narrower (Some a) b) piece \<longleftrightarrow> segment_takes pdec a piece \<and> segment_takes pdec b piece"
proof -
  have "\<not> segment_takes pdec (SegStatic t) []" if "t \<noteq> []" for t using that by (simp add: static_matches_def)
  then show ?thesis using assms by (cases a; cases b; cases piece) simp_all
qed

lemma segments_meet_sym: "segments_meet a b = segments_meet b a"
  by (cases a; cases b) auto

definition narrowed :: "segment list \<Rightarrow> segment list \<Rightarrow> segment list" where
  "narrowed long short = map (\<lambda>(index, seg). narrower (get_nth short index) seg) (List.enumerate 0 long)"

lemma narrowed_length [simp]: "length (narrowed long short) = length long"
  and narrowed_nth [simp]: "i < length long \<Longrightarrow> narrowed long short ! i = narrower (get_nth short i) (long ! i)"
  by (simp_all add: narrowed_def nth_enumerate_eq)

lemma narrowed_takes:
  assumes "length short \<le> length long" "\<forall>i < length short. segments_meet (short ! i) (long ! i)"
    "\<forall>seg \<in> set long \<union> set short. plain_segment seg \<and> \<not> is_rest seg"
  shows "(\<forall>i < length long. segment_takes pdec (narrowed long short ! i) (ps ! i)) \<longleftrightarrow>
    (\<forall>i < length long. segment_takes pdec (long ! i) (ps ! i)) \<and> (\<forall>i < length short. segment_takes pdec (short ! i) (ps ! i))"
proof -
  have "segment_takes pdec (narrowed long short ! i) (ps ! i) \<longleftrightarrow>
      segment_takes pdec (long ! i) (ps ! i) \<and> (i < length short \<longrightarrow> segment_takes pdec (short ! i) (ps ! i))"
    if i: "i < length long" for i
  proof (cases "i < length short")
    case True
    then show ?thesis using i assms narrower_takes [of "short ! i" "long ! i" pdec "ps ! i"] by (auto simp: get_nth_def)
  next
    case False then show ?thesis using i by (simp add: get_nth_def)
  qed
  then show ?thesis using assms(1) by fastforce
qed

lemma narrowed_plain:
  assumes "\<forall>seg \<in> set long \<union> set short. plain_segment seg \<and> \<not> is_rest seg" "seg \<in> set (narrowed long short)"
  shows "plain_segment seg \<and> \<not> is_rest seg"
proof -
  obtain i where i: "i < length long" "seg = narrower (get_nth short i) (long ! i)"
    using assms(2) by (auto simp: in_set_conv_nth)
  show ?thesis
  proof (cases "i < length short")
    case True
    then have "plain_segment (short ! i) \<and> \<not> is_rest (short ! i)" "plain_segment (long ! i) \<and> \<not> is_rest (long ! i)"
      using i(1) assms(1) nth_mem by blast+
    then show ?thesis using True i by (cases "short ! i") (auto simp: get_nth_def)
  next
    case False then show ?thesis using i assms(1) by (simp add: get_nth_def)
  qed
qed

lemma shape_overlaps_nth:
  "shape_overlaps a b \<longleftrightarrow>
     (case (sh_open a, sh_open b) of
        (True, True) \<Rightarrow> True
      | (True, False) \<Rightarrow> length (sh_fixed a) < length (sh_fixed b)
      | (False, True) \<Rightarrow> length (sh_fixed b) < length (sh_fixed a)
      | (False, False) \<Rightarrow> length (sh_fixed b) = length (sh_fixed a)) \<and>
     (\<forall>i < min (length (sh_fixed a)) (length (sh_fixed b)). segments_meet (sh_fixed a ! i) (sh_fixed b ! i))"
  by (simp add: shape_overlaps_def Let_def list_all_zip)

lemma shape_overlaps_taken:
  assumes "decodes_escapes pdec" "plain_shape a" "plain_shape b" "shape_takes pdec a ps" "shape_takes pdec b ps"
  shows "shape_overlaps a b"
proof -
  have "segments_meet (sh_fixed a ! i) (sh_fixed b ! i)" if "i < length (sh_fixed a)" "i < length (sh_fixed b)" for i
    by (rule segments_meet_taken [OF assms(1), of _ _ "ps ! i"]) (use that assms in \<open>auto simp: plain_shape_def shape_takes_def\<close>)
  then show ?thesis using assms(4,5) by (auto simp: shape_overlaps_nth shape_takes_def split: bool.splits if_splits)
qed

lemma shape_intersection_narrowed:
  assumes "shape_overlaps a b"
  obtains long short where "shape_intersection a b = Some \<lparr>sh_fixed = narrowed long short, sh_open = sh_open a \<and> sh_open b\<rparr>"
    "(long, short) = (sh_fixed a, sh_fixed b) \<or> (long, short) = (sh_fixed b, sh_fixed a)" "length short \<le> length long"
    "\<forall>i < length short. segments_meet (short ! i) (long ! i)"
proof (cases "length (sh_fixed b) \<le> length (sh_fixed a)")
  case True
  then show ?thesis using assms by (intro that [of "sh_fixed a" "sh_fixed b"])
    (auto simp: shape_intersection_def narrowed_def shape_overlaps_nth segments_meet_sym)
next
  case False
  then show ?thesis using assms by (intro that [of "sh_fixed b" "sh_fixed a"])
    (auto simp: shape_intersection_def narrowed_def shape_overlaps_nth)
qed

lemma shape_intersection_exact:
  assumes "plain_shape a" "plain_shape b" "shape_intersection a b = Some c"
  shows "plain_shape c" "shape_takes pdec c ps \<longleftrightarrow> shape_takes pdec a ps \<and> shape_takes pdec b ps"
proof -
  have overlap: "shape_overlaps a b" using assms(3) by (auto simp: shape_intersection_def split: if_splits)
  obtain long short where l: "shape_intersection a b = Some \<lparr>sh_fixed = narrowed long short, sh_open = sh_open a \<and> sh_open b\<rparr>"
    "(long, short) = (sh_fixed a, sh_fixed b) \<or> (long, short) = (sh_fixed b, sh_fixed a)" "length short \<le> length long"
    "\<forall>i < length short. segments_meet (short ! i) (long ! i)"
    by (rule shape_intersection_narrowed [OF overlap])
  have plain: "\<forall>seg \<in> set long \<union> set short. plain_segment seg \<and> \<not> is_rest seg" using l(2) assms(1,2) by (auto simp: plain_shape_def)
  show "plain_shape c" using narrowed_plain [OF plain] assms(3) l(1) by (auto simp: plain_shape_def)
  have c: "sh_fixed c = narrowed long short" "sh_open c = (sh_open a \<and> sh_open b)" using assms(3) l(1) by auto
  have open_fits: "(if sh_open c then length long < length ps else length ps = length long) \<longleftrightarrow>
     (if sh_open a then length (sh_fixed a) < length ps else length ps = length (sh_fixed a)) \<and>
     (if sh_open b then length (sh_fixed b) < length ps else length ps = length (sh_fixed b))"
    using overlap l(2,3) c(2) by (auto simp: shape_overlaps_nth split: bool.splits if_splits)
  show "shape_takes pdec c ps \<longleftrightarrow> shape_takes pdec a ps \<and> shape_takes pdec b ps"
    unfolding shape_takes_def c(1) narrowed_length open_fits narrowed_takes [OF l(3,4) plain] using l(2) by auto
qed

section \<open>A path for every list of segments\<close>

definition path_of :: "string list \<Rightarrow> string" where
  "path_of ps = CHR ''/'' # join_on (CHR ''/'') ps"

lemma map_snd_with_offsets [simp]: "map snd (with_offsets n ps) = ps"
  by (induction ps arbitrary: n) simp_all

lemma join_on_last:
  "ps \<noteq> [] \<Longrightarrow> (\<And>p. p \<in> set ps \<Longrightarrow> plain_piece p) \<Longrightarrow> join_on (CHR ''/'') ps \<noteq> [] \<and> last (join_on (CHR ''/'') ps) \<noteq> CHR ''/''"
proof (induction "CHR ''/''" ps rule: join_on.induct)
  case (2 p)
  then have "p \<noteq> []" "CHR ''/'' \<notin> set p" by (simp_all add: plain_piece_def)
  then show ?case using last_in_set [of p] by (metis join_on.simps(2))
qed auto

lemma strip_suffix_none: "s \<noteq> [] \<Longrightarrow> last s \<noteq> c \<Longrightarrow> strip_suffix [c] s = None"
  by (cases s rule: rev_cases) (auto simp: strip_suffix_def strip_prefix_def)

lemma path_segments_path_of:
  assumes "\<forall>p \<in> set ps. plain_piece p"
  shows "path_segments (path_of ps) = ps"
proof (cases "ps = []")
  case True then show ?thesis by (simp add: path_segments_def path_of_def normalize_def strip_suffix_def strip_prefix_def split_path_def)
next
  case False
  note last = join_on_last [OF False] and plain = assms [unfolded plain_piece_def]
  have "normalize (path_of ps) = path_of ps"
    using last assms strip_suffix_none [of "path_of ps" "CHR ''/''"] by (simp add: normalize_def path_of_def)
  then show ?thesis using last assms plain split_join [OF False, of "CHR ''/''"]
    by (simp add: path_segments_def path_of_def split_path_def strip_prefix_def)
qed

lemma matches_path_of:
  assumes "rest_last (pt_segments p)" "\<forall>q \<in> set ps. plain_piece q"
  shows "matches pdec p (path_of ps) \<noteq> None \<longleftrightarrow> shape_takes pdec (pattern_shape p) ps"
proof -
  have "ps ! length (sh_fixed (pattern_shape p)) \<noteq> []" if "shape_takes pdec (pattern_shape p) ps" "sh_open (pattern_shape p)"
    using that assms(2) nth_mem [of "length (sh_fixed (pattern_shape p))" ps] unfolding shape_takes_def plain_piece_def by auto
  then show ?thesis using matches_takes [OF assms(1)] path_segments_path_of [OF assms(2)] by auto
qed

lemma covers_path_of: "\<forall>q \<in> set ps. plain_piece q \<Longrightarrow> covers_path pdec s (path_of ps) \<longleftrightarrow> shape_takes pdec (scope_shape s) ps"
  by (simp add: covers_path_takes path_segments_path_of)

lemma shared_with_overlaps: "scope_overlaps s p \<longleftrightarrow> (\<exists>c. shared_with s p = Some c)"
  by (auto simp: shared_with_def shape_intersection_def scope_overlaps_def Let_def split: prod.splits)

section \<open>Scopes against routes\<close>

text \<open>
  C22. A scope written \<open>for_path\<close> covers a route exactly when it takes every path the route matches. Both
  patterns are written without a percent escape. The percent decoder is a parameter that leaves text with no
  \<open>%\<close> as it is.
\<close>

theorem scope_covers_exact:
  assumes "decodes_escapes pdec" "CHR ''%'' \<notin> set t" "CHR ''%'' \<notin> set u"
    "scope_parse pdec t = Inr s" "pattern_parse pdec u = Inr p"
  shows "scope_covers s p \<longleftrightarrow> (\<forall>path. matches pdec p path \<noteq> None \<longrightarrow> covers_path pdec s path)"
proof
  note route = pattern_parse_plain [OF assms(1,3,5)]
  show "\<forall>path. matches pdec p path \<noteq> None \<longrightarrow> covers_path pdec s path" if "scope_covers s p"
    using that shape_contains_sound route(2) matches_takes [OF route(1)] covers_path_takes
    unfolding scope_covers_def by blast
next
  note route = pattern_parse_plain [OF assms(1,3,5)] and scope = scope_parse_plain [OF assms(1,2,4)]
  assume all: "\<forall>path. matches pdec p path \<noteq> None \<longrightarrow> covers_path pdec s path"
  show "scope_covers s p"
  proof (rule ccontr)
    assume "\<not> scope_covers s p"
    then obtain ps where ps: "\<forall>q \<in> set ps. plain_piece q" "shape_takes pdec (pattern_shape p) ps" "\<not> shape_takes pdec (scope_shape s) ps"
      using shape_contains_complete [OF _ scope route(2)] unfolding scope_covers_def by blast
    then show False using all matches_path_of [OF route(1) ps(1)] covers_path_of [OF ps(1)] by blast
  qed
qed

theorem scope_covers_exact_witness:
  "scope_covers \<lparr>sp_raw = ''/api/*'', sp_segments = [SegStatic ''api''], sp_wildcard = True\<rparr>
     \<lparr>pt_raw = ''/api/{id}'', pt_segments = [SegStatic ''api'', SegParam ''id'']\<rparr> \<and>
   covers_path (\<lambda>s. s) \<lparr>sp_raw = ''/api/*'', sp_segments = [SegStatic ''api''], sp_wildcard = True\<rparr> ''/api/7''"
proof -
  have "scope_parse (\<lambda>s. s) ''/api/*'' = Inr \<lparr>sp_raw = ''/api/*'', sp_segments = [SegStatic ''api''], sp_wildcard = True\<rparr>"
    by code_simp
  moreover have "pattern_parse (\<lambda>s. s) ''/api/{id}'' = Inr \<lparr>pt_raw = ''/api/{id}'', pt_segments = [SegStatic ''api'', SegParam ''id'']\<rparr>"
    by code_simp
  moreover have "decodes_escapes (\<lambda>s. s)" by (simp add: decodes_escapes_def)
  moreover have "matches (\<lambda>s. s) \<lparr>pt_raw = ''/api/{id}'', pt_segments = [SegStatic ''api'', SegParam ''id'']\<rparr> ''/api/7'' \<noteq> None"
    by code_simp
  moreover have "scope_covers \<lparr>sp_raw = ''/api/*'', sp_segments = [SegStatic ''api''], sp_wildcard = True\<rparr>
     \<lparr>pt_raw = ''/api/{id}'', pt_segments = [SegStatic ''api'', SegParam ''id'']\<rparr>" by code_simp
  ultimately show ?thesis using scope_covers_exact [of "\<lambda>s. s" "''/api/*''" "''/api/{id}''"] by simp
qed

text \<open>
  C23. For a scope and a route written without a percent escape: the scope overlaps the route exactly when some path is
  taken by the scope and matched by the route. The shape the pre-dispatch check calls shared takes, of the paths the
  route matches, exactly those the scope takes, and a path with no empty segment that it takes is one the route
  matches and the scope takes.
\<close>

theorem scope_overlaps_exact:
  assumes "decodes_escapes pdec" "CHR ''%'' \<notin> set t" "CHR ''%'' \<notin> set u"
    "scope_parse pdec t = Inr s" "pattern_parse pdec u = Inr p"
  shows "(scope_overlaps s p \<longleftrightarrow> (\<exists>path. matches pdec p path \<noteq> None \<and> covers_path pdec s path)) \<and>
    (\<forall>path. matches pdec p path \<noteq> None \<longrightarrow>
      (covers_path pdec s path \<longleftrightarrow> (\<exists>c. shared_with s p = Some c \<and> shape_takes pdec c (path_segments path)))) \<and>
    (\<forall>path c. shared_with s p = Some c \<longrightarrow> shape_takes pdec c (path_segments path) \<longrightarrow> [] \<notin> set (path_segments path) \<longrightarrow>
      matches pdec p path \<noteq> None \<and> covers_path pdec s path)"
proof (intro conjI allI iffI impI)
  note route = pattern_parse_plain [OF assms(1,3,5)] and scope = scope_parse_plain [OF assms(1,2,4)]
  note exact = shape_intersection_exact [OF scope route(2), folded shared_with_def]
  note shared = shared_with_overlaps [of s p]
  show "\<exists>path. matches pdec p path \<noteq> None \<and> covers_path pdec s path" if overlap: "scope_overlaps s p"
  proof -
    obtain c where c: "shared_with s p = Some c" using overlap shared by blast
    let ?ps = "witness_path [] (sh_fixed c) @ (if sh_open c then [''x''] else [])"
    have ps: "\<forall>q \<in> set ?ps. plain_piece q" using witness_path_plain [of "sh_fixed c" "[]"] exact(1) [OF c]
      by (auto simp: plain_shape_def) (simp_all add: plain_piece_def)
    have "shape_takes pdec c ?ps" by (rule shape_takes_witness [OF exact(1) [OF c]]) simp
    then show ?thesis using exact(2) [OF c] matches_path_of [OF route(1) ps] covers_path_of [OF ps] by blast
  qed
  show "scope_overlaps s p" if "\<exists>path. matches pdec p path \<noteq> None \<and> covers_path pdec s path"
    using that shape_overlaps_taken [OF assms(1) scope route(2)] matches_takes [OF route(1)] covers_path_takes
    unfolding scope_overlaps_def by blast
  show "\<exists>c. shared_with s p = Some c \<and> shape_takes pdec c (path_segments path)"
    if "matches pdec p path \<noteq> None" "covers_path pdec s path" for path
    using that shape_overlaps_taken [OF assms(1) scope route(2)] shared exact(2) matches_takes [OF route(1)]
    unfolding covers_path_takes scope_overlaps_def by blast
  show "covers_path pdec s path"
    if "\<exists>c. shared_with s p = Some c \<and> shape_takes pdec c (path_segments path)" for path
    using that exact(2) unfolding covers_path_takes by blast
  show "covers_path pdec s path" "matches pdec p path \<noteq> None"
    if c: "shared_with s p = Some c" "shape_takes pdec c (path_segments path)" and full: "[] \<notin> set (path_segments path)" for path c
  proof -
    have both: "shape_takes pdec (scope_shape s) (path_segments path)" "shape_takes pdec (pattern_shape p) (path_segments path)"
      using exact(2) [OF c(1)] c(2) by blast+
    then show "covers_path pdec s path" by (simp add: covers_path_takes)
    have "path_segments path ! length (sh_fixed (pattern_shape p)) \<noteq> []" if "sh_open (pattern_shape p)"
      using that both(2) full nth_mem [of "length (sh_fixed (pattern_shape p))" "path_segments path"] unfolding shape_takes_def by metis
    then show "matches pdec p path \<noteq> None" using both(2) matches_takes [OF route(1)] by blast
  qed
qed

theorem scope_overlaps_exact_witness:
  "scope_overlaps \<lparr>sp_raw = ''/api/*'', sp_segments = [SegStatic ''api''], sp_wildcard = True\<rparr>
     \<lparr>pt_raw = ''/{tenant}/{id}'', pt_segments = [SegParam ''tenant'', SegParam ''id'']\<rparr>"
proof -
  have scope: "scope_parse (\<lambda>s. s) ''/api/*'' = Inr \<lparr>sp_raw = ''/api/*'', sp_segments = [SegStatic ''api''], sp_wildcard = True\<rparr>"
    by code_simp
  have route: "pattern_parse (\<lambda>s. s) ''/{tenant}/{id}'' =
      Inr \<lparr>pt_raw = ''/{tenant}/{id}'', pt_segments = [SegParam ''tenant'', SegParam ''id'']\<rparr>"
    by code_simp
  have "decodes_escapes (\<lambda>s. s)" by (simp add: decodes_escapes_def)
  note exact = scope_overlaps_exact [OF this _ _ scope route, THEN conjunct1]
  have "matches (\<lambda>s. s) \<lparr>pt_raw = ''/{tenant}/{id}'', pt_segments = [SegParam ''tenant'', SegParam ''id'']\<rparr> ''/api/7'' \<noteq> None \<and>
     covers_path (\<lambda>s. s) \<lparr>sp_raw = ''/api/*'', sp_segments = [SegStatic ''api''], sp_wildcard = True\<rparr> ''/api/7''"
    by code_simp
  then show ?thesis by (subst exact) (simp, simp, blast)
qed

text \<open>
  The comparison reads the text a static segment decodes to, while a request path is matched raw as well as
  decoded. A route that writes an escaped percent matches a path the scope matches decoded, and the two are
  compared as sharing none.
\<close>

lemma escaped_percent_missed:
  assumes "pdec ''a%2541'' = ''a%41''" "pdec ''a%41'' = ''aA''" "pdec ''aA'' = ''aA''"
  shows "\<exists>s p. scope_parse pdec ''/aA'' = Inr s \<and> pattern_parse pdec ''/a%2541'' = Inr p \<and> \<not> scope_overlaps s p \<and>
    matches pdec p ''/a%41'' \<noteq> None \<and> covers_path pdec s ''/a%41''"
proof -
  have dec: "decode pdec ''a%2541'' = ''a%41''" "decode pdec ''a%41'' = ''aA''" "decode pdec ''aA'' = ''aA''"
    by (subst decode.simps; simp add: assms is_encoded_slash_def)+
  have scope: "scope_parse pdec ''/aA'' = Inr \<lparr>sp_raw = ''/aA'', sp_segments = [SegStatic ''aA''], sp_wildcard = False\<rparr>"
    by (simp add: scope_parse_def parse_segments_def normalize_def strip_suffix_def strip_prefix_def parse_piece_def dec Let_def)
  have route: "pattern_parse pdec ''/a%2541'' = Inr \<lparr>pt_raw = ''/a%2541'', pt_segments = [SegStatic ''a%41'']\<rparr>"
    by (simp add: pattern_parse_def parse_segments_def normalize_def strip_suffix_def strip_prefix_def parse_piece_def dec)
  have "matches pdec \<lparr>pt_raw = ''/a%2541'', pt_segments = [SegStatic ''a%41'']\<rparr> ''/a%41'' \<noteq> None"
    "covers_path pdec \<lparr>sp_raw = ''/aA'', sp_segments = [SegStatic ''aA''], sp_wildcard = False\<rparr> ''/a%41''"
    by (simp_all add: matches_def match_split_def covers_path_def normalize_def strip_suffix_def strip_prefix_def split_path_def
        static_matches_def get_nth_def dec Let_def)
  moreover have "\<not> scope_overlaps \<lparr>sp_raw = ''/aA'', sp_segments = [SegStatic ''aA''], sp_wildcard = False\<rparr>
      \<lparr>pt_raw = ''/a%2541'', pt_segments = [SegStatic ''a%41'']\<rparr>" by code_simp
  ultimately show ?thesis using scope route by blast
qed

end
