(* ===== verification/Stage_Laws.thy ===== *)
theory Stage_Laws
  imports Pre_Dispatch Route_Laws
begin

text \<open>
  What a route's scoped stage runs. Each entry is decided once per route where the scopes allow it and per
  request otherwise; both give the entries whose filter admits the request path. The entries then run in the order declared
  around the rest of the request.
\<close>

section \<open>The stage as built\<close>

definition plain_covering :: "covering \<Rightarrow> bool" where
  "plain_covering c \<longleftrightarrow> (\<forall>s \<in> set (cv_scope c) \<union> set (cv_exclude c). plain_shape (scope_shape s))"

definition step_id :: "stage_step \<Rightarrow> nat \<times> nat" where
  "step_id s = (ss_ptr s, ss_index s)"

definition fresh_choice :: "pattern \<Rightarrow> covering \<Rightarrow> path_filter option option" where
  "fresh_choice p c = fst (cover_entry p c [])"

lemma cover_entry_choice: "fst (cover_entry p c reached) = fresh_choice p c"
  by (simp add: fresh_choice_def cover_entry_def Let_def)

text \<open>A handed-out stage holds entries of the stage, each with no filter or its own.\<close>

definition taken_from :: "stage \<Rightarrow> scoped_stage \<Rightarrow> bool" where
  "taken_from st s \<longleftrightarrow>
     (\<exists>covered. set (map fst covered) \<subseteq> {..<length (sg_covering st)} \<and>
        (\<forall>(i, f) \<in> set covered. f \<noteq> None \<longrightarrow> f = Some (covering_filter (sg_covering st ! i))) \<and>
        s = \<lparr>sc_steps = map (\<lambda>(i, _). sg_scoped st ! i) covered, sc_filters = map snd covered,
             sc_run = map (\<lambda>(i, _). cv_runnable (sg_covering st ! i)) covered\<rparr>)"

definition stage_wf :: "stage \<Rightarrow> bool" where
  "stage_wf st \<longleftrightarrow>
     length (sg_scoped st) = length (sg_covering st) \<and> length (sg_reached st) = length (sg_covering st) \<and>
     distinct (map step_id (sg_scoped st)) \<and> (\<forall>c \<in> set (sg_covering st). plain_covering c) \<and>
     (\<forall>s \<in> set (sg_shared st). taken_from st s) \<and>
     (\<forall>i < length (sg_covering st). length (sg_reached st ! i) = length (cv_scope (sg_covering st ! i)))"

definition covered_stage :: "stage \<Rightarrow> pattern \<Rightarrow> scoped_stage" where
  "covered_stage st p =
     \<lparr>sc_steps = map (\<lambda>(i, _). sg_scoped st ! i) (covered_entries st p), sc_filters = map snd (covered_entries st p),
      sc_run = map (\<lambda>(i, _). cv_runnable (sg_covering st ! i)) (covered_entries st p)\<rparr>"

lemma set_covered:
  "(i, f) \<in> set (covered_entries st p) \<longleftrightarrow>
     i < length (sg_covering st) \<and> i < length (sg_reached st) \<and> fresh_choice p (sg_covering st ! i) = Some f"
  by (auto simp: covered_entries_def map_filter_def in_set_enumerate_eq cover_entry_choice image_iff)

lemma fresh_choice_filter: "fresh_choice p c = Some (Some f) \<Longrightarrow> f = covering_filter c"
  by (auto simp: fresh_choice_def cover_entry_def Let_def split: if_splits)

lemma covered_taken: "taken_from st (covered_stage st p)"
  unfolding taken_from_def covered_stage_def
  by (intro exI [of _ "covered_entries st p"]) (auto simp: set_covered dest: fresh_choice_filter)

lemma holds_same:
  assumes wf: "stage_wf st" and taken: "taken_from st s"
    and holds: "holds s (sc_steps (covered_stage st p)) (sc_filters (covered_stage st p))"
  shows "s = covered_stage st p"
proof -
  let ?c = "covered_entries st p"
  obtain covered where c: "set (map fst covered) \<subseteq> {..<length (sg_covering st)}"
      "\<forall>(i, f) \<in> set covered. f \<noteq> None \<longrightarrow> f = Some (covering_filter (sg_covering st ! i))"
      "s = \<lparr>sc_steps = map (\<lambda>(i, _). sg_scoped st ! i) covered, sc_filters = map snd covered,
             sc_run = map (\<lambda>(i, _). cv_runnable (sg_covering st ! i)) covered\<rparr>"
    using taken unfolding taken_from_def by blast
  have len: "length covered = length ?c" using holds by (simp add: holds_def c(3) covered_stage_def)
  have "covered ! k = ?c ! k" if k: "k < length covered" for k
  proof -
    obtain i f j g where e: "covered ! k = (i, f)" "?c ! k = (j, g)" by (meson surj_pair)
    have "(i, f) \<in> set covered" "(j, g) \<in> set ?c" using k len e nth_mem by metis+
    then have in_range: "i < length (sg_covering st)" "j < length (sg_covering st)"
      "f \<noteq> None \<Longrightarrow> f = Some (covering_filter (sg_covering st ! i))" "g \<noteq> None \<Longrightarrow> g = Some (covering_filter (sg_covering st ! j))"
      using c(1,2) fresh_choice_filter by (fastforce simp: set_covered)+
    have same: "step_id (sg_scoped st ! i) = step_id (sg_scoped st ! j)" "(f \<noteq> None) = (g \<noteq> None)"
      using holds k len e by (auto simp: holds_def c(3) covered_stage_def list_all_zip step_id_def)
    have "i = j" using wf same(1) in_range(1,2) nth_eq_iff_index_eq [of "map step_id (sg_scoped st)" i j] by (simp add: stage_wf_def)
    then show ?thesis using e in_range(3,4) same(2) by auto
  qed
  then have "covered = ?c" using len by (simp add: nth_equalityI)
  then show ?thesis by (simp add: c(3) covered_stage_def)
qed

text \<open>Handing out an earlier stage again is not visible in what the route gets.\<close>

lemma scoped_for_fresh:
  assumes "stage_wf st"
  shows "fst (scoped_for st p) = covered_stage st p"
proof (cases "find (\<lambda>s. holds s (sc_steps (covered_stage st p)) (sc_filters (covered_stage st p))) (sg_shared st)")
  case None
  then show ?thesis by (simp add: scoped_for_def Let_def covered_stage_def)
next
  case (Some s)
  then have "s \<in> set (sg_shared st)" "holds s (sc_steps (covered_stage st p)) (sc_filters (covered_stage st p))"
    by (auto simp: find_Some_iff)
  then have "s = covered_stage st p" using holds_same assms by (auto simp: stage_wf_def)
  then show ?thesis using Some by (simp add: scoped_for_def Let_def covered_stage_def)
qed

definition mark_reached :: "stage \<Rightarrow> pattern \<Rightarrow> bool list list" where
  "mark_reached st p = map (\<lambda>(c, reached). snd (cover_entry p c reached)) (zip (sg_covering st) (sg_reached st))"

lemma scoped_for_state:
  "\<exists>shared. snd (scoped_for st p) = st\<lparr>sg_reached := mark_reached st p, sg_shared := shared\<rparr> \<and>
     set shared \<subseteq> insert (covered_stage st p) (set (sg_shared st))"
proof (cases "find (\<lambda>s. holds s (sc_steps (covered_stage st p)) (sc_filters (covered_stage st p))) (sg_shared st)")
  case None
  then show ?thesis by (intro exI [of _ "sg_shared st @ [covered_stage st p]"])
    (simp add: scoped_for_def Let_def covered_stage_def mark_reached_def)
next
  case (Some s)
  then show ?thesis by (intro exI [of _ "sg_shared st"]) (auto simp: scoped_for_def Let_def covered_stage_def mark_reached_def)
qed

lemma scoped_for_keeps:
  "sg_covering (snd (scoped_for st p)) = sg_covering st" "sg_scoped (snd (scoped_for st p)) = sg_scoped st"
  "sg_unrouted (snd (scoped_for st p)) = sg_unrouted st" "sg_reached (snd (scoped_for st p)) = mark_reached st p"
  using scoped_for_state [of st p] by auto

lemma cover_entry_length: "length reached = length (cv_scope c) \<Longrightarrow> length (snd (cover_entry p c reached)) = length (cv_scope c)"
  by (simp add: cover_entry_def Let_def)

lemma scoped_for_wf:
  assumes "stage_wf st"
  shows "stage_wf (snd (scoped_for st p))"
proof -
  obtain shared where s: "snd (scoped_for st p) = st\<lparr>sg_reached := mark_reached st p, sg_shared := shared\<rparr>"
    "set shared \<subseteq> insert (covered_stage st p) (set (sg_shared st))" using scoped_for_state by blast
  have "taken_from (st\<lparr>sg_reached := r, sg_shared := q\<rparr>) x = taken_from st x" for r q x by (simp add: taken_from_def)
  then show ?thesis using assms s(2) covered_taken [of st p] cover_entry_length
    unfolding stage_wf_def s(1) by (auto simp: mark_reached_def)
qed

definition routes_taken :: "pattern list \<Rightarrow> stage \<Rightarrow> stage" where
  "routes_taken ps st = fold (\<lambda>p st. snd (scoped_for st p)) ps st"

lemma routes_taken_wf: "stage_wf st \<Longrightarrow> stage_wf (routes_taken ps st)"
  by (induction ps arbitrary: st) (simp_all add: routes_taken_def scoped_for_wf)

lemma routes_taken_keeps:
  "sg_covering (routes_taken ps st) = sg_covering st" "sg_scoped (routes_taken ps st) = sg_scoped st"
  "sg_unrouted (routes_taken ps st) = sg_unrouted st"
  by (induction ps arbitrary: st) (simp_all add: routes_taken_def scoped_for_keeps)

section \<open>Building\<close>

definition plain_text :: "string \<Rightarrow> bool" where
  "plain_text t \<longleftrightarrow> CHR ''%'' \<notin> set t"

definition plain_meta :: "pre_dispatch \<Rightarrow> bool" where
  "plain_meta meta \<longleftrightarrow> list_all (\<lambda>e. list_all plain_text (en_scope e) \<and> list_all plain_text (en_exclude e)) (pd_entries meta)"

lemma scopes_of_parsed: "s \<in> set (fst (scopes_of pdec patterns what routed at failures)) \<Longrightarrow> \<exists>t \<in> set patterns. scope_parse pdec t = Inr s"
proof (induction patterns arbitrary: failures)
  case Nil then show ?case by simp
next
  case (Cons pattern patterns)
  show ?case
  proof (cases "scope_parse pdec pattern")
    case (Inl err)
    then show ?thesis using Cons by (auto simp: Let_def case_prod_beta)
  next
    case (Inr parsed)
    then show ?thesis using Cons.prems Cons.IH
      by (cases "if routed then unreachable_segment (sp_raw parsed) (sp_segments parsed) else None") (auto simp: Let_def case_prod_beta)
  qed
qed

lemma scopes_of_plain:
  assumes "decodes_escapes pdec" "list_all plain_text patterns" "scopes_of pdec patterns what routed at failures = (scopes, failures')"
  shows "\<forall>s \<in> set scopes. plain_shape (scope_shape s)"
  using assms(2,3) scopes_of_parsed [of _ pdec patterns what routed at failures] scope_parse_plain [OF assms(1)]
  by (fastforce simp: list_all_iff plain_text_def)

definition built_wf :: "stage \<Rightarrow> bool" where
  "built_wf st \<longleftrightarrow>
     length (sg_scoped st) = length (sg_covering st) \<and>
     map length (sg_reached st) = map (\<lambda>c. length (cv_scope c)) (sg_covering st) \<and>
     (\<forall>c \<in> set (sg_covering st). plain_covering c) \<and> sg_shared st = []"

definition scoped_ids :: "nat \<Rightarrow> nat \<Rightarrow> pd_entry list \<Rightarrow> (nat \<times> nat) list" where
  "scoped_ids ptr k es = map (\<lambda>(i, _). (ptr, i)) (filter (\<lambda>(_, e). en_scoped e) (List.enumerate k es))"

lemma build_entry_wf:
  assumes "decodes_escapes pdec" "list_all plain_text (en_scope e) \<and> list_all plain_text (en_exclude e)" "built_wf st"
    "build_entry pdec http m ptr meta (index, e) (st, failures) = (st', failures')"
  shows "built_wf st' \<and> map step_id (sg_scoped st') = map step_id (sg_scoped st) @ (if en_scoped e then [(ptr, index)] else [])"
proof -
  obtain exclude failures1 where ex: "scopes_of pdec (en_exclude e) ''exclusion'' http (en_location e) (failures @ check_failures e) = (exclude, failures1)"
    by (meson surj_pair)
  have plain_ex: "\<forall>s \<in> set exclude. plain_shape (scope_shape s)" using scopes_of_plain [OF assms(1) _ ex] assms(2) by blast
  show ?thesis
  proof (cases "en_scoped e")
    case False
    then show ?thesis using assms(3,4) ex by (auto simp: build_entry_def built_wf_def split: option.splits)
  next
    case True
    define failures2 where "failures2 = (if en_scope e = []
                 then failures1 @ [failure_because EmptyScope
                        (stray_failure ''pre-dispatch entry at '' ('' '' @ unreached_text EmptyScope) (en_location e))]
                 else failures1)"
    obtain scope failures3 where sc: "scopes_of pdec (en_scope e) ''scope'' http (en_location e) failures2 = (scope, failures3)"
      by (meson surj_pair)
    have plain_sc: "\<forall>s \<in> set scope. plain_shape (scope_shape s)" using scopes_of_plain [OF assms(1) _ sc] assms(2) by blast
    show ?thesis using True assms(3,4) ex sc plain_ex plain_sc
      by (auto simp: build_entry_def built_wf_def failures2_def [symmetric] plain_covering_def step_id_def stage_flags_def)
  qed
qed

lemma build_entries_wf:
  assumes "decodes_escapes pdec" "list_all (\<lambda>e. list_all plain_text (en_scope e) \<and> list_all plain_text (en_exclude e)) es" "built_wf st"
    "fold (build_entry pdec http m ptr meta) (List.enumerate k es) (st, failures) = (st', failures')"
  shows "built_wf st' \<and> map step_id (sg_scoped st') = map step_id (sg_scoped st) @ scoped_ids ptr k es"
  using assms(2-)
proof (induction es arbitrary: k st failures)
  case Nil then show ?case by (simp add: scoped_ids_def)
next
  case (Cons e es)
  obtain st1 failures1 where b: "build_entry pdec http m ptr meta (k, e) (st, failures) = (st1, failures1)" by (meson surj_pair)
  note one = build_entry_wf [OF assms(1) _ Cons.prems(2) b]
  have "built_wf st' \<and> map step_id (sg_scoped st') = map step_id (sg_scoped st1) @ scoped_ids ptr (Suc k) es"
    using Cons.IH [of st1 "Suc k" failures1] Cons.prems one b by simp
  then show ?case using one Cons.prems(1) by (simp add: scoped_ids_def)
qed

lemma build_metas_wf:
  assumes "decodes_escapes pdec" "list_all (\<lambda>(_, _, meta). plain_meta meta) metas" "built_wf st"
    "fold (build_meta pdec http) metas (st, failures) = (st', failures')"
  shows "built_wf st' \<and> map step_id (sg_scoped st') =
    map step_id (sg_scoped st) @ concat (map (\<lambda>(_, ptr, meta). scoped_ids ptr 0 (pd_entries meta)) metas)"
  using assms(2-)
proof (induction metas arbitrary: st failures)
  case Nil then show ?case by simp
next
  case (Cons x metas)
  obtain m ptr meta where x: "x = (m, ptr, meta)" by (metis surj_pair)
  obtain st1 failures1 where b: "build_meta pdec http x (st, failures) = (st1, failures1)" by (meson surj_pair)
  have one: "built_wf st1 \<and> map step_id (sg_scoped st1) = map step_id (sg_scoped st) @ scoped_ids ptr 0 (pd_entries meta)"
    by (rule build_entries_wf [OF assms(1) _ Cons.prems(2)]) (use Cons.prems(1) b in \<open>auto simp: x plain_meta_def build_meta_def\<close>)
  then show ?case using Cons.IH [of st1 failures1] Cons.prems b by (simp add: x)
qed

lemma distinct_scoped_ids:
  assumes "distinct (map (\<lambda>(_, ptr, _). ptr) metas)"
  shows "distinct (concat (map (\<lambda>(_, ptr, meta). scoped_ids ptr 0 (pd_entries meta)) metas))"
  using assms
proof (induction metas)
  case Nil then show ?case by simp
next
  case (Cons x metas)
  obtain m ptr meta where x: "x = (m, ptr, meta)" by (metis surj_pair)
  have fst_ids: "q \<in> set (scoped_ids r 0 es) \<Longrightarrow> fst q = r" for q r es by (auto simp: scoped_ids_def)
  have "distinct (scoped_ids ptr 0 (pd_entries meta))"
    using distinct_enumerate [of 0 "pd_entries meta"]
    by (auto simp: scoped_ids_def distinct_map inj_on_def in_set_enumerate_eq intro: distinct_filter)
  moreover have "q \<notin> set (concat (map (\<lambda>(_, ptr, meta). scoped_ids ptr 0 (pd_entries meta)) metas))"
    if "q \<in> set (scoped_ids ptr 0 (pd_entries meta))" for q
  proof
    assume "q \<in> set (concat (map (\<lambda>(_, ptr, meta). scoped_ids ptr 0 (pd_entries meta)) metas))"
    then obtain y where y: "y \<in> set metas" "q \<in> set (scoped_ids (fst (snd y)) 0 (pd_entries (snd (snd y))))"
      by (auto split: prod.splits)
    then have "fst (snd y) = ptr" using fst_ids [OF that] fst_ids [OF y(2)] by simp
    then have "ptr \<in> (\<lambda>(_, ptr, _). ptr) ` set metas" using y(1) by (force simp: case_prod_beta)
    then show False using Cons.prems by (simp add: x)
  qed
  moreover have "distinct (concat (map (\<lambda>(_, ptr, meta). scoped_ids ptr 0 (pd_entries meta)) metas))" using Cons by (simp add: x)
  ultimately show ?case unfolding x list.map concat.simps prod.case distinct_append by blast
qed

lemma stage_build_wf:
  assumes "decodes_escapes pdec" "list_all (\<lambda>(_, _, meta). plain_meta meta) metas" "distinct (map (\<lambda>(_, ptr, _). ptr) metas)"
    "stage_build pdec http metas = Inr st"
  shows "stage_wf st" "sg_unrouted st = \<lparr>sc_steps = sg_scoped st, sc_filters = map (\<lambda>c. Some (covering_filter c)) (sg_covering st),
            sc_run = map cv_runnable (sg_covering st)\<rparr>"
    "map length (sg_reached st) = map (\<lambda>c. length (cv_scope c)) (sg_covering st)"
proof -
  obtain st1 failures1 where b: "fold (build_meta pdec http) metas (stage_empty, []) = (st1, failures1)" by (meson surj_pair)
  have "built_wf stage_empty" by (simp add: built_wf_def stage_empty_def)
  note inv = build_metas_wf [OF assms(1,2) this b]
  have st: "st = st1\<lparr>sg_unrouted := \<lparr>sc_steps = sg_scoped st1, sc_filters = map (\<lambda>c. Some (covering_filter c)) (sg_covering st1),
            sc_run = map cv_runnable (sg_covering st1)\<rparr>\<rparr>"
    using assms(4) b by (auto simp: stage_build_def Let_def split: if_splits)
  have len: "length (sg_reached st1) = length (sg_covering st1)" using inv by (metis built_wf_def length_map)
  have "length (sg_reached st1 ! i) = length (cv_scope (sg_covering st1 ! i))" if "i < length (sg_covering st1)" for i
    using inv that len by (metis (no_types, lifting) built_wf_def nth_map)
  then show "stage_wf st" using inv len distinct_scoped_ids [OF assms(3)]
    by (simp add: stage_wf_def st built_wf_def) (simp add: stage_empty_def)
  show "sg_unrouted st = \<lparr>sc_steps = sg_scoped st, sc_filters = map (\<lambda>c. Some (covering_filter c)) (sg_covering st),
            sc_run = map cv_runnable (sg_covering st)\<rparr>" by (simp add: st)
  show "map length (sg_reached st) = map (\<lambda>c. length (cv_scope c)) (sg_covering st)" using inv by (simp add: st built_wf_def)
qed

section \<open>Which entries run\<close>

lemma runnable_for_filter:
  assumes "length (sc_run s) = length (sc_filters s)"
  shows "runnable_for pdec s path =
    map fst (filter (\<lambda>(_, f). case f of None \<Rightarrow> True | Some f \<Rightarrow> admits pdec f path) (zip (sc_run s) (sc_filters s)))"
proof (cases "list_all (\<lambda>f. f = None) (sc_filters s)")
  case True
  then have "filter (\<lambda>(_, f). case f of None \<Rightarrow> True | Some f \<Rightarrow> admits pdec f path) (zip (sc_run s) (sc_filters s)) = zip (sc_run s) (sc_filters s)"
    by (intro filter_True) (auto simp: list_all_iff split: option.splits dest!: set_zip_rightD)
  then show ?thesis using True assms by (simp add: runnable_for_def)
qed (simp add: runnable_for_def)

lemma runnable_for_covered:
  "runnable_for pdec (covered_stage st p) path =
     map (\<lambda>(i, _). cv_runnable (sg_covering st ! i))
       (filter (\<lambda>(_, f). case f of None \<Rightarrow> True | Some f \<Rightarrow> admits pdec f path) (covered_entries st p))"
proof -
  have "map fst (filter (\<lambda>(_, f). Q f) (zip (map g xs) (map snd xs))) = map g (filter (\<lambda>(_, f). Q f) xs)"
    for Q and g :: "nat \<times> path_filter option \<Rightarrow> runnable" and xs by (induction xs) auto
  then show ?thesis by (subst runnable_for_filter) (simp_all add: covered_stage_def)
qed

text \<open>The decision made once per route agrees with the one made per path of that route.\<close>

lemma fresh_choice_admits:
  assumes "decodes_escapes pdec" "plain_covering c" "rest_last (pt_segments p)" "plain_shape (pattern_shape p)" "matches pdec p path \<noteq> None"
  shows "case fresh_choice p c of None \<Rightarrow> \<not> admits pdec (covering_filter c) path | Some None \<Rightarrow> admits pdec (covering_filter c) path
    | Some (Some f) \<Rightarrow> f = covering_filter c"
proof -
  have path: "shape_takes pdec (pattern_shape p) (path_segments path)" using assms(5) matches_takes [OF assms(3)] by blast
  have covers: "covers_path pdec s path" if "scope_covers s p" for s
    using that shape_contains_sound assms(4) path unfolding scope_covers_def covers_path_takes by blast
  have overlaps: "scope_overlaps s p" if "covers_path pdec s path" "s \<in> set (cv_scope c) \<union> set (cv_exclude c)" for s
    using that shape_overlaps_taken [OF assms(1) _ assms(4) _ path] assms(2) unfolding scope_overlaps_def covers_path_takes plain_covering_def by blast
  show ?thesis using covers overlaps
    by (auto simp: fresh_choice_def cover_entry_def takes_whole_def admits_def covering_filter_def Let_def list_ex_iff)
qed

lemma covered_filter:
  assumes "\<And>j. j < length cs \<Longrightarrow> full ! (k + j) = fst (cs ! j)"
    "\<And>c. c \<in> set (map fst cs) \<Longrightarrow> case fresh_choice p c of None \<Rightarrow> \<not> admits pdec (covering_filter c) path | Some None \<Rightarrow> admits pdec (covering_filter c) path
       | Some (Some f) \<Rightarrow> f = covering_filter c"
  shows "map (\<lambda>(i, _). cv_runnable (full ! i)) (filter (\<lambda>(_, f). case f of None \<Rightarrow> True | Some f \<Rightarrow> admits pdec f path)
      (List.map_filter (\<lambda>(index, c, reached). map_option (\<lambda>f. (index, f)) (fst (cover_entry p c reached))) (List.enumerate k cs))) =
    map cv_runnable (filter (\<lambda>c. admits pdec (covering_filter c) path) (map fst cs))"
  using assms
proof (induction cs arbitrary: k)
  case Nil then show ?case by simp
next
  case (Cons x cs)
  obtain c r where x: "x = (c, r)" by (cases x)
  have "full ! k = c" using Cons.prems(1) [of 0] x by simp
  moreover have "full ! (Suc k + j) = fst (cs ! j)" if "j < length cs" for j using Cons.prems(1) [of "Suc j"] that by simp
  moreover have "case fresh_choice p c of None \<Rightarrow> \<not> admits pdec (covering_filter c) path | Some None \<Rightarrow> admits pdec (covering_filter c) path
       | Some (Some f) \<Rightarrow> f = covering_filter c" using Cons.prems(2) x by simp
  moreover have "map (\<lambda>(i, _). cv_runnable (full ! i)) (filter (\<lambda>(_, f). case f of None \<Rightarrow> True | Some f \<Rightarrow> admits pdec f path)
      (List.map_filter (\<lambda>(index, c, reached). map_option (\<lambda>f. (index, f)) (fst (cover_entry p c reached))) (List.enumerate (Suc k) cs))) =
    map cv_runnable (filter (\<lambda>c. admits pdec (covering_filter c) path) (map fst cs))"
    by (rule Cons.IH) (use Cons.prems calculation(2) in auto)
  ultimately show ?case using x
    by (cases "fresh_choice p c"; cases "the (fresh_choice p c)") (simp_all add: cover_entry_choice)
qed

lemma scoped_for_admits:
  assumes "decodes_escapes pdec" "stage_wf st" "rest_last (pt_segments p)" "plain_shape (pattern_shape p)" "matches pdec p path \<noteq> None"
  shows "runnable_for pdec (fst (scoped_for st p)) path = map cv_runnable (filter (\<lambda>c. admits pdec (covering_filter c) path) (sg_covering st))"
proof -
  have len: "length (sg_reached st) = length (sg_covering st)" using assms(2) by (simp add: stage_wf_def)
  have cs: "map fst (zip (sg_covering st) (sg_reached st)) = sg_covering st" using len by simp
  have "case fresh_choice p c of None \<Rightarrow> \<not> admits pdec (covering_filter c) path | Some None \<Rightarrow> admits pdec (covering_filter c) path
       | Some (Some f) \<Rightarrow> f = covering_filter c" if "c \<in> set (sg_covering st)" for c
    using fresh_choice_admits [OF assms(1) _ assms(3-5)] that assms(2) by (simp add: stage_wf_def)
  then show ?thesis
    unfolding scoped_for_fresh [OF assms(2)] runnable_for_covered covered_entries_def
    using covered_filter [of "zip (sg_covering st) (sg_reached st)" "sg_covering st" 0 pdec path p] cs len by simp
qed

lemma unrouted_admits:
  assumes "sg_unrouted st = \<lparr>sc_steps = sg_scoped st, sc_filters = map (\<lambda>c. Some (covering_filter c)) (sg_covering st),
            sc_run = map cv_runnable (sg_covering st)\<rparr>"
  shows "runnable_for pdec (sg_unrouted st) path = map cv_runnable (filter (\<lambda>c. admits pdec (covering_filter c) path) (sg_covering st))"
proof -
  have "map fst (filter (\<lambda>(_, f). case f of None \<Rightarrow> True | Some f \<Rightarrow> admits pdec f path)
      (zip (map cv_runnable cs) (map (\<lambda>c. Some (covering_filter c)) cs))) =
    map cv_runnable (filter (\<lambda>c. admits pdec (covering_filter c) path) cs)" for cs by (induction cs) auto
  then show ?thesis by (subst runnable_for_filter) (simp_all add: assms)
qed

text \<open>
  C25. With every scope, exclusion and the route written without a percent escape, whether a scoped entry runs does not
  depend on the route table. Take a stage \<open>prepare\<close> built, and any routes that took their entries from it. A request
  that reaches a route runs the same entries, in the same order, as an unrouted request with that path would: those
  whose scopes match the path and whose exclusions do not.
\<close>

theorem scoped_stage_route_independent:
  assumes "decodes_escapes pdec" "list_all (\<lambda>(_, _, meta). plain_meta meta) metas" "distinct (map (\<lambda>(_, ptr, _). ptr) metas)"
    "stage_build pdec http metas = Inr st" "plain_text route" "pattern_parse pdec route = Inr p" "matches pdec p path \<noteq> None"
  shows "runnable_for pdec (fst (scoped_for (routes_taken earlier st) p)) path = runnable_for pdec (sg_unrouted st) path \<and>
    runnable_for pdec (sg_unrouted st) path = map cv_runnable (filter (\<lambda>c. admits pdec (covering_filter c) path) (sg_covering st))"
proof -
  note built = stage_build_wf [OF assms(1-4)]
  have plain: "CHR ''%'' \<notin> set route" using assms(5) by (simp add: plain_text_def)
  note route = pattern_parse_plain [OF assms(1) plain assms(6)]
  show ?thesis
    using scoped_for_admits [OF assms(1) routes_taken_wf [OF built(1)] route assms(7)] unrouted_admits [OF built(2)] routes_taken_keeps by simp
qed

definition admin_meta :: pre_dispatch where
  "admin_meta = pd_exclude [''/admin/health''] (''app.rs'', 4, 9) (pd_apply_for 3 [''/admin/*''] (''app.rs'', 3, 9) pre_dispatch_default)"

lemma id_decodes: "decodes_escapes (\<lambda>s. s)"
  by (simp add: decodes_escapes_def)

theorem scoped_stage_route_independent_witness:
  "runnable_for (\<lambda>s. s) (fst (scoped_for (routes_taken [] (projr (stage_build (\<lambda>s. s) True [(0, 7, admin_meta)])))
     (projr (pattern_parse (\<lambda>s. s) ''/admin/{page}'')))) ''/admin/users'' =
   [\<lparr>ru_module = 0, ru_action = ActByType 3, ru_exclude = []\<rparr>]"
proof -
  let ?st = "stage_build (\<lambda>s. s) True [(0, 7, admin_meta)]"
  let ?p = "pattern_parse (\<lambda>s. s) ''/admin/{page}''"
  have "\<not> isl ?st" by code_simp
  then have built: "?st = Inr (projr ?st)" by (cases ?st) simp_all
  have parsed: "?p = Inr (projr ?p)" by code_simp
  have matched: "matches (\<lambda>s. s) (projr ?p) ''/admin/users'' \<noteq> None" by code_simp
  have "runnable_for (\<lambda>s. s) (sg_unrouted (projr ?st)) ''/admin/users'' = [\<lparr>ru_module = 0, ru_action = ActByType 3, ru_exclude = []\<rparr>]"
    by code_simp
  moreover have "list_all (\<lambda>(_, _, meta). plain_meta meta) [(0 :: nat, 7 :: nat, admin_meta)]" by code_simp
  moreover have "plain_text ''/admin/{page}''" by code_simp
  ultimately show ?thesis
    using scoped_stage_route_independent [OF id_decodes _ _ built _ parsed matched, of "[]"] by simp
qed

section \<open>Scopes no route reaches\<close>

lemma cover_entry_flag:
  assumes "length reached = length (cv_scope c)" "j < length (cv_scope c)"
  shows "snd (cover_entry p c reached) ! j \<longleftrightarrow> reached ! j \<or> \<not> takes_whole c p \<and> scope_overlaps (cv_scope c ! j) p \<and>
    \<not> list_ex (\<lambda>exclude. scope_contains exclude (cv_scope c ! j)) (cv_exclude c)"
  using assms by (auto simp: cover_entry_def Let_def scope_reached_def)

lemma reached_flag:
  assumes "stage_wf st" "i < length (sg_covering st)" "j < length (cv_scope (sg_covering st ! i))"
  shows "sg_reached (routes_taken ps st) ! i ! j \<longleftrightarrow> sg_reached st ! i ! j \<or>
    (\<exists>p \<in> set ps. \<not> takes_whole (sg_covering st ! i) p \<and> scope_overlaps (cv_scope (sg_covering st ! i) ! j) p \<and>
      \<not> list_ex (\<lambda>exclude. scope_contains exclude (cv_scope (sg_covering st ! i) ! j)) (cv_exclude (sg_covering st ! i)))"
  using assms
proof (induction ps arbitrary: st)
  case Nil then show ?case by (simp add: routes_taken_def)
next
  case (Cons p ps)
  have "sg_reached (snd (scoped_for st p)) ! i ! j = snd (cover_entry p (sg_covering st ! i) (sg_reached st ! i)) ! j"
    using Cons.prems by (simp add: scoped_for_keeps mark_reached_def stage_wf_def)
  also have "\<dots> \<longleftrightarrow> sg_reached st ! i ! j \<or> \<not> takes_whole (sg_covering st ! i) p \<and> scope_overlaps (cv_scope (sg_covering st ! i) ! j) p \<and>
      \<not> list_ex (\<lambda>exclude. scope_contains exclude (cv_scope (sg_covering st ! i) ! j)) (cv_exclude (sg_covering st ! i))"
    by (rule cover_entry_flag) (use Cons.prems in \<open>auto simp: stage_wf_def\<close>)
  moreover have "routes_taken (p # ps) st = routes_taken ps (snd (scoped_for st p))" by (simp add: routes_taken_def)
  ultimately show ?case using Cons.IH [OF scoped_for_wf [OF Cons.prems(1)], of p] Cons.prems(2,3) by (auto simp: scoped_for_keeps)
qed

lemma unreached_listed:
  assumes "stage_wf st" "f \<in> set (stage_unreached st)"
  obtains i j where "i < length (sg_covering st)" "j < length (cv_scope (sg_covering st ! i))" "\<not> sg_reached st ! i ! j"
    "fl_scopes f = [sp_raw (cv_scope (sg_covering st ! i) ! j)]"
    "fl_location f = Some (en_location (pd_entries (ss_meta (sg_scoped st ! i)) ! ss_index (sg_scoped st ! i)))"
proof -
  obtain i j where "i < length (sg_covering st)" "j < length (cv_scope (sg_covering st ! i))" "\<not> sg_reached st ! i ! j"
    "f = unreached_scope (en_location (pd_entries (ss_meta (sg_scoped st ! i)) ! ss_index (sg_scoped st ! i))) (sp_raw (cv_scope (sg_covering st ! i) ! j)) NoRoute"
    using assms by (auto simp: stage_unreached_def Let_def stage_wf_def set_zip)
  then show ?thesis using that
    by (simp add: unreached_scope_def failure_because_def failure_scoped_def failure_about_def failure_at_def failure_plain_def failure_of_def)
qed

lemma initial_flags:
  "stage_build pdec http metas = Inr st \<Longrightarrow> i < length (sg_reached st) \<Longrightarrow> j < length (sg_reached st ! i) \<Longrightarrow> \<not> sg_reached st ! i ! j"
proof -
  have entry: "list_all (list_all Not) (sg_reached (fst (build_entry pdec http m ptr meta x s)))"
    if "list_all (list_all Not) (sg_reached (fst s))" for m ptr meta x s
    using that by (cases x; cases s) (auto simp: build_entry_def Let_def stage_flags_def list_all_iff split: prod.splits option.splits)
  have "list_all (list_all Not) (sg_reached (fst (fold (build_entry pdec http m ptr meta) es s)))"
    if "list_all (list_all Not) (sg_reached (fst s))" for m ptr meta es s
    using that entry by (induction es arbitrary: s) auto
  then have meta: "list_all (list_all Not) (sg_reached (fst (build_meta pdec http x s)))"
    if "list_all (list_all Not) (sg_reached (fst s))" for x s
    using that by (cases x; cases s) (auto simp: build_meta_def)
  have "list_all (list_all Not) (sg_reached (fst (fold (build_meta pdec http) metas s)))"
    if "list_all (list_all Not) (sg_reached (fst s))" for s
    using that meta by (induction metas arbitrary: s) auto
  from this [of "(stage_empty, [])"] show "\<not> sg_reached st ! i ! j"
    if "stage_build pdec http metas = Inr st" "i < length (sg_reached st)" "j < length (sg_reached st ! i)"
    using that by (auto simp: stage_build_def stage_empty_def list_all_length split: prod.splits if_splits)
qed

lemma covers_excluded:
  assumes "scope_covers s p" "rest_last (pt_segments p)" "plain_shape (pattern_shape p)" "matches pdec p path \<noteq> None"
  shows "covers_path pdec s path"
  using assms shape_contains_sound matches_takes unfolding scope_covers_def covers_path_takes by blast

lemma overlaps_shared_path:
  assumes "decodes_escapes pdec" "plain_shape (scope_shape s)" "rest_last (pt_segments p)" "plain_shape (pattern_shape p)"
    "matches pdec p path \<noteq> None" "covers_path pdec s path"
  shows "scope_overlaps s p"
  using assms shape_overlaps_taken matches_takes unfolding scope_overlaps_def covers_path_takes by blast

lemma parsed_routes:
  assumes "decodes_escapes pdec" "list_all plain_text routes" "map (pattern_parse pdec) routes = map Inr ps" "p \<in> set ps"
  shows "rest_last (pt_segments p)" "plain_shape (pattern_shape p)"
proof -
  have "Inr p \<in> set (map (pattern_parse pdec) routes)" unfolding assms(3) using assms(4) by simp
  then obtain t where "t \<in> set routes" "pattern_parse pdec t = Inr p" by auto
  then show "rest_last (pt_segments p)" "plain_shape (pattern_shape p)"
    using pattern_parse_plain [OF assms(1), of t p] assms(2) by (auto simp: list_all_iff plain_text_def)
qed

text \<open>
  C26. With every scope, exclusion and route written without a percent escape, a scope \<open>prepare\<close> refuses as unreached is
  one no request on a route can run for. Once every route of the table has taken its entries, each refusal names a
  scope of an entry such that any path that scope matches on any of the routes is one the entry's exclusions
  remove.
\<close>

theorem unreached_scope_never_runs:
  assumes "decodes_escapes pdec" "list_all (\<lambda>(_, _, meta). plain_meta meta) metas" "distinct (map (\<lambda>(_, ptr, _). ptr) metas)"
    "stage_build pdec http metas = Inr st" "list_all plain_text routes" "map (pattern_parse pdec) routes = map Inr ps"
    "f \<in> set (stage_unreached (routes_taken ps st))"
  shows "\<exists>c \<in> set (sg_covering st). \<exists>s \<in> set (cv_scope c). fl_scopes f = [sp_raw s] \<and>
    (\<forall>p \<in> set ps. \<forall>path. matches pdec p path \<noteq> None \<longrightarrow> covers_path pdec s path \<longrightarrow> \<not> admits pdec (covering_filter c) path)"
proof -
  note wf = stage_build_wf(1) [OF assms(1-4)]
  obtain i j where ij: "i < length (sg_covering st)" "j < length (cv_scope (sg_covering st ! i))"
    "\<not> sg_reached (routes_taken ps st) ! i ! j" "fl_scopes f = [sp_raw (cv_scope (sg_covering st ! i) ! j)]"
    by (rule unreached_listed [OF routes_taken_wf [OF wf] assms(7), unfolded routes_taken_keeps])
  define c s where "c = sg_covering st ! i" and "s = cv_scope (sg_covering st ! i) ! j"
  have c: "plain_covering c" "c \<in> set (sg_covering st)" "s \<in> set (cv_scope c)" using wf ij(1,2) by (auto simp: c_def s_def stage_wf_def)
  have "\<not> admits pdec (covering_filter c) path" if p: "p \<in> set ps" "matches pdec p path \<noteq> None" "covers_path pdec s path" for p path
  proof -
    note route = parsed_routes [OF assms(1,5,6) p(1)]
    have "plain_shape (scope_shape s)" using c by (simp add: plain_covering_def)
    then have "scope_overlaps s p" using overlaps_shared_path [OF assms(1) _ route p(2,3)] by blast
    then consider "takes_whole c p" | "list_ex (\<lambda>exclude. scope_contains exclude s) (cv_exclude c)"
      using ij(3) p(1) reached_flag [OF wf ij(1,2), of ps] by (auto simp: c_def s_def)
    then show ?thesis
    proof cases
      case 1
      then show ?thesis using covers_excluded [OF _ route p(2)] by (auto simp: takes_whole_def admits_def covering_filter_def list_ex_iff)
    next
      case 2
      then show ?thesis using shape_contains_sound \<open>plain_shape (scope_shape s)\<close> p(3)
        unfolding scope_contains_def covers_path_takes admits_def covering_filter_def list_ex_iff by fastforce
    qed
  qed
  moreover have "fl_scopes f = [sp_raw s]" using ij(4) by (simp add: s_def)
  ultimately show ?thesis using c(2,3) by blast
qed

definition idle_meta :: pre_dispatch where
  "idle_meta = pd_apply_for 3 [''/admin/*'', ''/ops/*''] (''app.rs'', 3, 9) pre_dispatch_default"

theorem unreached_scope_never_runs_witness:
  "list_ex (\<lambda>f. fl_scopes f = [''/ops/*'']) (stage_unreached (routes_taken [projr (pattern_parse (\<lambda>s. s) ''/admin/{page}'')]
      (projr (stage_build (\<lambda>s. s) True [(0, 7, idle_meta)])))) \<and>
   list_ex (\<lambda>c. list_ex (\<lambda>s. sp_raw s = ''/ops/*'') (cv_scope c)) (sg_covering (projr (stage_build (\<lambda>s. s) True [(0, 7, idle_meta)])))"
proof -
  let ?st = "stage_build (\<lambda>s. s) True [(0, 7, idle_meta)]"
  let ?p = "pattern_parse (\<lambda>s. s) ''/admin/{page}''"
  have "\<not> isl ?st" by code_simp
  then have built: "?st = Inr (projr ?st)" by (cases ?st) simp_all
  have parsed: "map (pattern_parse (\<lambda>s. s)) [''/admin/{page}''] = map Inr [projr ?p]" by code_simp
  have listed: "list_ex (\<lambda>f. fl_scopes f = [''/ops/*'']) (stage_unreached (routes_taken [projr ?p] (projr ?st)))" by code_simp
  then obtain f where f: "f \<in> set (stage_unreached (routes_taken [projr ?p] (projr ?st)))" "fl_scopes f = [''/ops/*'']"
    by (auto simp: list_ex_iff)
  have "list_all (\<lambda>(_, _, meta). plain_meta meta) [(0 :: nat, 7 :: nat, idle_meta)]" "list_all plain_text [''/admin/{page}'']" by code_simp+
  then have "\<exists>c \<in> set (sg_covering (projr ?st)). \<exists>s \<in> set (cv_scope c). fl_scopes f = [sp_raw s]"
    using unreached_scope_never_runs [OF id_decodes _ _ built _ parsed f(1)] by auto
  then show ?thesis using listed f(2) by (fastforce simp: list_ex_iff)
qed

section \<open>Entries that run on every request of a route\<close>

text \<open>
  C27. The embedding's check trusts an entry to run on every request that reaches a route. With every scope, exclusion
  and route written without a percent escape, whenever the check says so, the entry's filter admits every path that
  the route matches, that none of the routes tried before it matches, and that has no empty segment. Of a path with
  an empty segment nothing is claimed.
\<close>

theorem runs_on_every_request_sound:
  assumes "decodes_escapes pdec" "list_all (\<lambda>(_, _, meta). plain_meta meta) metas" "distinct (map (\<lambda>(_, ptr, _). ptr) metas)"
    "stage_build pdec http metas = Inr st" "plain_text route" "pattern_parse pdec route = Inr p"
    "list_all plain_text routes" "map (pattern_parse pdec) routes = map Inr before"
    "runs_on_every_request st ptr index p before"
    "matches pdec p path \<noteq> None" "\<And>q. q \<in> set before \<Longrightarrow> matches pdec q path = None" "[] \<notin> set (path_segments path)"
  shows "\<exists>i < length (sg_covering st). step_id (sg_scoped st ! i) = (ptr, index) \<and> admits pdec (covering_filter (sg_covering st ! i)) path"
proof -
  note wf = stage_build_wf(1) [OF assms(1-4)]
  have "CHR ''%'' \<notin> set route" using assms(5) by (simp add: plain_text_def)
  note route = pattern_parse_plain [OF assms(1) this assms(6)]
  obtain c step where found: "find (\<lambda>(_, step). ss_ptr step = ptr \<and> ss_index step = index) (zip (sg_covering st) (sg_scoped st)) = Some (c, step)"
    "list_ex (\<lambda>scope. scope_covers scope p) (cv_scope c)"
    "list_all (\<lambda>exclude. case shared_with exclude p of None \<Rightarrow> True | Some shared \<Rightarrow> list_ex (\<lambda>route. pattern_contains route shared) before) (cv_exclude c)"
    using assms(9) by (auto simp: runs_on_every_request_def split: option.splits)
  obtain i where i: "i < length (sg_covering st)" "c = sg_covering st ! i" "step = sg_scoped st ! i" "ss_ptr step = ptr" "ss_index step = index"
    using found(1) by (auto simp: find_Some_iff)
  have plain: "plain_covering c" using wf i(1,2) by (simp add: stage_wf_def)
  have taken: "shape_takes pdec (pattern_shape p) (path_segments path)" using assms(10) matches_takes [OF route(1)] by blast
  have "\<not> covers_path pdec e path" if e: "e \<in> set (cv_exclude c)" for e
  proof
    assume cov: "covers_path pdec e path"
    have pe: "plain_shape (scope_shape e)" using plain e by (simp add: plain_covering_def)
    have "scope_overlaps e p" by (rule overlaps_shared_path [OF assms(1) pe route assms(10) cov])
    then obtain shared where sh: "shared_with e p = Some shared" using shared_with_overlaps by blast
    note exact = shape_intersection_exact [OF pe route(2) sh [unfolded shared_with_def]]
    obtain q where q: "q \<in> set before" "pattern_contains q shared" using found(3) e sh by (fastforce simp: list_all_iff list_ex_iff)
    note rq = parsed_routes [OF assms(1,7,8) q(1)]
    have tq: "shape_takes pdec (pattern_shape q) (path_segments path)"
      using shape_contains_sound exact q(2) cov taken unfolding pattern_contains_def covers_path_takes by blast
    have "path_segments path ! length (sh_fixed (pattern_shape q)) \<noteq> []" if "sh_open (pattern_shape q)"
      using that tq assms(12) nth_mem [of "length (sh_fixed (pattern_shape q))" "path_segments path"]
      unfolding shape_takes_def by metis
    then show False using matches_takes [OF rq(1)] tq assms(11) [OF q(1)] by blast
  qed
  then have "admits pdec (covering_filter c) path" using found(2) covers_excluded [OF _ route assms(10)]
    by (auto simp: admits_def covering_filter_def list_ex_iff)
  then show ?thesis using i by (auto simp: step_id_def)
qed

theorem runs_on_every_request_sound_witness:
  "list_ex (\<lambda>c. admits (\<lambda>s. s) (covering_filter c) ''/admin/users'') (sg_covering (projr (stage_build (\<lambda>s. s) True [(0, 7, admin_meta)])))"
proof -
  let ?st = "stage_build (\<lambda>s. s) True [(0, 7, admin_meta)]"
  let ?p = "pattern_parse (\<lambda>s. s) ''/admin/{page}''" and ?q = "pattern_parse (\<lambda>s. s) ''/admin/health''"
  have "\<not> isl ?st" by code_simp
  then have built: "?st = Inr (projr ?st)" by (cases ?st) simp_all
  have parsed: "?p = Inr (projr ?p)" "map (pattern_parse (\<lambda>s. s)) [''/admin/health''] = map Inr [projr ?q]" by code_simp+
  have runs: "runs_on_every_request (projr ?st) 7 0 (projr ?p) [projr ?q]" by code_simp
  have matched: "matches (\<lambda>s. s) (projr ?p) ''/admin/users'' \<noteq> None" by code_simp
  have "matches (\<lambda>s. s) (projr ?q) ''/admin/users'' = None" "[] \<notin> set (path_segments ''/admin/users'')" by code_simp+
  moreover have "list_all (\<lambda>(_, _, meta). plain_meta meta) [(0 :: nat, 7 :: nat, admin_meta)]" "plain_text ''/admin/{page}''"
    "list_all plain_text [''/admin/health'']" by code_simp+
  ultimately show ?thesis
    using runs_on_every_request_sound [OF id_decodes _ _ built _ parsed(1) _ parsed(2) runs matched] by (auto simp: list_ex_length)
qed

text \<open>
  The condition on empty segments is needed. A route \<open>{*rest}\<close> matches no path whose first segment there is
  empty, which the comparison of shapes does not see: the check holds, and a request is excluded.
\<close>

definition files_meta :: pre_dispatch where
  "files_meta = pd_exclude [''/files/health/*''] (''app.rs'', 4, 9) (pd_apply_for 3 [''/files/*''] (''app.rs'', 3, 9) pre_dispatch_default)"

lemma empty_segment_excluded:
  "runs_on_every_request (projr (stage_build (\<lambda>s. s) True [(0, 7, files_meta)])) 7 0
     (projr (pattern_parse (\<lambda>s. s) ''/files/{*rest}'')) [projr (pattern_parse (\<lambda>s. s) ''/files/health/{*rest}'')]"
  "matches (\<lambda>s. s) (projr (pattern_parse (\<lambda>s. s) ''/files/{*rest}'')) ''/files/health//x'' \<noteq> None"
  "matches (\<lambda>s. s) (projr (pattern_parse (\<lambda>s. s) ''/files/health/{*rest}'')) ''/files/health//x'' = None"
  "\<not> list_ex (\<lambda>c. admits (\<lambda>s. s) (covering_filter c) ''/files/health//x'') (sg_covering (projr (stage_build (\<lambda>s. s) True [(0, 7, files_meta)])))"
  by code_simp+

section \<open>The order entries run in\<close>

text \<open>
  What a middleware or a layered service does with a request. \<open>Next\<close> and the rest of the stage are \<open>FnOnce\<close>, so it
  either stops, with an answer of its own or an error, and never calls the rest, or it passes a request on once,
  rewritten as it likes, its path included, and makes its result of what the rest answered. One that drops the rest
  while it runs is not modelled.
\<close>

datatype ('h, 'x, 'e) flow =
    Stop "'e + 'h response" 'x
  | Pass "'h request" 'x "'e + 'h response \<Rightarrow> 'x \<Rightarrow> ('e + 'h response) \<times> 'x"

definition behaves ::
    "('h, 'x, 'e) stage_env \<Rightarrow> (nat \<Rightarrow> 'h request \<Rightarrow> 'x \<Rightarrow> ('h, 'x, 'e) flow) \<Rightarrow> (nat \<Rightarrow> 'h request \<Rightarrow> 'x \<Rightarrow> ('h, 'x, 'e) flow) \<Rightarrow> bool" where
  "behaves env handles layers \<longleftrightarrow>
     (\<forall>m req next x. ev_handle env m req next x =
        (case handles m req x of Stop a x \<Rightarrow> (a, x) | Pass req x k \<Rightarrow> (case next req x of (a, x) \<Rightarrow> k a x))) \<and>
     (\<forall>l req rest x. ev_layer env l req rest x =
        (case layers l req x of Stop a x \<Rightarrow> (a, x) | Pass req x k \<Rightarrow> (case rest req x of (a, x) \<Rightarrow> k (Inr a) x)))"

definition entry_flow ::
    "('h, 'x, 'e) stage_env \<Rightarrow> (nat \<Rightarrow> 'h request \<Rightarrow> 'x \<Rightarrow> ('h, 'x, 'e) flow) \<Rightarrow> (nat \<Rightarrow> 'h request \<Rightarrow> 'x \<Rightarrow> ('h, 'x, 'e) flow) \<Rightarrow>
     runnable \<Rightarrow> 'h request \<Rightarrow> 'x \<Rightarrow> ('h, 'x, 'e) flow" where
  "entry_flow env handles layers r req x =
     (case ru_action r of
        ActValue m \<Rightarrow> handles m req x
      | ActByType ty \<Rightarrow> (case ev_resolve env ty (ru_module r) x of (Inl err, x) \<Rightarrow> Stop (Inl err) x | (Inr m, x) \<Rightarrow> handles m req x)
      | ActAdopt v \<Rightarrow> Pass req (ev_adopt env v req x) Pair
      | ActLayer l \<Rightarrow> layers l req x)"

lemma start_flow:
  assumes "behaves env handles layers"
  shows "start env r req rest x =
    (case entry_flow env handles layers r req x of
       Stop a x \<Rightarrow> (a, x) | Pass req x k \<Rightarrow> (case rest req x of (a, x) \<Rightarrow> k (Inr a) x))"
  using assms
  by (auto simp: behaves_def start_def entry_flow_def handle_with_def case_prod_beta
      split: pd_action.split flow.split sum.split prod.split)

text \<open>
  The stage as a loop with a stack. On the way in, each entry whose exclusions do not match the path the request has
  by then is started, and one that passes the request on is left on the stack. On the way out, the answer goes
  through the stack, the last entered first. An error, of an entry that stopped or of one making its result, is
  answered by \<open>StageHost::fail\<close> in its place.
\<close>

definition settle :: "('h, 'x, 'e) stage_env \<Rightarrow> ('e + 'h response) \<times> 'x \<Rightarrow> 'h response \<times> 'x" where
  "settle env = (\<lambda>(a, x). case a of Inr response \<Rightarrow> (response, x) | Inl err \<Rightarrow> ev_fail env err x)"

fun inward ::
    "(string \<Rightarrow> string) \<Rightarrow> ('h, 'x, 'e) stage_env \<Rightarrow> (runnable \<Rightarrow> 'h request \<Rightarrow> 'x \<Rightarrow> ('h, 'x, 'e) flow) \<Rightarrow> ('h, 'x) rest \<Rightarrow>
     runnable list \<Rightarrow> 'h request \<Rightarrow> 'x \<Rightarrow> ('e + 'h response \<Rightarrow> 'x \<Rightarrow> ('e + 'h response) \<times> 'x) list \<Rightarrow>
     ('h response \<times> 'x) \<times> ('e + 'h response \<Rightarrow> 'x \<Rightarrow> ('e + 'h response) \<times> 'x) list" where
  "inward pdec env act end_rest [] req x stack = (end_rest req x, stack)"
| "inward pdec env act end_rest (r # rs) req x stack =
     (if skips pdec r (rq_path req) then inward pdec env act end_rest rs req x stack
      else (case act r req x of
              Stop a x \<Rightarrow> (settle env (a, x), stack)
            | Pass req x k \<Rightarrow> inward pdec env act end_rest rs req x (k # stack)))"

definition outward ::
    "('h, 'x, 'e) stage_env \<Rightarrow> ('e + 'h response \<Rightarrow> 'x \<Rightarrow> ('e + 'h response) \<times> 'x) list \<Rightarrow> 'h response \<times> 'x \<Rightarrow> 'h response \<times> 'x" where
  "outward env stack answer = fold (\<lambda>k (response, x). settle env (k (Inr response) x)) stack answer"

lemma stage_run_onion:
  assumes "behaves env handles layers"
  shows "outward env stack (stage_run pdec env rs end_rest req x) =
    (case inward pdec env (entry_flow env handles layers) end_rest rs req x stack of (answer, stack) \<Rightarrow> outward env stack answer)"
proof (induction rs arbitrary: req x stack)
  case (Cons r rs)
  note flow = start_flow [OF assms, of r req "stage_run pdec env rs end_rest" x]
  show ?case
  proof (cases "skips pdec r (rq_path req)")
    case False
    show ?thesis
    proof (cases "entry_flow env handles layers r req x")
      case (Stop a x')
      then show ?thesis using False by (cases a) (simp_all add: flow settle_def)
    next
      case (Pass req' x' k)
      obtain response x'' where rest: "stage_run pdec env rs end_rest req' x' = (response, x'')" by (meson surj_pair)
      have "stage_run pdec env (r # rs) end_rest req x = settle env (k (Inr response) x'')"
        using False Pass rest by (auto simp: flow settle_def split: prod.splits sum.splits)
      then show ?thesis using False Pass Cons.IH [of "k # stack" req' x'] rest by (simp add: outward_def)
    qed
  qed (simp add: Cons.IH)
qed simp

text \<open>
  C28. The entries of a sub-step run in declaration order around the rest of the request. For middlewares and layers that
  use the rest at most once, whatever else they do, a run of the stage is the loop with a stack: entries are started
  first to last, each on the request as the entry before left it, and one whose exclusions match the path the
  request has by then is not started; an entry that answers or fails itself keeps every later entry and the rest from
  running; the answer goes back through the entries that passed the request on, last to first, each seeing what the
  next one in answered; and an error of an entry, or of looking its middleware up, is answered by \<open>fail\<close> in that entry's
  place and goes on out through the entries before it.
\<close>

theorem stage_run_order:
  assumes "behaves env handles layers"
  shows "stage_run pdec env rs end_rest req x =
    (case inward pdec env (entry_flow env handles layers) end_rest rs req x [] of (answer, stack) \<Rightarrow> outward env stack answer)"
  using stage_run_onion [OF assms, of "[]"] by (simp add: outward_def)

text \<open>
  A run with the trace of its entries as the execution's state: middleware 4 rewrites \<open>/old\<close> to \<open>/a\<close>, so the entry that
  excludes \<open>/a\<close> is skipped, and middleware 6 fails, which 4 sees on the way out as the 500 of \<open>fail\<close>.
\<close>

definition trace_flow :: "nat \<Rightarrow> unit request \<Rightarrow> nat list \<Rightarrow> (unit, nat list, unit) flow" where
  "trace_flow m req x =
     (if m = 6 then Stop (Inl ()) (x @ [6])
      else Pass (if m = 4 then req\<lparr>rq_path := ''/a''\<rparr> else req) (x @ [m])
             (\<lambda>a x. (a, x @ [case a of Inr response \<Rightarrow> rs_status response | Inl _ \<Rightarrow> 0])))"

definition trace_env :: "(unit, nat list, unit) stage_env" where
  "trace_env =
     \<lparr>ev_resolve = (\<lambda>ty m x. (Inr ty, x)),
      ev_handle = (\<lambda>m req next x. case trace_flow m req x of Stop a x \<Rightarrow> (a, x) | Pass req x k \<Rightarrow> (case next req x of (a, x) \<Rightarrow> k a x)),
      ev_layer = (\<lambda>l req rest x. case trace_flow l req x of Stop a x \<Rightarrow> (a, x) | Pass req x k \<Rightarrow> (case rest req x of (a, x) \<Rightarrow> k (Inr a) x)),
      ev_adopt = (\<lambda>v req x. x),
      ev_fail = (\<lambda>_ x. (\<lparr>rs_status = 500, rs_headers = (), rs_body = []\<rparr>, x))\<rparr>"

lemma trace_env_behaves: "behaves trace_env trace_flow trace_flow"
  by (simp add: behaves_def trace_env_def)

theorem stage_run_order_witness:
  "stage_run (\<lambda>s. s) trace_env
     [\<lparr>ru_module = 0, ru_action = ActValue 4, ru_exclude = []\<rparr>,
      \<lparr>ru_module = 0, ru_action = ActValue 5, ru_exclude = [\<lparr>sp_raw = ''/a'', sp_segments = [SegStatic ''a''], sp_wildcard = False\<rparr>]\<rparr>,
      \<lparr>ru_module = 0, ru_action = ActByType 6, ru_exclude = []\<rparr>,
      \<lparr>ru_module = 0, ru_action = ActValue 7, ru_exclude = []\<rparr>]
     (\<lambda>req x. (\<lparr>rs_status = 200, rs_headers = (), rs_body = []\<rparr>, x)) \<lparr>rq_method = ''GET'', rq_path = ''/old'', rq_headers = (), rq_body = []\<rparr> [] =
   (\<lparr>rs_status = 500, rs_headers = (), rs_body = []\<rparr>, [4, 6, 500])"
  (is "stage_run _ _ ?rs ?fin ?req [] = _")
proof -
  have "stage_run (\<lambda>s. s) trace_env ?rs ?fin ?req [] =
    (case inward (\<lambda>s. s) trace_env (entry_flow trace_env trace_flow trace_flow) ?fin ?rs ?req [] [] of (answer, stack) \<Rightarrow> outward trace_env stack answer)"
    by (rule stage_run_order [OF trace_env_behaves])
  moreover have "\<not> skips (\<lambda>s. s) (?rs ! 0) ''/old''" "skips (\<lambda>s. s) (?rs ! 1) ''/a''" "\<not> skips (\<lambda>s. s) (?rs ! 2) ''/a''" by code_simp+
  ultimately show ?thesis
    by (simp add: entry_flow_def trace_flow_def trace_env_def settle_def outward_def)
qed

end
