(* ===== verification/Router.thy ===== *)
theory Router
  imports Pre_Dispatch
begin

text \<open>
  The route table of an HTTP server (\<open>ulo-http/src/router/mod.rs\<close>), with the timeouts and body limits a route
  declares (\<open>limits.rs\<close>) and the handler value a controller mounts (\<open>handler.rs\<close>). A handler's call is a number.
  A \<open>Path<T>\<close> check is a function of the route's parameter names, since the type it checks is the application's.
\<close>

section \<open>What is mounted\<close>

type_synonym path_check = "type_name \<times> (string list \<Rightarrow> string + unit)"

record http_handler =
  hh_method :: string
  hh_call :: nat
  hh_path_checks :: "path_check list"
  hh_host_reads :: "type_name list"

definition http_handler_new :: "string \<Rightarrow> nat \<Rightarrow> http_handler" where
  "http_handler_new meth call = \<lparr>hh_method = meth, hh_call = call, hh_path_checks = [], hh_host_reads = []\<rparr>"

definition reads_path :: "path_check \<Rightarrow> http_handler \<Rightarrow> http_handler" where
  "reads_path check h = h\<lparr>hh_path_checks := hh_path_checks h @ [check]\<rparr>"

definition reads_host :: "type_name \<Rightarrow> http_handler \<Rightarrow> http_handler" where
  "reads_host ty h = h\<lparr>hh_host_reads := hh_host_reads h @ [ty]\<rparr>"

text \<open>A \<open>Timeout\<close> is its \<open>Bound\<close>.\<close>

definition timeout_off :: bound where
  "timeout_off = B_Unbounded"

definition timeout_after :: "nat \<Rightarrow> bound" where
  "timeout_after d = B_After d"

fun timeout_duration :: "bound \<Rightarrow> nat option" where
  "timeout_duration (B_After d) = Some d"
| "timeout_duration B_Default = None"
| "timeout_duration B_Unbounded = None"

text \<open>
  What the core answers of a mounted handler: its controller and name, its value when that is an
  \<open>HttpHandler\<close>, the route and the controller's prefix, and the metadata the router reads.
\<close>

record mounted =
  mh_controller :: type_name
  mh_name :: string
  mh_http :: "http_handler option"
  mh_route :: "string option"
  mh_prefix :: "string option"
  mh_timeout :: "bound option"
  mh_timeout_on_method :: bool
  mh_body_limit :: "nat option"

record route_target =
  rt_handler :: mounted
  rt_call :: nat
  rt_pattern :: string
  rt_route :: string
  rt_body_limit :: nat
  rt_timeout :: "nat option"
  rt_stage :: scoped_stage

record route_entry =
  re_pattern :: pattern
  re_methods :: "(string \<times> route_target) list"
  re_allow :: string
  re_route :: string

section \<open>Building the table\<close>

type_synonym who = "type_name \<times> string"

definition who_of :: "mounted \<Rightarrow> who" where
  "who_of h = (mh_controller h, mh_name h)"

definition who_text :: "type_name set \<Rightarrow> who \<Rightarrow> string" where
  "who_text full who = ''`'' @ written full (fst who) @ ''::'' @ snd who @ ''`''"

record route_group =
  gp_pattern :: pattern
  gp_targets :: "(string \<times> route_target \<times> who) list"

record zero_timeout =
  zt_controller :: type_name
  zt_handler :: "string option"
  zt_routes :: "string list"

definition zero_timeout_failure :: "zero_timeout \<Rightarrow> failure" where
  "zero_timeout_failure z =
     failure_naming [zt_controller z] (\<lambda>full.
       let declared = (case zt_handler z of
             Some name \<Rightarrow> ''on the handler '' @ who_text full (zt_controller z, name)
           | None \<Rightarrow> ''on the `#[handlers]` impl of `'' @ written full (zt_controller z) @ ''`'')
       in ''`#[meta(Timeout(..))]` '' @ declared @ '' would cancel every request on '' @ join_comma (zt_routes z) @
          ''; write `Timeout::OFF` to turn the timeout off'')"

definition note_zero :: "type_name \<Rightarrow> string option \<Rightarrow> string \<Rightarrow> zero_timeout list \<Rightarrow> zero_timeout list" where
  "note_zero controller handler route zeros =
     (case position_of (\<lambda>z. zt_controller z = controller \<and> zt_handler z = handler) zeros of
        Some i \<Rightarrow> zeros[i := (zeros ! i)\<lparr>zt_routes := zt_routes (zeros ! i) @ [route]\<rparr>]
      | None \<Rightarrow> zeros @ [\<lparr>zt_controller = controller, zt_handler = handler, zt_routes = [route]\<rparr>])"

record table_build =
  tb_stage :: stage
  tb_errors :: "failure list"
  tb_groups :: "route_group list"
  tb_zeros :: "zero_timeout list"

definition refuse :: "failure \<Rightarrow> table_build \<Rightarrow> table_build" where
  "refuse f b = b\<lparr>tb_errors := tb_errors b @ [f]\<rparr>"

definition path_check_failures :: "who \<Rightarrow> pattern \<Rightarrow> path_check list \<Rightarrow> failure list" where
  "path_check_failures who p checks =
     List.map_filter (\<lambda>(ty, check).
       case check (param_names p) of
         Inr _ \<Rightarrow> None
       | Inl reason \<Rightarrow> Some (failure_naming [fst who, ty] (\<lambda>full.
           who_text full who @ '': `Path<'' @ written full ty @ ''>` does not fit the route `'' @ pt_raw p @ ''`: '' @ reason))) checks"

definition differ_only_in_names :: "who \<Rightarrow> pattern \<Rightarrow> who \<Rightarrow> pattern \<Rightarrow> failure" where
  "differ_only_in_names other taken who p =
     failure_naming [fst other, fst who] (\<lambda>full.
       ''the routes `'' @ pt_raw taken @ ''` of '' @ who_text full other @ '' and `'' @ pt_raw p @ ''` of '' @ who_text full who @
       '' differ only in parameter names; one position takes one name'')"

definition both_answer :: "who \<Rightarrow> who \<Rightarrow> string \<Rightarrow> pattern \<Rightarrow> failure" where
  "both_answer other who meth p =
     failure_naming [fst other, fst who] (\<lambda>full.
       who_text full other @ '' and '' @ who_text full who @ '' both answer `'' @ meth @ '' '' @ pt_raw p @ ''`'')"

definition place_target :: "pattern \<Rightarrow> string \<Rightarrow> route_target \<Rightarrow> who \<Rightarrow> table_build \<Rightarrow> table_build" where
  "place_target p meth target who b =
     (case position_of (\<lambda>g. conflicts (gp_pattern g) p) (tb_groups b) of
        None \<Rightarrow> b\<lparr>tb_groups := tb_groups b @ [\<lparr>gp_pattern = p, gp_targets = [(meth, target, who)]\<rparr>]\<rparr>
      | Some i \<Rightarrow>
          (let g = tb_groups b ! i
           in if pt_raw (gp_pattern g) \<noteq> pt_raw p
              then refuse (differ_only_in_names (snd (snd (gp_targets g ! 0))) (gp_pattern g) who p) b
              else (case find (\<lambda>(existing, _, _). existing = meth) (gp_targets g) of
                      Some (_, _, other) \<Rightarrow> refuse (both_answer other who meth p) b
                    | None \<Rightarrow> b\<lparr>tb_groups := (tb_groups b)[i := g\<lparr>gp_targets := gp_targets g @ [(meth, target, who)]\<rparr>]\<rparr>)))"

definition route_text :: "mounted \<Rightarrow> string \<Rightarrow> string" where
  "route_text h route = (case mh_prefix h of Some prefix \<Rightarrow> pattern_join prefix route | None \<Rightarrow> route)"

definition build_route ::
    "nat \<Rightarrow> string \<Rightarrow> mounted \<Rightarrow> http_handler \<Rightarrow> pattern \<Rightarrow> table_build \<Rightarrow> table_build" where
  "build_route default_limit mount h http p b =
     (let who = who_of h;
          b = b\<lparr>tb_errors := tb_errors b @ path_check_failures who p (hh_path_checks http)\<rparr>;
          b = (if mh_timeout h = Some (timeout_after 0)
               then b\<lparr>tb_zeros := note_zero (fst who) (if mh_timeout_on_method h then Some (snd who) else None)
                        (''`'' @ hh_method http @ '' '' @ pt_raw p @ ''`'') (tb_zeros b)\<rparr>
               else b);
          (stage, st) = scoped_for (tb_stage b) p;
          target = \<lparr>rt_handler = h, rt_call = hh_call http, rt_pattern = pt_raw p,
                    rt_route = (if mount = [] then pt_raw p else pattern_join mount (pt_raw p)),
                    rt_body_limit = (case mh_body_limit h of Some limit \<Rightarrow> limit | None \<Rightarrow> default_limit),
                    rt_timeout = Option.bind (mh_timeout h) timeout_duration, rt_stage = stage\<rparr>
      in place_target p (hh_method http) target who (b\<lparr>tb_stage := st\<rparr>))"

definition build_handler :: "(string \<Rightarrow> string) \<Rightarrow> nat \<Rightarrow> string \<Rightarrow> mounted \<Rightarrow> table_build \<Rightarrow> table_build" where
  "build_handler pdec default_limit mount h b =
     (let who = who_of h
      in case mh_http h of
           None \<Rightarrow> refuse (failure_naming [fst who] (\<lambda>full.
             who_text full who @ '' is mounted for HTTP with a handler value that is not a `ulo_http::HttpHandler`'')) b
         | Some http \<Rightarrow>
             (case mh_route h of
                None \<Rightarrow> refuse (failure_naming [fst who] (\<lambda>full.
                  who_text full who @ '' is mounted for HTTP with no route; `HandlerSpec::route` sets it'')) b
              | Some route \<Rightarrow>
                  (case pattern_parse pdec (route_text h route) of
                     Inl err \<Rightarrow> refuse (failure_naming [fst who] (\<lambda>full. who_text full who @ '': '' @ pattern_error_text err)) b
                   | Inr p \<Rightarrow>
                       (case unreachable_segment (pt_raw p) (pt_segments p) of
                          Some seg \<Rightarrow> refuse (failure_because BackslashSegment (failure_naming [fst who] (\<lambda>full.
                            who_text full who @ '': '' @ unreachable_text (''the route `'' @ pt_raw p @ ''`'') seg))) b
                        | None \<Rightarrow> build_route default_limit mount h http p b))))"

definition allow_of :: "(string \<Rightarrow> string option) \<Rightarrow> (string \<times> route_target) list \<Rightarrow> string" where
  "allow_of from_str methods =
     (let names = map fst methods;
          names = (if ''HEAD'' \<notin> set names
                   then (case position_of (\<lambda>name. name = ''GET'') names of
                           Some get \<Rightarrow> take (get + 1) names @ [''HEAD''] @ drop (get + 1) names
                         | None \<Rightarrow> names)
                   else names);
          names = (if ''OPTIONS'' \<notin> set names then names @ [''OPTIONS''] else names)
      in case from_str (join_comma names) of Some v \<Rightarrow> v | None \<Rightarrow> ''OPTIONS'')"

definition entry_of :: "(string \<Rightarrow> string option) \<Rightarrow> route_group \<Rightarrow> route_entry" where
  "entry_of from_str g =
     (let methods = map (\<lambda>(meth, target, _). (meth, target)) (gp_targets g)
      in \<lparr>re_pattern = gp_pattern g, re_methods = methods, re_allow = allow_of from_str methods, re_route = rt_route (snd (methods ! 0))\<rparr>)"

definition router_build ::
    "(string \<Rightarrow> string) \<Rightarrow> (string \<Rightarrow> string option) \<Rightarrow> nat \<Rightarrow> string \<Rightarrow> mounted list \<Rightarrow> stage \<Rightarrow>
     (failure list + route_entry list) \<times> stage" where
  "router_build pdec from_str default_limit mount handlers st =
     (let b = fold (build_handler pdec default_limit mount) handlers \<lparr>tb_stage = st, tb_errors = [], tb_groups = [], tb_zeros = []\<rparr>;
          errors = tb_errors b @ map zero_timeout_failure (tb_zeros b)
      in (if errors \<noteq> [] then Inl errors
          else Inr (sort_key (\<lambda>e. precedence (re_pattern e)) (map (entry_of from_str) (tb_groups b))), tb_stage b))"

section \<open>Routing a request\<close>

datatype routed =
    RFound route_target "(string \<times> string) list" bool
  | RNotFound
  | RMethodNotAllowed string
  | ROptions string string

definition entry_target :: "route_entry \<Rightarrow> string \<Rightarrow> route_target option" where
  "entry_target e meth = map_option snd (find (\<lambda>(candidate, _). candidate = meth) (re_methods e))"

definition answer_of :: "route_entry \<Rightarrow> string \<Rightarrow> (string \<times> string) list \<Rightarrow> routed" where
  "answer_of e meth params =
     (case entry_target e meth of
        Some target \<Rightarrow> RFound target params False
      | None \<Rightarrow>
          (case (if meth = ''HEAD'' then entry_target e ''GET'' else None) of
             Some target \<Rightarrow> RFound target params True
           | None \<Rightarrow> if meth = ''OPTIONS'' then ROptions (re_allow e) (re_route e) else RMethodNotAllowed (re_allow e)))"

fun route_split :: "(string \<Rightarrow> string) \<Rightarrow> route_entry list \<Rightarrow> string \<Rightarrow> string \<Rightarrow> (nat \<times> string) list \<Rightarrow> routed" where
  "route_split pdec [] meth path pieces = RNotFound"
| "route_split pdec (e # es) meth path pieces =
     (case match_split pdec (re_pattern e) path pieces of
        None \<Rightarrow> route_split pdec es meth path pieces
      | Some params \<Rightarrow> answer_of e meth params)"

definition route :: "(string \<Rightarrow> string) \<Rightarrow> route_entry list \<Rightarrow> string \<Rightarrow> string \<Rightarrow> routed" where
  "route pdec routes meth path = (let path = normalize path in route_split pdec routes meth path (split_path path))"

section \<open>Paths refused before routing\<close>

text \<open>The two answers of \<open>malformed\<close> in \<open>service.rs\<close>, which a request is checked for before the stage and before routing.\<close>

datatype path_refusal = DotSegmentRefused | BackslashRefused

definition malformed :: "string \<Rightarrow> path_refusal option" where
  "malformed path =
     (if has_dot_segment path then Some DotSegmentRefused else if has_backslash path then Some BackslashRefused else None)"

end
