(* ===== verification/Router_Laws.thy ===== *)
theory Router_Laws
  imports Router Route_Laws
begin

text \<open>
  Which route answers a request. The table holds every mounted handler under its own pattern, no two of its
  patterns conflict, and the first entry that matches is the most specific one.
\<close>

section \<open>The table as built\<close>

definition apart :: "pattern list \<Rightarrow> bool" where
  "apart ps = sorted_wrt (\<lambda>p q. \<not> conflicts p q) ps"

definition handler_pattern :: "(string \<Rightarrow> string) \<Rightarrow> mounted \<Rightarrow> pattern \<Rightarrow> bool" where
  "handler_pattern pdec h p \<longleftrightarrow> (\<exists>route. mh_route h = Some route \<and> pattern_parse pdec (route_text h route) = Inr p)"

text \<open>A group answers for a handler under its method and with its pattern.\<close>

definition group_holds :: "(string \<Rightarrow> string) \<Rightarrow> route_group list \<Rightarrow> mounted \<Rightarrow> bool" where
  "group_holds pdec gs h \<longleftrightarrow>
     (\<exists>g \<in> set gs. \<exists>http target who. mh_http h = Some http \<and> (hh_method http, target, who) \<in> set (gp_targets g) \<and>
        rt_handler target = h \<and> handler_pattern pdec h (gp_pattern g))"

definition group_wf :: "(string \<Rightarrow> string) \<Rightarrow> mounted list \<Rightarrow> route_group \<Rightarrow> bool" where
  "group_wf pdec hs g \<longleftrightarrow> gp_targets g \<noteq> [] \<and> distinct (map fst (gp_targets g)) \<and> (\<exists>h \<in> set hs. handler_pattern pdec h (gp_pattern g))"

lemma conflicts_sym: "conflicts p q = conflicts q p"
proof -
  have s: "same_position a b = same_position b a" for a b by (cases a; cases b) auto
  show ?thesis by (auto simp: conflicts_def list_all_zip s)
qed

lemma conflicts_refl: "conflicts p p"
proof -
  have "same_position a a" for a by (cases a) auto
  then show ?thesis by (simp add: conflicts_def list_all_zip)
qed

text \<open>Two parsed patterns with one text are one pattern.\<close>

lemma pattern_parse_raw:
  assumes "pattern_parse pdec t = Inr p"
  shows "p = \<lparr>pt_raw = normalize t, pt_segments = (if normalize t = ''/'' then []
    else projr (parse_pieces pdec False [] (split_on (CHR ''/'') (drop 1 (normalize t)))))\<rparr>"
proof -
  have "take 1 t = ''/''"
  proof (rule ccontr)
    assume "take 1 t \<noteq> ''/''"
    then have "parse_segments pdec t False = Inl ''a pattern starts with `/`''" unfolding parse_segments_def by (rule if_P)
    then show False using assms by (simp add: pattern_parse_def)
  qed
  then have seg: "parse_segments pdec t False = (if normalize t = ''/'' then Inr []
      else parse_pieces pdec False [] (split_on (CHR ''/'') (drop 1 (normalize t))))"
    unfolding parse_segments_def by simp
  show ?thesis using assms
    by (cases "normalize t = ''/''"; cases "parse_pieces pdec False [] (split_on (CHR ''/'') (drop 1 (normalize t)))")
      (simp_all add: pattern_parse_def seg)
qed

lemma pattern_parse_unique: "pattern_parse pdec t = Inr p \<Longrightarrow> pattern_parse pdec u = Inr q \<Longrightarrow> pt_raw p = pt_raw q \<Longrightarrow> p = q"
  using pattern_parse_raw [of pdec t p] pattern_parse_raw [of pdec u q] by simp

lemma handler_pattern_unique: "handler_pattern pdec h p \<Longrightarrow> handler_pattern pdec h' q \<Longrightarrow> pt_raw p = pt_raw q \<Longrightarrow> p = q"
  unfolding handler_pattern_def using pattern_parse_unique by blast

definition table_wf :: "(string \<Rightarrow> string) \<Rightarrow> mounted list \<Rightarrow> table_build \<Rightarrow> bool" where
  "table_wf pdec hs b \<longleftrightarrow> apart (map gp_pattern (tb_groups b)) \<and> (\<forall>g \<in> set (tb_groups b). group_wf pdec hs g) \<and>
     (tb_errors b = [] \<longrightarrow> (\<forall>h \<in> set hs. group_holds pdec (tb_groups b) h))"

lemma group_wf_more: "group_wf pdec hs g \<Longrightarrow> set hs \<subseteq> set hs' \<Longrightarrow> group_wf pdec hs' g"
  by (auto simp: group_wf_def)

lemma apart_snoc: "apart (ps @ [p]) \<longleftrightarrow> apart ps \<and> (\<forall>q \<in> set ps. \<not> conflicts q p)"
  by (auto simp: apart_def sorted_wrt_append)

lemma group_holds_mono:
  assumes "\<And>g. g \<in> set gs \<Longrightarrow> \<exists>g' \<in> set gs'. gp_pattern g' = gp_pattern g \<and> set (gp_targets g) \<subseteq> set (gp_targets g')" "group_holds pdec gs h"
  shows "group_holds pdec gs' h"
proof -
  obtain g http target who where "g \<in> set gs" "mh_http h = Some http" "(hh_method http, target, who) \<in> set (gp_targets g)"
    "rt_handler target = h" "handler_pattern pdec h (gp_pattern g)" using assms(2) unfolding group_holds_def by blast
  moreover from this(1) obtain g' where "g' \<in> set gs'" "gp_pattern g' = gp_pattern g" "set (gp_targets g) \<subseteq> set (gp_targets g')"
    using assms(1) by blast
  ultimately show ?thesis unfolding group_holds_def by (intro bexI [of _ g'] exI [of _ http] exI [of _ target] exI [of _ who]) auto
qed

lemma place_target_wf:
  assumes wf: "table_wf pdec hs b" and h: "mh_http h = Some http" "rt_handler target = h" "handler_pattern pdec h p"
  shows "table_wf pdec (h # hs) (place_target p (hh_method http) target who b)"
proof (cases "position_of (\<lambda>g. conflicts (gp_pattern g) p) (tb_groups b)")
  case None
  let ?g = "\<lparr>gp_pattern = p, gp_targets = [(hh_method http, target, who)]\<rparr>"
  have "\<forall>q \<in> set (map gp_pattern (tb_groups b)). \<not> conflicts q p" using None by (auto simp: position_of_None)
  moreover have "group_wf pdec (h # hs) ?g" using h by (simp add: group_wf_def)
  moreover have "group_holds pdec (tb_groups b @ [?g]) h"
    using h unfolding group_holds_def by (intro bexI [of _ ?g] exI conjI) auto
  moreover have "group_holds pdec (tb_groups b @ [?g]) h'" if "group_holds pdec (tb_groups b) h'" for h'
    using that by (rule group_holds_mono [rotated]) auto
  ultimately show ?thesis using None wf group_wf_more [of pdec hs _ "h # hs"]
    by (auto simp: place_target_def table_wf_def apart_snoc)
next
  case (Some i)
  define g where "g = tb_groups b ! i"
  have i: "i < length (tb_groups b)" "conflicts (gp_pattern g) p" using position_of_Some [OF Some] by (simp_all add: g_def)
  have refused: "table_wf pdec (h # hs) (refuse f b)" for f
    using wf group_wf_more [of pdec hs _ "h # hs"] by (auto simp: table_wf_def refuse_def)
  show ?thesis
  proof (cases "pt_raw (gp_pattern g) \<noteq> pt_raw p \<or> find (\<lambda>(existing, _, _). existing = hh_method http) (gp_targets g) \<noteq> None")
    case True
    then show ?thesis using Some refused by (auto simp: place_target_def g_def [symmetric] Let_def split: option.splits)
  next
    case False
    then have free: "find (\<lambda>(existing, _, _). existing = hh_method http) (gp_targets g) = None" by blast
    let ?g = "g\<lparr>gp_targets := gp_targets g @ [(hh_method http, target, who)]\<rparr>"
    let ?b = "b\<lparr>tb_groups := (tb_groups b)[i := ?g]\<rparr>"
    have placed: "place_target p (hh_method http) target who b = ?b"
      using Some False free by (simp add: place_target_def g_def [symmetric] Let_def)
    have gwf: "group_wf pdec hs g" using wf i(1) by (simp add: table_wf_def g_def)
    then have "gp_pattern g = p" using handler_pattern_unique h(3) False by (auto simp: group_wf_def)
    then have "group_wf pdec (h # hs) ?g" using gwf False by (auto simp: group_wf_def find_None_iff)
    moreover have "map gp_pattern (tb_groups ?b) = map gp_pattern (tb_groups b)" using i(1) by (simp add: map_update g_def list_update_same_conv)
    moreover have "group_holds pdec (tb_groups ?b) h"
      using h \<open>gp_pattern g = p\<close> i(1) unfolding group_holds_def
      by (intro bexI [of _ ?g] exI [of _ http] exI [of _ target] exI [of _ who]) (auto intro: set_update_memI)
    moreover have "group_holds pdec (tb_groups ?b) h'" if "group_holds pdec (tb_groups b) h'" for h'
    proof (rule group_holds_mono [OF _ that])
      fix g' assume "g' \<in> set (tb_groups b)"
      then obtain j where j: "j < length (tb_groups b)" "g' = tb_groups b ! j" by (auto simp: in_set_conv_nth)
      show "\<exists>g'' \<in> set (tb_groups ?b). gp_pattern g'' = gp_pattern g' \<and> set (gp_targets g') \<subseteq> set (gp_targets g'')"
      proof (rule bexI)
        show "tb_groups ?b ! j \<in> set (tb_groups ?b)" by (rule nth_mem) (use j in simp)
        show "gp_pattern (tb_groups ?b ! j) = gp_pattern g' \<and> set (gp_targets g') \<subseteq> set (gp_targets (tb_groups ?b ! j))"
          using j i(1) by (auto simp: g_def nth_list_update)
      qed
    qed
    ultimately show ?thesis using wf i(1) group_wf_more [of pdec hs _ "h # hs"] set_update_subset_insert [of "tb_groups b" i ?g]
      unfolding placed table_wf_def by auto
  qed
qed

lemma table_wf_more: "table_wf pdec hs b \<Longrightarrow> tb_errors b' \<noteq> [] \<Longrightarrow> tb_groups b' = tb_groups b \<Longrightarrow> table_wf pdec (h # hs) b'"
  using group_wf_more [of pdec hs _ "h # hs"] by (auto simp: table_wf_def)

lemma build_route_wf:
  assumes "table_wf pdec hs b" "mh_http h = Some http" "handler_pattern pdec h p"
  shows "table_wf pdec (h # hs) (build_route default_limit mount h http p b)"
  unfolding build_route_def Let_def split_beta
  by (rule place_target_wf) (use assms in \<open>auto simp: table_wf_def\<close>)

lemma build_handler_wf:
  assumes "table_wf pdec hs b"
  shows "table_wf pdec (h # hs) (build_handler pdec default_limit mount h b)"
proof -
  have refused: "table_wf pdec (h # hs) (refuse f b)" for f by (rule table_wf_more [OF assms]) (simp_all add: refuse_def)
  have "table_wf pdec (h # hs) (build_route default_limit mount h http p b)"
    if "mh_http h = Some http" "mh_route h = Some route" "pattern_parse pdec (route_text h route) = Inr p" for http route p
    by (rule build_route_wf [OF assms that(1)]) (use that in \<open>auto simp: handler_pattern_def\<close>)
  then show ?thesis using refused by (auto simp: build_handler_def Let_def split: option.splits sum.splits)
qed

lemma build_handlers_wf: "table_wf pdec hs b \<Longrightarrow> table_wf pdec (rev hs' @ hs) (fold (build_handler pdec default_limit mount) hs' b)"
proof (induction hs' arbitrary: hs b)
  case (Cons h hs')
  from Cons.IH [OF build_handler_wf [OF Cons.prems]] show ?case by simp
qed simp

section \<open>The table as it routes\<close>

definition routes_wf :: "(string \<Rightarrow> string) \<Rightarrow> mounted list \<Rightarrow> route_entry list \<Rightarrow> bool" where
  "routes_wf pdec hs es \<longleftrightarrow>
     sorted (map (\<lambda>e. precedence (re_pattern e)) es) \<and> distinct es \<and>
     (\<forall>e \<in> set es. \<forall>e' \<in> set es. e \<noteq> e' \<longrightarrow> \<not> conflicts (re_pattern e) (re_pattern e')) \<and>
     (\<forall>e \<in> set es. \<exists>h \<in> set hs. handler_pattern pdec h (re_pattern e)) \<and>
     (\<forall>h \<in> set hs. \<exists>e \<in> set es. \<exists>http target. mh_http h = Some http \<and> entry_target e (hh_method http) = Some target \<and>
        rt_handler target = h \<and> handler_pattern pdec h (re_pattern e))"

lemma entry_target_of:
  assumes "distinct (map fst (gp_targets g))" "(meth, target, who) \<in> set (gp_targets g)"
  shows "entry_target (entry_of from_str g) meth = Some target"
proof -
  have "find (\<lambda>(candidate, _). candidate = meth) (map (\<lambda>(meth, target, _). (meth, target)) ts) = Some (meth, target)"
    if "distinct (map fst ts)" "(meth, target, who) \<in> set ts" for ts :: "(string \<times> route_target \<times> who) list"
    using that by (induction ts) (auto simp: image_iff)
  then show ?thesis using assms by (simp add: entry_target_def entry_of_def Let_def)
qed

lemma router_build_wf:
  assumes "router_build pdec from_str default_limit mount hs st = (Inr es, st')"
  shows "routes_wf pdec hs es"
proof -
  define b where "b = fold (build_handler pdec default_limit mount) hs \<lparr>tb_stage = st, tb_errors = [], tb_groups = [], tb_zeros = []\<rparr>"
  have "table_wf pdec [] \<lparr>tb_stage = st, tb_errors = [], tb_groups = [], tb_zeros = []\<rparr>" by (simp add: table_wf_def apart_def)
  from build_handlers_wf [OF this, of hs default_limit mount] have wf: "table_wf pdec (rev hs) b" by (simp add: b_def)
  have es: "es = sort_key (\<lambda>e. precedence (re_pattern e)) (map (entry_of from_str) (tb_groups b))" "tb_errors b = []"
    using assms by (auto simp: router_build_def b_def [symmetric] Let_def split: if_splits)
  have pattern: "re_pattern (entry_of from_str g) = gp_pattern g" for g by (simp add: entry_of_def Let_def)
  have apart: "apart (map re_pattern (map (entry_of from_str) (tb_groups b)))" using wf by (simp add: table_wf_def comp_def pattern)
  have sorted_apart: "\<not> conflicts (re_pattern (xs ! i)) (re_pattern (xs ! j))" if "sorted_wrt (\<lambda>p q. \<not> conflicts p q) (map re_pattern xs)" "i < j" "j < length xs" for xs :: "route_entry list" and i j
    using that by (simp add: sorted_wrt_iff_nth_less)
  have distinct: "distinct xs" if "sorted_wrt (\<lambda>p q. \<not> conflicts p q) (map re_pattern xs)" for xs :: "route_entry list"
    unfolding distinct_conv_nth using sorted_apart [OF that] conflicts_refl by (metis linorder_neqE_nat)
  have pairs: "\<not> conflicts (re_pattern e) (re_pattern e')"
    if "sorted_wrt (\<lambda>p q. \<not> conflicts p q) (map re_pattern xs)" "e \<in> set xs" "e' \<in> set xs" "e \<noteq> e'" for xs :: "route_entry list" and e e'
    using sorted_apart [OF that(1)] that(2-4) conflicts_sym by (metis in_set_conv_nth linorder_neqE_nat)
  have set: "set es = entry_of from_str ` set (tb_groups b)" by (simp add: es(1))
  have "\<exists>e \<in> set es. \<exists>http target. mh_http h = Some http \<and> entry_target e (hh_method http) = Some target \<and>
        rt_handler target = h \<and> handler_pattern pdec h (re_pattern e)" if h: "h \<in> set hs" for h
  proof -
    obtain g http target who where g: "g \<in> set (tb_groups b)" "mh_http h = Some http" "(hh_method http, target, who) \<in> set (gp_targets g)"
      "rt_handler target = h" "handler_pattern pdec h (gp_pattern g)"
      using wf es(2) h unfolding table_wf_def group_holds_def set_rev by blast
    have "distinct (map fst (gp_targets g))" using wf g(1) by (auto simp: table_wf_def group_wf_def)
    from entry_target_of [OF this g(3)] show ?thesis using g unfolding set by (intro bexI [of _ "entry_of from_str g"]) (auto simp: pattern)
  qed
  moreover have "\<exists>h \<in> set hs. handler_pattern pdec h (re_pattern e)" if "e \<in> set es" for e
    using that wf by (auto simp: set table_wf_def group_wf_def pattern)
  moreover have "distinct es" using distinct [OF apart [unfolded apart_def]] by (simp add: es(1))
  ultimately show ?thesis using pairs [OF apart [unfolded apart_def]] by (auto simp: routes_wf_def es(1))
qed

section \<open>The most specific entry\<close>

lemma precedence_conflicts:
  assumes "decodes_escapes pdec" "rest_last (pt_segments p)" "rest_last (pt_segments q)"
    "\<forall>s \<in> set (pt_segments p) \<union> set (pt_segments q). plain_segment s"
    "precedence p = precedence q" "matches pdec p path \<noteq> None" "matches pdec q path \<noteq> None"
  shows "conflicts p q"
proof -
  have len: "length (pt_segments p) = length (pt_segments q)" using assms(5) unfolding precedence_def by (metis length_map)
  have "segments_take pdec ss ps \<Longrightarrow> segments_take pdec ts ps \<Longrightarrow> map segment_rank ss = map segment_rank ts \<Longrightarrow>
      \<forall>s \<in> set ss \<union> set ts. plain_segment s \<Longrightarrow> rest_last ss \<Longrightarrow> list_all (\<lambda>(a, b). same_position a b) (zip ss ts)" for ss ts ps
  proof (induction ss arbitrary: ts ps)
    case Nil then show ?case by simp
  next
    case (Cons s ss)
    obtain t ts' where ts: "ts = t # ts'" using Cons.prems(3) by (cases ts) auto
    obtain a ps' where ps: "ps = a # ps'" using Cons.prems(1) by (cases ps) auto
    have rank: "segment_rank s = segment_rank t" using Cons.prems(3) ts by simp
    have same: "same_position s t"
    proof (cases "\<exists>x y. s = SegStatic x \<and> t = SegStatic y")
      case True
      then show ?thesis using Cons.prems(1,2,4) ts ps static_same [OF assms(1)] by auto
    next
      case False then show ?thesis using rank by (cases s; cases t) auto
    qed
    show ?case
    proof (cases "is_rest s")
      case True
      then have "ss = []" using Cons.prems(5) by (cases ss) (auto simp: rest_last_def)
      then show ?thesis using same ts by simp
    next
      case False
      then have "\<not> is_rest t" using rank by (cases s; cases t) auto
      moreover have "rest_last ss" using Cons.prems(5) by (cases ss) (auto simp: rest_last_def)
      ultimately show ?thesis using Cons.IH [of ps' ts'] Cons.prems False ts ps same by simp
    qed
  qed
  moreover have "segments_take pdec (pt_segments p) (path_segments path)" "segments_take pdec (pt_segments q) (path_segments path)"
    using assms(6,7) match_from_takes [of 0] by (simp_all add: matches_def match_split_def path_segments_def Let_def)
  ultimately show ?thesis using assms(2,4,5) len by (simp add: conflicts_def precedence_def)
qed

lemma route_split_first:
  "route_split pdec es meth path pieces =
     (case find (\<lambda>e. match_split pdec (re_pattern e) path pieces \<noteq> None) es of
        None \<Rightarrow> RNotFound
      | Some e \<Rightarrow> answer_of e meth (the (match_split pdec (re_pattern e) path pieces)))"
  by (induction es) (auto split: option.splits)

lemma route_first:
  "route pdec es meth path =
     (case find (\<lambda>e. matches pdec (re_pattern e) path \<noteq> None) es of
        None \<Rightarrow> RNotFound
      | Some e \<Rightarrow> answer_of e meth (the (matches pdec (re_pattern e) path)))"
  unfolding route_def Let_def route_split_first matches_def ..

definition plain_handler :: "mounted \<Rightarrow> bool" where
  "plain_handler h = (case mh_route h of None \<Rightarrow> True | Some r \<Rightarrow> CHR ''%'' \<notin> set (route_text h r))"

lemma handler_pattern_plain:
  assumes "decodes_escapes pdec" "plain_handler h" "handler_pattern pdec h p"
  shows "rest_last (pt_segments p)" "\<forall>s \<in> set (pt_segments p). plain_segment s"
proof -
  obtain r where r: "mh_route h = Some r" "pattern_parse pdec (route_text h r) = Inr p" using assms(3) by (auto simp: handler_pattern_def)
  then obtain segs where "parse_segments pdec (route_text h r) False = Inr segs" "pt_segments p = segs"
    by (cases "parse_segments pdec (route_text h r) False") (auto simp: pattern_parse_def)
  then show "rest_last (pt_segments p)" "\<forall>s \<in> set (pt_segments p). plain_segment s"
    using parse_segments_plain [OF assms(1)] assms(2) r(1) by (auto simp: plain_handler_def)
qed

lemma first_least:
  assumes "decodes_escapes pdec" "list_all plain_handler hs" "routes_wf pdec hs es"
    "e \<in> set es" "matches pdec (re_pattern e) path \<noteq> None"
  shows "find (\<lambda>e. matches pdec (re_pattern e) path \<noteq> None) es = Some e \<longleftrightarrow>
    (\<forall>e' \<in> set es. e' \<noteq> e \<longrightarrow> matches pdec (re_pattern e') path \<noteq> None \<longrightarrow> precedence (re_pattern e) < precedence (re_pattern e'))"
proof -
  have plain: "rest_last (pt_segments (re_pattern x)) \<and> (\<forall>s \<in> set (pt_segments (re_pattern x)). plain_segment s)" if "x \<in> set es" for x
    using assms(1,2,3) that handler_pattern_plain by (fastforce simp: routes_wf_def list_all_iff)
  have differ: "precedence (re_pattern x) \<noteq> precedence (re_pattern y)"
    if "x \<in> set es" "y \<in> set es" "x \<noteq> y" "matches pdec (re_pattern x) path \<noteq> None" "matches pdec (re_pattern y) path \<noteq> None" for x y
    using precedence_conflicts [OF assms(1), of "re_pattern x" "re_pattern y" path] plain that assms(3) by (auto simp: routes_wf_def)
  have sorted: "precedence (re_pattern (es ! i)) \<le> precedence (re_pattern (es ! j))" if "i \<le> j" "j < length es" for i j
    using assms(3) that sorted_nth_mono [of "map (\<lambda>e. precedence (re_pattern e)) es" i j] by (simp add: routes_wf_def)
  show ?thesis
  proof
    assume "find (\<lambda>e. matches pdec (re_pattern e) path \<noteq> None) es = Some e"
    then obtain i where i: "i < length es" "e = es ! i" "\<forall>j < i. matches pdec (re_pattern (es ! j)) path = None" by (auto simp: find_Some_iff)
    show "\<forall>e' \<in> set es. e' \<noteq> e \<longrightarrow> matches pdec (re_pattern e') path \<noteq> None \<longrightarrow> precedence (re_pattern e) < precedence (re_pattern e')"
    proof (intro ballI impI)
      fix e' assume e': "e' \<in> set es" "e' \<noteq> e" "matches pdec (re_pattern e') path \<noteq> None"
      then obtain j where j: "j < length es" "e' = es ! j" by (auto simp: in_set_conv_nth)
      then have "i \<le> j" using i(3) e'(3) by (meson not_le)
      then show "precedence (re_pattern e) < precedence (re_pattern e')"
        using sorted [of i j] differ [OF assms(4) e'(1)] i(2) j e'(2,3) assms(5) by (metis order_le_less)
    qed
  next
    assume least: "\<forall>e' \<in> set es. e' \<noteq> e \<longrightarrow> matches pdec (re_pattern e') path \<noteq> None \<longrightarrow> precedence (re_pattern e) < precedence (re_pattern e')"
    obtain x where x: "find (\<lambda>e. matches pdec (re_pattern e) path \<noteq> None) es = Some x"
      using assms(4,5) by (cases "find (\<lambda>e. matches pdec (re_pattern e) path \<noteq> None) es") (auto simp: find_None_iff)
    then obtain i where i: "i < length es" "x = es ! i" "matches pdec (re_pattern x) path \<noteq> None"
      "\<forall>j < i. matches pdec (re_pattern (es ! j)) path = None" by (auto simp: find_Some_iff)
    obtain k where k: "k < length es" "e = es ! k" using assms(4) by (auto simp: in_set_conv_nth)
    then have "i \<le> k" using i(4) assms(5) by (meson not_le)
    then have "precedence (re_pattern x) \<le> precedence (re_pattern e)" using sorted k i(2) by blast
    then have "x = e" using least i(1-3) nth_mem [OF i(1)] by (metis leD)
    then show "find (\<lambda>e. matches pdec (re_pattern e) path \<noteq> None) es = Some e" using x by simp
  qed
qed

text \<open>
  C29. The most specific pattern decides. In a table the router built of routes written without a percent escape, a
  request is answered from the one entry that matches its path with the strictly least precedence among all the
  matching ones: its handler for the method, the \<open>GET\<close> handler for a \<open>HEAD\<close>, the \<open>Allow\<close> answer of an \<open>OPTIONS\<close>, or
  a 405. It is not found exactly when no entry matches.
\<close>

theorem route_most_specific:
  assumes "decodes_escapes pdec" "list_all plain_handler hs" "router_build pdec from_str default_limit mount hs st = (Inr es, st')"
  shows "if \<exists>e \<in> set es. matches pdec (re_pattern e) path \<noteq> None
    then \<exists>e \<in> set es. \<exists>params. matches pdec (re_pattern e) path = Some params \<and> route pdec es meth path = answer_of e meth params \<and>
      (\<forall>e' \<in> set es. e' \<noteq> e \<longrightarrow> matches pdec (re_pattern e') path \<noteq> None \<longrightarrow> precedence (re_pattern e) < precedence (re_pattern e'))
    else route pdec es meth path = RNotFound"
proof (cases "find (\<lambda>e. matches pdec (re_pattern e) path \<noteq> None) es")
  case None
  then have "route pdec es meth path = RNotFound" unfolding route_first None by simp
  then show ?thesis using None by (auto simp: find_None_iff)
next
  case (Some e)
  then have e: "e \<in> set es" "matches pdec (re_pattern e) path \<noteq> None" by (auto simp: find_Some_iff)
  have "\<forall>e' \<in> set es. e' \<noteq> e \<longrightarrow> matches pdec (re_pattern e') path \<noteq> None \<longrightarrow> precedence (re_pattern e) < precedence (re_pattern e')"
    using first_least [OF assms(1,2) router_build_wf [OF assms(3)] e] Some by blast
  moreover obtain params where "matches pdec (re_pattern e) path = Some params" using e(2) by blast
  ultimately show ?thesis using e Some unfolding route_first by fastforce
qed

definition show_user :: mounted where
  "show_user = \<lparr>mh_controller = \<lparr>tn_id = RustType 1 ''app::Users''\<rparr>, mh_name = ''show'',
     mh_http = Some (http_handler_new ''GET'' 1), mh_route = Some ''/{id}'', mh_prefix = Some ''/users'', mh_timeout = None,
     mh_timeout_on_method = False, mh_body_limit = None\<rparr>"

definition show_me :: mounted where
  "show_me = show_user\<lparr>mh_name := ''me'', mh_http := Some (http_handler_new ''GET'' 2), mh_route := Some ''/me''\<rparr>"

theorem route_most_specific_witness:
  "\<exists>e params. matches (\<lambda>s. s) (re_pattern e) ''/users/me'' = Some params \<and>
     route (\<lambda>s. s) (projr (fst (router_build (\<lambda>s. s) Some 100 [] [show_user, show_me] stage_empty))) ''GET'' ''/users/me'' = answer_of e ''GET'' params"
proof -
  let ?b = "router_build (\<lambda>s. s) Some 100 [] [show_user, show_me] stage_empty"
  have "\<not> isl (fst ?b)" by code_simp
  then have built: "?b = (Inr (projr (fst ?b)), snd ?b)" by (cases "fst ?b") (simp_all add: prod_eq_iff)
  have hit: "list_ex (\<lambda>e. matches (\<lambda>s. s) (re_pattern e) ''/users/me'' \<noteq> None) (projr (fst ?b))" by code_simp
  have "list_all plain_handler [show_user, show_me]" by code_simp
  moreover have "decodes_escapes (\<lambda>s. s)" by (simp add: decodes_escapes_def)
  ultimately show ?thesis
    using route_most_specific [OF _ _ built, of "''/users/me''" "''GET''"] hit by (auto simp: list_ex_iff)
qed

section \<open>Every handler is reached\<close>

definition table_texts :: "route_entry list \<Rightarrow> string list" where
  "table_texts es = concat (map (\<lambda>e. List.map_filter (\<lambda>s. case s of SegStatic t \<Rightarrow> Some t | _ \<Rightarrow> None) (pt_segments (re_pattern e))) es)"

definition fresh_piece :: "route_entry list \<Rightarrow> string" where
  "fresh_piece es = replicate (Suc (sum_list (map length (table_texts es)))) (CHR ''x'')"

lemma fresh_piece_new: "t \<in> set (table_texts es) \<Longrightarrow> t \<noteq> fresh_piece es"
proof
  assume t: "t \<in> set (table_texts es)" "t = fresh_piece es"
  have "length t \<le> sum_list (map length (table_texts es))" using t(1) by (intro member_le_sum_list) auto
  then show False using t(2) by (simp add: fresh_piece_def)
qed

lemma fresh_piece_plain: "plain_piece (fresh_piece es)" "CHR ''%'' \<notin> set (fresh_piece es)"
  by (auto simp: fresh_piece_def plain_piece_def)

definition own_path :: "route_entry list \<Rightarrow> pattern \<Rightarrow> string list" where
  "own_path es p = map (\<lambda>s. case s of SegStatic t \<Rightarrow> t | _ \<Rightarrow> fresh_piece es) (pt_segments p)"

lemma own_path_plain: "\<forall>s \<in> set (pt_segments p). plain_segment s \<Longrightarrow> \<forall>q \<in> set (own_path es p). plain_piece q"
  using fresh_piece_plain(1) by (fastforce simp: own_path_def plain_piece_def split: segment.splits)

lemma own_path_taken:
  "\<forall>s \<in> set segs. plain_segment s \<and> \<not> is_rest s \<Longrightarrow>
     segments_take pdec segs (map (\<lambda>s. case s of SegStatic t \<Rightarrow> t | _ \<Rightarrow> fresh_piece es) segs)"
  using fresh_piece_plain(1) by (induction segs) (auto simp: static_matches_def plain_piece_def split: segment.splits)

text \<open>Nothing of lower precedence takes a pattern's own path.\<close>

lemma own_path_least:
  assumes "decodes_escapes pdec" "segments_take pdec ts (map (\<lambda>s. case s of SegStatic t \<Rightarrow> t | _ \<Rightarrow> fresh_piece es) segs)"
    "\<forall>s \<in> set segs. \<not> is_rest s" "\<forall>t. SegStatic t \<in> set ts \<longrightarrow> t \<in> set (table_texts es)" "\<forall>s \<in> set ts. plain_segment s"
  shows "\<not> map segment_rank ts < map segment_rank segs"
  using assms(2-)
proof (induction segs arbitrary: ts)
  case Nil then show ?case by simp
next
  case (Cons s segs)
  obtain t ts' where ts: "ts = t # ts'" using Cons.prems(1) by (cases ts) auto
  show ?case
  proof (cases "is_rest t")
    case True
    then have "segment_rank s < segment_rank t" using Cons.prems(2) by (cases s; cases t) auto
    then show ?thesis using ts by simp
  next
    case False
    then have rest: "segments_take pdec ts' (map (\<lambda>s. case s of SegStatic t \<Rightarrow> t | _ \<Rightarrow> fresh_piece es) segs)"
      "segment_takes pdec t (case s of SegStatic t \<Rightarrow> t | _ \<Rightarrow> fresh_piece es)" using Cons.prems(1) ts by auto
    have "segment_rank s \<le> segment_rank t"
    proof (cases t)
      case (SegStatic u)
      then have "u \<noteq> fresh_piece es" using Cons.prems(3) ts fresh_piece_new by auto
      then show ?thesis using rest(2) SegStatic fresh_piece_plain(2) [of es] Cons.prems(2) by (cases s) (auto simp: static_matches_def)
    qed (use Cons.prems(2) in \<open>cases s; auto\<close>)+
    moreover have "\<not> map segment_rank ts' < map segment_rank segs" by (rule Cons.IH) (use rest Cons.prems ts in auto)
    ultimately show ?thesis using ts by simp
  qed
qed

text \<open>
  The characters of a path segment (RFC 3986) other than an escape, and a segment of a route a client can send as it is
  written: of those characters and no dot segment.
\<close>

definition path_char :: "char \<Rightarrow> bool" where
  "path_char c \<longleftrightarrow>
     (let n = of_char c :: nat in 48 \<le> n \<and> n \<le> 57 \<or> 65 \<le> n \<and> n \<le> 90 \<or> 97 \<le> n \<and> n \<le> 122) \<or>
     c \<in> {CHR ''-'', CHR ''.'', CHR ''_'', CHR ''~'', CHR ''!'', CHR ''$'', CHR ''&'', CHR 0x27, CHR ''('', CHR '')'', CHR ''*'', CHR ''+'',
          CHR '','', CHR '';'', CHR ''='', CHR '':'', CHR ''@''}"

fun sendable :: "segment \<Rightarrow> bool" where
  "sendable (SegStatic t) \<longleftrightarrow> list_all path_char t \<and> \<not> is_dot_segment t"
| "sendable _ \<longleftrightarrow> True"

lemma path_char_ranges: "\<not> path_char (CHR 0x5C)" "\<not> path_char (CHR ''%'')" "path_char (CHR ''x'')"
  by code_simp+

lemma no_dot_segment:
  assumes "\<forall>q \<in> set ps. plain_piece q \<and> \<not> is_dot_segment q"
  shows "\<not> has_dot_segment (path_of ps)"
proof -
  have empty: "\<not> is_dot_segment []" by (simp add: is_dot_segment_def)
  have "\<not> list_ex is_dot_segment (split_on (CHR ''/'') (join_on (CHR ''/'') ps))"
  proof (cases "ps = []")
    case False
    then have "split_on (CHR ''/'') (join_on (CHR ''/'') ps) = ps" using assms by (intro split_join) (auto simp: plain_piece_def)
    then show ?thesis using assms by (simp add: list_ex_iff)
  qed (simp add: empty)
  then show ?thesis using empty by (simp add: has_dot_segment_def path_of_def)
qed

lemma no_encoded_backslash: "CHR ''%'' \<notin> set path \<Longrightarrow> \<not> has_encoded_backslash path"
  by (induction path) auto

lemma join_on_chars: "list_all P (join_on c ps) \<longleftrightarrow> list_all (list_all P) ps \<and> (1 < length ps \<longrightarrow> P c)"
  by (induction c ps rule: join_on.induct) auto

lemma own_path_sent:
  assumes "\<forall>s \<in> set (pt_segments p). plain_segment s \<and> sendable s"
  shows "malformed (path_of (own_path es p)) = None" "list_all (\<lambda>c. path_char c \<or> c = CHR ''/'') (path_of (own_path es p))"
proof -
  have fresh: "list_all path_char (fresh_piece es)" "\<not> is_dot_segment (fresh_piece es)"
    using path_char_ranges(3) by (simp_all add: fresh_piece_def list_all_iff is_dot_segment_def)
  have pieces: "list_all path_char q \<and> \<not> is_dot_segment q" if q: "q \<in> set (own_path es p)" for q
  proof -
    obtain s where s: "s \<in> set (pt_segments p)" "q = (case s of SegStatic t \<Rightarrow> t | _ \<Rightarrow> fresh_piece es)" using q by (auto simp: own_path_def)
    show ?thesis using assms [rule_format, OF s(1)] fresh unfolding s(2) by (cases s) simp_all
  qed
  have "list_all (list_all (\<lambda>c. path_char c \<or> c = CHR ''/'')) (own_path es p)" using pieces by (auto simp: list_all_iff)
  then show chars: "list_all (\<lambda>c. path_char c \<or> c = CHR ''/'') (path_of (own_path es p))" by (simp add: path_of_def join_on_chars)
  have "\<forall>q \<in> set (own_path es p). plain_piece q" using own_path_plain assms by blast
  then have "\<not> has_dot_segment (path_of (own_path es p))" using pieces by (intro no_dot_segment) blast
  moreover have "CHR 0x5C \<notin> set (path_of (own_path es p))" "CHR ''%'' \<notin> set (path_of (own_path es p))"
    using chars path_char_ranges by (auto simp: list_all_iff)
  ultimately show "malformed (path_of (own_path es p)) = None" using no_encoded_backslash by (simp add: malformed_def has_backslash_def)
qed

lemma own_path_found:
  assumes "decodes_escapes pdec" "list_all plain_handler hs" "routes_wf pdec hs es" "e \<in> set es"
    "\<forall>s \<in> set (pt_segments (re_pattern e)). \<not> is_rest s"
  shows "find (\<lambda>e'. matches pdec (re_pattern e') (path_of (own_path es (re_pattern e))) \<noteq> None) es = Some e"
proof -
  let ?path = "path_of (own_path es (re_pattern e))"
  have plain: "rest_last (pt_segments (re_pattern e))" "\<forall>s \<in> set (pt_segments (re_pattern e)). plain_segment s" if "e \<in> set es" for e
    using assms(1-3) that handler_pattern_plain unfolding routes_wf_def list_all_iff by metis+
  have segs: "path_segments ?path = own_path es (re_pattern e)"
    by (rule path_segments_path_of [OF own_path_plain [OF plain(2) [OF assms(4)]]])
  have takes: "matches pdec q ?path \<noteq> None \<longleftrightarrow> segments_take pdec (pt_segments q) (own_path es (re_pattern e))" for q
    using match_from_takes [of 0 "split_path (normalize ?path)" pdec "normalize ?path" "[]" "pt_segments q"] segs
    by (simp add: matches_def match_split_def path_segments_def Let_def)
  have "segments_take pdec (pt_segments (re_pattern e)) (own_path es (re_pattern e))"
    unfolding own_path_def by (rule own_path_taken) (use plain(2) [OF assms(4)] assms(5) in blast)
  then have hit: "matches pdec (re_pattern e) ?path \<noteq> None" unfolding takes .
  have "precedence (re_pattern e) < precedence (re_pattern e')"
    if e': "e' \<in> set es" "e' \<noteq> e" "matches pdec (re_pattern e') ?path \<noteq> None" for e'
  proof -
    have texts: "\<forall>t. SegStatic t \<in> set (pt_segments (re_pattern e')) \<longrightarrow> t \<in> set (table_texts es)"
      using e'(1) by (force simp: table_texts_def map_filter_def)
    have "\<not> precedence (re_pattern e') < precedence (re_pattern e)"
      unfolding precedence_def
      by (rule own_path_least [OF assms(1) _ assms(5) texts plain(2) [OF e'(1)]]) (use e'(3) [unfolded takes] in \<open>simp add: own_path_def\<close>)
    moreover have "precedence (re_pattern e') \<noteq> precedence (re_pattern e)"
      using precedence_conflicts [OF assms(1) plain(1) [OF e'(1)], of "re_pattern e" ?path] plain [OF assms(4)] plain(2) [OF e'(1)]
        e' hit assms(3,4) unfolding routes_wf_def by blast
    ultimately show ?thesis by simp
  qed
  then show ?thesis using first_least [OF assms(1-4) hit] by blast
qed

text \<open>
  C30. Every mounted handler can be reached. In a table the router built of routes written without a percent escape,
  each handler whose route has no \<open>{*rest}\<close> and whose static segments are written in the characters of a path, none a
  dot segment, is found for some request: there is a path of those characters, not one refused before routing, for
  which the router finds that handler under its method.
\<close>

theorem handler_reached:
  assumes "decodes_escapes pdec" "list_all plain_handler hs" "router_build pdec from_str default_limit mount hs st = (Inr es, st')"
    "h \<in> set hs" "mh_http h = Some http" "handler_pattern pdec h p" "\<forall>s \<in> set (pt_segments p). \<not> is_rest s \<and> sendable s"
  shows "\<exists>path target params. list_all (\<lambda>c. path_char c \<or> c = CHR ''/'') path \<and> malformed path = None \<and>
    route pdec es (hh_method http) path = RFound target params False \<and> rt_handler target = h"
proof -
  note wf = router_build_wf [OF assms(3)]
  obtain e target where e: "e \<in> set es" "entry_target e (hh_method http) = Some target" "rt_handler target = h" "handler_pattern pdec h (re_pattern e)"
    using wf assms(4,5) unfolding routes_wf_def by fastforce
  have p: "re_pattern e = p" using e(4) assms(6) by (auto simp: handler_pattern_def)
  let ?path = "path_of (own_path es p)"
  have "find (\<lambda>e. matches pdec (re_pattern e) ?path \<noteq> None) es = Some e"
    using own_path_found [OF assms(1,2) wf e(1)] assms(7) unfolding p by blast
  then have "route pdec es (hh_method http) ?path = RFound target (the (matches pdec (re_pattern e) ?path)) False"
    using e(2) unfolding route_first by (simp add: answer_of_def)
  moreover have "plain_handler h" using assms(2,4) by (simp add: list_all_iff)
  ultimately show ?thesis using own_path_sent [of p es] handler_pattern_plain(2) [OF assms(1) _ assms(6)] e(3) assms(7) by blast
qed

theorem handler_reached_witness:
  "\<exists>path target params. malformed path = None \<and> route (\<lambda>s. s) (projr (fst (router_build (\<lambda>s. s) Some 100 [] [show_user, show_me] stage_empty))) ''GET'' path =
     RFound target params False \<and> rt_handler target = show_user"
proof -
  let ?b = "router_build (\<lambda>s. s) Some 100 [] [show_user, show_me] stage_empty"
  have "\<not> isl (fst ?b)" by code_simp
  then have built: "?b = (Inr (projr (fst ?b)), snd ?b)" by (cases "fst ?b") (simp_all add: prod_eq_iff)
  have plain: "list_all plain_handler [show_user, show_me]" by code_simp
  have parsed: "pattern_parse (\<lambda>s. s) (route_text show_user ''/{id}'') =
      Inr \<lparr>pt_raw = ''/users/{id}'', pt_segments = [SegStatic ''users'', SegParam ''id'']\<rparr>" by code_simp
  then have "handler_pattern (\<lambda>s. s) show_user \<lparr>pt_raw = ''/users/{id}'', pt_segments = [SegStatic ''users'', SegParam ''id'']\<rparr>"
    by (auto simp: handler_pattern_def show_user_def)
  moreover have "decodes_escapes (\<lambda>s. s)" by (simp add: decodes_escapes_def)
  moreover have "mh_http show_user = Some (http_handler_new ''GET'' 1)" by (simp add: show_user_def)
  moreover have "sendable (SegStatic ''users'')" by code_simp
  ultimately show ?thesis using handler_reached [OF _ plain built, of show_user "http_handler_new ''GET'' 1"]
    by (fastforce simp: http_handler_new_def)
qed

end
