(* ===== verification/Item_Queue.thy ===== *)
theory Item_Queue
  imports Prepare "HOL-Library.Word"
begin

text \<open>
  The bounded queue of a call's frames (\<open>ulo-rpc/src/queue.rs\<close>). Producers and the reader run on any threads, so
  each operation is a sequence of atomic steps: a read-modify-write of \<open>held\<close>, a load or store of \<open>halted\<close>, one call
  into the channel. A thread's position in its operation is data, and \<open>q_step\<close> interleaves any number of producers
  with the reader. Steps on one location are ordered as the \<open>AcqRel\<close> operations order them.

  \<open>held\<close> is a \<open>usize\<close> and wraps. The channel is \<open>futures_channel::mpsc::unbounded\<close>, a parameter: a record of the
  operations the code calls, with \<open>channel_laws\<close> for what they do.
\<close>

section \<open>The channel\<close>

datatype 'a polled = PollPending | PollEnd | PollItem 'a

record ('c, 'a) channel_ops =
  ch_new :: 'c
  ch_send :: "'a \<Rightarrow> 'c \<Rightarrow> 'c option"
  ch_poll :: "'c \<Rightarrow> 'c \<times> 'a polled"
  ch_close :: "'c \<Rightarrow> 'c"
  ch_drop_receiver :: "'c \<Rightarrow> 'c"

text \<open>
  An unbounded channel gives its items in the order they were sent. A send fails exactly once the channel is closed
  or its receiver is gone, and a closed channel still gives the items sent before: a poll reads the end only of a
  closed channel with no item left. A poll may find nothing while an item is on its way in. Dropping the receiver
  drops the items. The last sender dropped closes the channel.
\<close>

definition channel_laws :: "('c, 'a) channel_ops \<Rightarrow> ('c \<Rightarrow> 'a list) \<Rightarrow> ('c \<Rightarrow> bool) \<Rightarrow> bool" where
  "channel_laws ops items shut \<longleftrightarrow>
     items (ch_new ops) = [] \<and> \<not> shut (ch_new ops) \<and>
     (\<forall>x c. case ch_send ops x c of
          None \<Rightarrow> shut c
        | Some c' \<Rightarrow> \<not> shut c \<and> items c' = items c @ [x] \<and> \<not> shut c') \<and>
     (\<forall>c. case ch_poll ops c of
          (c', PollItem x) \<Rightarrow> items c = x # items c' \<and> shut c' = shut c
        | (c', PollEnd) \<Rightarrow> items c = [] \<and> items c' = [] \<and> shut c \<and> shut c'
        | (c', PollPending) \<Rightarrow> items c' = items c \<and> shut c' = shut c) \<and>
     (\<forall>c. items (ch_close ops c) = items c \<and> shut (ch_close ops c)) \<and>
     (\<forall>c. items (ch_drop_receiver ops c) = [] \<and> shut (ch_drop_receiver ops c))"

section \<open>The queue and its operations\<close>

definition default_max_queued_items :: nat where
  "default_max_queued_items = 1024"

fun limit_of :: "setting_count \<Rightarrow> nat option" where
  "limit_of CountDefault = Some default_max_queued_items"
| "limit_of (CountMax items) = Some items"
| "limit_of CountUnlimited = None"

record 'c queue =
  qu_chan :: 'c
  qu_held :: "64 word"
  qu_limit :: "nat option"
  qu_halted :: bool

definition queue_new :: "('c, 'a) channel_ops \<Rightarrow> nat option \<Rightarrow> 'c queue" where
  "queue_new ops limit = \<lparr>qu_chan = ch_new ops, qu_held = 0, qu_limit = limit, qu_halted = False\<rparr>"

definition fetch_add :: "'c queue \<Rightarrow> 'c queue" where
  "fetch_add q = q\<lparr>qu_held := qu_held q + 1\<rparr>"

definition fetch_sub :: "'c queue \<Rightarrow> 'c queue" where
  "fetch_sub q = q\<lparr>qu_held := qu_held q - 1\<rparr>"

text \<open>\<open>limit.is_some_and(|limit| held >= limit)\<close>\<close>

definition over_limit :: "nat option \<Rightarrow> 64 word \<Rightarrow> bool" where
  "over_limit limit held = (case limit of None \<Rightarrow> False | Some limit \<Rightarrow> limit \<le> unat held)"

text \<open>
  Where a producer is: between operations, about to count an item in, past the count of an \<open>offer\<close> with the value
  it read, about to count a refused item out, about to send, about to count an unsent item out, about to close
  the channel in \<open>halt\<close>, or dropped. A finished \<open>offer\<close> leaves its answer.
\<close>

datatype 'a producer =
    PIdle "bool option"
  | POffer 'a
  | PCounted 'a "64 word"
  | PRefused
  | PFinish 'a
  | PSend 'a
  | PUnsent
  | PHalt
  | PClose
  | PDropped

fun offer_step :: "('c, 'a) channel_ops \<Rightarrow> 'c queue \<Rightarrow> 'a producer \<Rightarrow> 'c queue \<times> 'a producer" where
  "offer_step ops q (POffer x) = (fetch_add q, PCounted x (qu_held q))"
| "offer_step ops q (PCounted x held) = (q, if over_limit (qu_limit q) held then PRefused else PSend x)"
| "offer_step ops q PRefused = (fetch_sub q, PIdle (Some False))"
| "offer_step ops q (PFinish x) = (fetch_add q, PSend x)"
| "offer_step ops q (PSend x) =
     (case ch_send ops x (qu_chan q) of
        Some c \<Rightarrow> (q\<lparr>qu_chan := c\<rparr>, PIdle (Some True))
      | None \<Rightarrow> (q, PUnsent))"
| "offer_step ops q PUnsent = (fetch_sub q, PIdle (Some True))"
| "offer_step ops q PHalt = (q\<lparr>qu_halted := True\<rparr>, PClose)"
| "offer_step ops q PClose = (q\<lparr>qu_chan := ch_close ops (qu_chan q)\<rparr>, PIdle None)"
| "offer_step ops q (PIdle r) = (q, PIdle r)"
| "offer_step ops q PDropped = (q, PDropped)"

text \<open>Dropping a \<open>Feed\<close> drops its sender; the last one closes the channel.\<close>

fun is_dropped :: "'a producer \<Rightarrow> bool" where
  "is_dropped PDropped = True"
| "is_dropped _ = False"

definition drop_feed :: "('c, 'a) channel_ops \<Rightarrow> 'a producer list \<Rightarrow> 'c queue \<Rightarrow> 'c queue" where
  "drop_feed ops producers q =
     (if list_all is_dropped producers then q\<lparr>qu_chan := ch_close ops (qu_chan q)\<rparr> else q)"

text \<open>
  Where the reader is: between reads, about to check the flag, about to poll the channel, holding an item it took
  and has not counted out, holding one it has, or gone. A finished read leaves what it answered.
\<close>

datatype 'a reader = RIdle "'a polled option" | RCheck | RPoll | RTook 'a | RCounted 'a | RGone

fun poll_step :: "('c, 'a) channel_ops \<Rightarrow> 'c queue \<Rightarrow> 'a reader \<Rightarrow> 'c queue \<times> 'a reader" where
  "poll_step ops q RCheck = (q, if qu_halted q then RIdle (Some PollEnd) else RPoll)"
| "poll_step ops q RPoll =
     (case ch_poll ops (qu_chan q) of
        (c, PollItem x) \<Rightarrow> (q\<lparr>qu_chan := c\<rparr>, RTook x)
      | (c, other) \<Rightarrow> (q\<lparr>qu_chan := c\<rparr>, RIdle (Some other)))"
| "poll_step ops q (RTook x) = (fetch_sub q, RCounted x)"
| "poll_step ops q (RCounted x) = (q, RIdle (Some (if qu_halted q then PollEnd else PollItem x)))"
| "poll_step ops q (RIdle r) = (q, RIdle r)"
| "poll_step ops q RGone = (q, RGone)"

definition halted_at :: "'c queue \<Rightarrow> nat option" where
  "halted_at q = (if qu_halted q then qu_limit q else None)"

text \<open>One operation run by itself, from its first step to its last.\<close>

fun run_steps :: "nat \<Rightarrow> ('c, 'a) channel_ops \<Rightarrow> 'c queue \<Rightarrow> 'a producer \<Rightarrow> 'c queue \<times> 'a producer" where
  "run_steps 0 ops q p = (q, p)"
| "run_steps (Suc n) ops q p = (case offer_step ops q p of (q, p) \<Rightarrow> run_steps n ops q p)"

definition offer :: "('c, 'a) channel_ops \<Rightarrow> 'a \<Rightarrow> 'c queue \<Rightarrow> 'c queue \<times> bool" where
  "offer ops x q = (case run_steps 4 ops q (POffer x) of (q, p) \<Rightarrow> (q, p = PIdle (Some True)))"

definition finish :: "('c, 'a) channel_ops \<Rightarrow> 'a \<Rightarrow> 'c queue \<Rightarrow> 'c queue" where
  "finish ops x q = fst (run_steps 3 ops q (PFinish x))"

definition halt :: "('c, 'a) channel_ops \<Rightarrow> 'c queue \<Rightarrow> 'c queue" where
  "halt ops q = fst (run_steps 2 ops q (PHalt :: 'a producer))"

section \<open>Producers and the reader together\<close>

text \<open>
  What can be seen of a run from outside: an item put in the channel, an offer answered \<open>false\<close>, the flag set, the
  channel closed, a \<open>finish\<close> called, an item counted out by the reader, a read answered with an item, with the end or
  with nothing yet, and the reader dropped. Each is read off what the step did, the answer an operation leaves
  behind, not off what the code tests.
\<close>

datatype 'a event = Put 'a | Refuse | Halt | Close | Finish | Take 'a | Give 'a | Ended | Waits | Gone

fun answered :: "'a producer \<Rightarrow> bool" where
  "answered (PIdle _) = True"
| "answered _ = False"

fun producer_events :: "'a producer \<Rightarrow> 'a producer \<Rightarrow> 'a event list" where
  "producer_events (PSend x) p = (if answered p then [Put x] else [])"
| "producer_events PRefused p = (if answered p then [Refuse] else [])"
| "producer_events PHalt p = [Halt]"
| "producer_events PClose p = [Close]"
| "producer_events _ p = []"

fun read_events :: "'a reader \<Rightarrow> 'a event list" where
  "read_events (RCounted x) = [Take x]"
| "read_events (RIdle (Some (PollItem x))) = [Give x]"
| "read_events (RIdle (Some PollEnd)) = [Ended]"
| "read_events (RIdle (Some PollPending)) = [Waits]"
| "read_events _ = []"

fun reader_events :: "'a reader \<Rightarrow> 'a reader \<Rightarrow> 'a event list" where
  "reader_events (RIdle _) r = []"
| "reader_events _ r = read_events r"

fun puts :: "'a event list \<Rightarrow> 'a list" where
  "puts [] = []"
| "puts (Put x # es) = x # puts es"
| "puts (_ # es) = puts es"

fun gives :: "'a event list \<Rightarrow> 'a list" where
  "gives [] = []"
| "gives (Give x # es) = x # gives es"
| "gives (_ # es) = gives es"

fun finishes :: "'a event list \<Rightarrow> nat" where
  "finishes [] = 0"
| "finishes (Finish # es) = Suc (finishes es)"
| "finishes (_ # es) = finishes es"

record ('c, 'a) run =
  rn_queue :: "'c queue"
  rn_producers :: "'a producer list"
  rn_reader :: "'a reader"

definition run_new :: "('c, 'a) channel_ops \<Rightarrow> nat option \<Rightarrow> nat \<Rightarrow> ('c, 'a) run" where
  "run_new ops limit n =
     \<lparr>rn_queue = queue_new ops limit, rn_producers = replicate n (PIdle None), rn_reader = RIdle None\<rparr>"

inductive q_step :: "('c, 'a) channel_ops \<Rightarrow> ('c, 'a) run \<Rightarrow> 'a event list \<Rightarrow> ('c, 'a) run \<Rightarrow> bool" for ops where
  begin_offer: "i < length (rn_producers s) \<Longrightarrow> rn_producers s ! i = PIdle r \<Longrightarrow>
     q_step ops s [] (s\<lparr>rn_producers := (rn_producers s)[i := POffer x]\<rparr>)"
| begin_finish: "i < length (rn_producers s) \<Longrightarrow> rn_producers s ! i = PIdle r \<Longrightarrow>
     q_step ops s [Finish] (s\<lparr>rn_producers := (rn_producers s)[i := PFinish x]\<rparr>)"
| begin_halt: "i < length (rn_producers s) \<Longrightarrow> rn_producers s ! i = PIdle r \<Longrightarrow>
     q_step ops s [] (s\<lparr>rn_producers := (rn_producers s)[i := PHalt]\<rparr>)"
| produce: "i < length (rn_producers s) \<Longrightarrow> offer_step ops (rn_queue s) (rn_producers s ! i) = (q, p) \<Longrightarrow>
     q_step ops s (producer_events (rn_producers s ! i) p) (s\<lparr>rn_queue := q, rn_producers := (rn_producers s)[i := p]\<rparr>)"
| feed_dropped: "i < length (rn_producers s) \<Longrightarrow> rn_producers s ! i = PIdle r \<Longrightarrow> ps = (rn_producers s)[i := PDropped] \<Longrightarrow>
     q_step ops s (if list_all is_dropped ps then [Close] else [])
       (s\<lparr>rn_queue := drop_feed ops ps (rn_queue s), rn_producers := ps\<rparr>)"
| begin_read: "rn_reader s = RIdle r \<Longrightarrow> q_step ops s [] (s\<lparr>rn_reader := RCheck\<rparr>)"
| consume: "poll_step ops (rn_queue s) (rn_reader s) = (q, r) \<Longrightarrow>
     q_step ops s (reader_events (rn_reader s) r) (s\<lparr>rn_queue := q, rn_reader := r\<rparr>)"
| reader_gone: "rn_reader s = RIdle r \<Longrightarrow>
     q_step ops s [Gone]
       (s\<lparr>rn_reader := RGone, rn_queue := (rn_queue s)\<lparr>qu_chan := ch_drop_receiver ops (qu_chan (rn_queue s))\<rparr>\<rparr>)"

text \<open>A run with everything seen of it, in order.\<close>

inductive q_run :: "('c, 'a) channel_ops \<Rightarrow> ('c, 'a) run \<Rightarrow> 'a event list \<Rightarrow> ('c, 'a) run \<Rightarrow> bool" for ops s where
  started: "q_run ops s [] s"
| stepped: "q_run ops s es s' \<Longrightarrow> q_step ops s' new s'' \<Longrightarrow> q_run ops s (es @ new) s''"

end
