(* ===== verification/Queue_Laws.thy ===== *)
theory Queue_Laws
  imports Item_Queue
begin

text \<open>
  The queue under every interleaving of its producers and its reader: \<open>held\<close> counts what is unread and what is on
  its way in, no more than the limit is admitted, and what is seen of a run is a run of a bounded first-in first-out
  queue written down as an acceptor of events.
\<close>

section \<open>What each thread counts for\<close>

fun counted :: "'a producer \<Rightarrow> nat" where
  "counted (PCounted _ _) = 1"
| "counted PRefused = 1"
| "counted (PSend _) = 1"
| "counted PUnsent = 1"
| "counted _ = 0"

fun admitted :: "nat option \<Rightarrow> 'a producer \<Rightarrow> nat" where
  "admitted limit (PCounted _ held) = (if over_limit limit held then 0 else 1)"
| "admitted limit (PSend _) = 1"
| "admitted limit PUnsent = 1"
| "admitted limit _ = 0"

fun finishing :: "'a producer \<Rightarrow> nat" where
  "finishing (PFinish _) = 1"
| "finishing _ = 0"

fun in_hand :: "'a reader \<Rightarrow> 'a list" where
  "in_hand (RTook x) = [x]"
| "in_hand (RCounted x) = [x]"
| "in_hand _ = []"

fun uncounted :: "'a reader \<Rightarrow> nat" where
  "uncounted (RTook _) = 1"
| "uncounted _ = 0"

definition total :: "('a producer \<Rightarrow> nat) \<Rightarrow> 'a producer list \<Rightarrow> nat" where
  "total w ps = sum_list (map w ps)"

lemma total_update: "i < length ps \<Longrightarrow> total w (ps[i := p]) + w (ps ! i) = total w ps + w p"
proof (induction ps arbitrary: i)
  case (Cons x ps)
  then show ?case by (cases i) (auto simp: total_def)
qed simp

lemma total_mono: "(\<And>p. w p \<le> v p) \<Longrightarrow> total w ps \<le> total v ps"
  by (simp add: total_def sum_list_mono)

lemma total_add: "total (\<lambda>p. w p + v p) ps = total w ps + total v ps"
  by (simp add: total_def sum_list_addf)

lemma total_length: "(\<And>p. w p \<le> 1) \<Longrightarrow> total w ps \<le> length ps"
  using sum_list_mono [of ps w "\<lambda>_. 1"] by (simp add: total_def sum_list_triv)

lemma total_idle [simp]: "w (PIdle r) = 0 \<Longrightarrow> total w (replicate n (PIdle r)) = 0"
  by (induction n) (simp_all add: total_def)

lemma admitted_counted: "admitted limit p + finishing p \<le> 1" "admitted limit p \<le> counted p"
  by (cases p; simp)+

section \<open>The invariant\<close>

text \<open>
  \<open>left\<close> is what a reader that is gone left unread: it stays counted. \<open>f\<close> is the number of \<open>finish\<close> calls so far.
\<close>

definition held_total :: "('c \<Rightarrow> 'a list) \<Rightarrow> nat \<Rightarrow> ('c, 'a) run \<Rightarrow> nat" where
  "held_total items left s =
     length (items (qu_chan (rn_queue s))) + left + total counted (rn_producers s) + uncounted (rn_reader s)"

definition admit_total :: "('c \<Rightarrow> 'a list) \<Rightarrow> nat \<Rightarrow> nat option \<Rightarrow> ('c, 'a) run \<Rightarrow> nat" where
  "admit_total items left limit s =
     length (items (qu_chan (rn_queue s))) + left + uncounted (rn_reader s) + total (admitted limit) (rn_producers s)"

definition held_inv :: "('c \<Rightarrow> 'a list) \<Rightarrow> nat \<Rightarrow> ('c, 'a) run \<Rightarrow> bool" where
  "held_inv items left s \<longleftrightarrow> (rn_reader s \<noteq> RGone \<longrightarrow> left = 0) \<and> qu_held (rn_queue s) = of_nat (held_total items left s)"

definition admit_inv :: "('c \<Rightarrow> 'a list) \<Rightarrow> nat \<Rightarrow> nat \<Rightarrow> ('c, 'a) run \<Rightarrow> bool" where
  "admit_inv items left f s \<longleftrightarrow>
     total finishing (rn_producers s) \<le> f \<and>
     (\<forall>l. qu_limit (rn_queue s) = Some l \<longrightarrow>
        admit_total items left (Some l) s + total finishing (rn_producers s) \<le> l + f)"

definition run_inv :: "('c \<Rightarrow> 'a list) \<Rightarrow> nat option \<Rightarrow> nat \<Rightarrow> nat \<Rightarrow> ('c, 'a) run \<Rightarrow> bool" where
  "run_inv items limit n f s \<longleftrightarrow>
     qu_limit (rn_queue s) = limit \<and> length (rn_producers s) = n \<and>
     (\<exists>left. held_inv items left s \<and> admit_inv items left f s)"

lemma channel_lawsD:
  assumes "channel_laws ops items shut"
  shows "items (ch_new ops) = []" "\<not> shut (ch_new ops)"
    "ch_send ops x c = Some c' \<Longrightarrow> \<not> shut c \<and> items c' = items c @ [x] \<and> \<not> shut c'"
    "ch_send ops x c = None \<Longrightarrow> shut c"
    "ch_poll ops c = (c', PollItem x) \<Longrightarrow> items c = x # items c' \<and> shut c' = shut c"
    "ch_poll ops c = (c', PollPending) \<Longrightarrow> items c' = items c \<and> shut c' = shut c"
    "ch_poll ops c = (c', PollEnd) \<Longrightarrow> items c = [] \<and> items c' = [] \<and> shut c \<and> shut c'"
    "items (ch_close ops c) = items c \<and> shut (ch_close ops c)"
    "items (ch_drop_receiver ops c) = [] \<and> shut (ch_drop_receiver ops c)"
proof -
  have new: "items (ch_new ops) = []" "\<not> shut (ch_new ops)" using assms unfolding channel_laws_def by blast+
  have send: "case ch_send ops x c of None \<Rightarrow> shut c | Some c' \<Rightarrow> \<not> shut c \<and> items c' = items c @ [x] \<and> \<not> shut c'" for x c
    using assms unfolding channel_laws_def by blast
  note poll = assms [unfolded channel_laws_def, THEN conjunct2, THEN conjunct2, THEN conjunct2, THEN conjunct1, rule_format]
  have ends: "items (ch_close ops c) = items c \<and> shut (ch_close ops c)" "items (ch_drop_receiver ops c) = [] \<and> shut (ch_drop_receiver ops c)" for c
    using assms unfolding channel_laws_def by blast+
  show "items (ch_new ops) = []" "\<not> shut (ch_new ops)" by (fact new)+
  show "ch_send ops x c = Some c' \<Longrightarrow> \<not> shut c \<and> items c' = items c @ [x] \<and> \<not> shut c'" "ch_send ops x c = None \<Longrightarrow> shut c"
    using send [where x = x and c = c] by simp_all
  show "ch_poll ops c = (c', PollItem x) \<Longrightarrow> items c = x # items c' \<and> shut c' = shut c"
    "ch_poll ops c = (c', PollPending) \<Longrightarrow> items c' = items c \<and> shut c' = shut c"
    "ch_poll ops c = (c', PollEnd) \<Longrightarrow> items c = [] \<and> items c' = [] \<and> shut c \<and> shut c'"
    using poll [of c] by simp_all
  show "items (ch_close ops c) = items c \<and> shut (ch_close ops c)" "items (ch_drop_receiver ops c) = [] \<and> shut (ch_drop_receiver ops c)"
    by (fact ends)+
qed

lemma run_inv_new: "channel_laws ops items shut \<Longrightarrow> run_inv items limit n 0 (run_new ops limit n)"
  by (simp add: run_inv_def run_new_def queue_new_def held_inv_def admit_inv_def held_total_def admit_total_def channel_lawsD(1))

text \<open>A change that leaves the channel, the flag and the reader alone and keeps a producer's counts.\<close>

lemma run_inv_producer:
  assumes "run_inv items limit n f s" "i < length (rn_producers s)"
    "counted p = counted (rn_producers s ! i)" "admitted limit p = admitted limit (rn_producers s ! i)"
    "finishing p + f = finishing (rn_producers s ! i) + f'" "f \<le> f'"
  shows "run_inv items limit n f' (s\<lparr>rn_producers := (rn_producers s)[i := p]\<rparr>)"
proof -
  note up = total_update [OF assms(2), where p = p]
  have "total counted ((rn_producers s)[i := p]) = total counted (rn_producers s)" using up [of counted] assms(3) by simp
  moreover have "total (admitted limit) ((rn_producers s)[i := p]) = total (admitted limit) (rn_producers s)" using up [of "admitted limit"] assms(4) by simp
  moreover have "total finishing ((rn_producers s)[i := p]) + f = total finishing (rn_producers s) + f'"
    using up [of finishing] assms(5) by simp
  ultimately show ?thesis using assms(1,6) by (auto simp: run_inv_def held_inv_def admit_inv_def held_total_def admit_total_def)
qed

lemma admit_le_held: "admit_total items left limit s \<le> held_total items left s"
  using total_mono [of "admitted limit" counted, OF admitted_counted(2)] by (simp add: admit_total_def held_total_def)

lemma held_le_admit: "held_total items left s \<le> admit_total items left limit s + length (rn_producers s)"
proof -
  have "counted p \<le> admitted limit p + 1" for p :: "'b producer" by (cases p) auto
  then have "total counted (rn_producers s) \<le> total (\<lambda>p. admitted limit p + 1) (rn_producers s)" by (rule total_mono)
  also have "\<dots> = total (admitted limit) (rn_producers s) + length (rn_producers s)" unfolding total_add by (simp add: total_def sum_list_triv)
  finally show ?thesis by (simp add: admit_total_def held_total_def)
qed

text \<open>A queue small enough for its \<open>usize\<close>: the counter does not wrap.\<close>

definition fits :: "nat option \<Rightarrow> nat \<Rightarrow> nat \<Rightarrow> bool" where
  "fits limit n f = (case limit of None \<Rightarrow> True | Some l \<Rightarrow> l + f + n < 2 ^ 64)"

lemma held_exact:
  assumes "run_inv items (Some l) n f s" "fits (Some l) n f" "held_inv items left s" "admit_inv items left f s"
  shows "unat (qu_held (rn_queue s)) = held_total items left s"
proof -
  have "held_total items left s < 2 ^ 64"
    using assms held_le_admit [of items left s "Some l"] by (auto simp: admit_inv_def run_inv_def fits_def)
  then show ?thesis using assms(3) by (simp add: held_inv_def unat_of_nat take_bit_nat_eq_self)
qed

section \<open>Every step keeps it\<close>

text \<open>The new totals against the old: what the counter moved by and what the counts moved by agree.\<close>

lemma run_inv_step:
  assumes inv: "run_inv items limit n f s"
    and frame: "qu_limit (rn_queue s') = limit" "length (rn_producers s') = n"
      "rn_reader s = RGone \<or> gone \<noteq> 0 \<Longrightarrow> rn_reader s' = RGone"
    and held: "\<And>left. qu_held (rn_queue s) = of_nat (held_total items left s) \<Longrightarrow> qu_held (rn_queue s') = of_nat (held_total items (left + gone) s')"
    and finishes: "total finishing (rn_producers s') \<le> f"
    and admit: "\<And>left l. limit = Some l \<Longrightarrow> held_inv items left s \<Longrightarrow> admit_inv items left f s \<Longrightarrow>
        admit_total items (left + gone) limit s' + total finishing (rn_producers s') \<le> l + f"
  shows "run_inv items limit n f s'"
proof -
  obtain left where l: "held_inv items left s" "admit_inv items left f s" using inv by (auto simp: run_inv_def)
  have "held_inv items (left + gone) s'" using held frame(3) l(1) by (auto simp: held_inv_def)
  moreover have "admit_inv items (left + gone) f s'" using finishes admit [OF _ l] frame(1) by (auto simp: admit_inv_def)
  ultimately show ?thesis using frame by (auto simp: run_inv_def)
qed

text \<open>A producer moves its count of itself by as much as it moves the counter.\<close>

fun counts_in :: "'a producer \<Rightarrow> nat" where
  "counts_in (POffer _) = 1"
| "counts_in (PFinish _) = 1"
| "counts_in _ = 0"

fun counts_out :: "'a producer \<Rightarrow> nat" where
  "counts_out PRefused = 1"
| "counts_out PUnsent = 1"
| "counts_out _ = 0"

lemma offer_step_counts:
  assumes laws: "channel_laws ops items shut" and step: "offer_step ops q P = (q', p)"
  shows "length (items (qu_chan q')) + counted p + counts_out P = length (items (qu_chan q)) + counted P + counts_in P"
    and "qu_held q' + of_nat (counts_out P) = qu_held q + of_nat (counts_in P)"
    and "qu_limit q' = qu_limit q" and "finishing p \<le> finishing P"
proof -
  have "length (items (qu_chan q')) + counted p + counts_out P = length (items (qu_chan q)) + counted P + counts_in P \<and>
    qu_held q' + of_nat (counts_out P) = qu_held q + of_nat (counts_in P) \<and> qu_limit q' = qu_limit q \<and> finishing p \<le> finishing P"
  proof (cases P)
    case (PSend x)
    then show ?thesis using step channel_lawsD(3) [OF laws, of x "qu_chan q"] by (cases "ch_send ops x (qu_chan q)") auto
  next
    case PClose
    then show ?thesis using step channel_lawsD(8) [OF laws] by auto
  qed (use step in \<open>auto simp: fetch_add_def fetch_sub_def\<close>)
  then show "length (items (qu_chan q')) + counted p + counts_out P = length (items (qu_chan q)) + counted P + counts_in P"
    "qu_held q' + of_nat (counts_out P) = qu_held q + of_nat (counts_in P)" "qu_limit q' = qu_limit q" "finishing p \<le> finishing P" by blast+
qed

lemma offer_step_admits:
  assumes laws: "channel_laws ops items shut" and step: "offer_step ops q P = (q', p)" and "\<nexists>x. P = POffer x"
  shows "length (items (qu_chan q')) + admitted (qu_limit q) p + finishing p \<le>
    length (items (qu_chan q)) + admitted (qu_limit q) P + finishing P"
proof (cases P)
  case (PSend x)
  then show ?thesis using step channel_lawsD(3) [OF laws, of x "qu_chan q"] by (cases "ch_send ops x (qu_chan q)") auto
next
  case PClose
  then show ?thesis using step channel_lawsD(8) [OF laws] by auto
qed (use step assms(3) in \<open>auto simp: fetch_add_def fetch_sub_def\<close>)

lemma produce_inv:
  assumes laws: "channel_laws ops items shut" and inv: "run_inv items limit n f s" and fits: "fits limit n f"
    and i: "i < length (rn_producers s)" and step: "offer_step ops (rn_queue s) (rn_producers s ! i) = (q, p)"
  shows "run_inv items limit n f (s\<lparr>rn_queue := q, rn_producers := (rn_producers s)[i := p]\<rparr>)" (is "run_inv _ _ _ _ ?s")
proof (rule run_inv_step [OF inv, where gone = 0])
  let ?P = "rn_producers s ! i"
  note up = total_update [OF i, where p = p] and counts = offer_step_counts [OF laws step]
  have lim: "qu_limit (rn_queue s) = limit" "length (rn_producers s) = n" using inv by (auto simp: run_inv_def)
  show "qu_limit (rn_queue ?s) = limit" "length (rn_producers ?s) = n" using counts(3) lim by simp_all
  show "rn_reader s = RGone \<or> (0::nat) \<noteq> 0 \<Longrightarrow> rn_reader ?s = RGone" by simp
  show "qu_held (rn_queue ?s) = of_nat (held_total items (left + 0) ?s)"
    if h: "qu_held (rn_queue s) = of_nat (held_total items left s)" for left
  proof -
    have "held_total items left ?s + counts_out ?P = held_total items left s + counts_in ?P"
      using up [of counted] counts(1) by (simp add: held_total_def)
    then have "of_nat (held_total items left ?s) + of_nat (counts_out ?P) = of_nat (held_total items left s) + (of_nat (counts_in ?P) :: 64 word)"
      by (metis of_nat_add)
    then have "qu_held q + of_nat (counts_out ?P) = of_nat (held_total items left ?s) + of_nat (counts_out ?P)" using h counts(2) by simp
    then show ?thesis by simp
  qed
  show "total finishing (rn_producers ?s) \<le> f"
    using up [of finishing] counts(4) inv by (auto simp: run_inv_def admit_inv_def)
  show "admit_total items (left + 0) limit ?s + total finishing (rn_producers ?s) \<le> l + f"
    if l: "limit = Some l" "held_inv items left s" "admit_inv items left f s" for left l
  proof (cases "\<exists>x. ?P = POffer x")
    case False
    then show ?thesis using offer_step_admits [OF laws step] up [of "admitted limit"] up [of finishing] l lim(1)
      by (auto simp: admit_inv_def admit_total_def)
  next
    case True
    then obtain x where x: "?P = POffer x" "q = fetch_add (rn_queue s)" "p = PCounted x (qu_held (rn_queue s))" using step by auto
    have exact: "unat (qu_held (rn_queue s)) = held_total items left s"
      using held_exact [OF inv [unfolded l(1)] fits [unfolded l(1)] l(2,3)] .
    have "admit_total items left limit ?s = admit_total items left limit s + (if l \<le> held_total items left s then 0 else 1)"
      using up [of "admitted limit"] x exact l(1) by (simp add: admit_total_def over_limit_def fetch_add_def)
    moreover have "total finishing (rn_producers ?s) = total finishing (rn_producers s)" using up [of finishing] x by simp
    ultimately show ?thesis using l lim(1) admit_le_held [of items left limit s] by (auto simp: admit_inv_def split: if_splits)
  qed
qed

lemma drop_feed_keeps:
  assumes "channel_laws ops items shut"
  shows "items (qu_chan (drop_feed ops ps q)) = items (qu_chan q)" "qu_held (drop_feed ops ps q) = qu_held q"
    "qu_limit (drop_feed ops ps q) = qu_limit q" "qu_halted (drop_feed ops ps q) = qu_halted q"
    "shut (qu_chan (drop_feed ops ps q)) \<longleftrightarrow> list_all is_dropped ps \<or> shut (qu_chan q)"
  using channel_lawsD(8) [OF assms] by (auto simp: drop_feed_def)

lemma feed_dropped_inv:
  assumes laws: "channel_laws ops items shut" and inv: "run_inv items limit n f s"
    and i: "i < length (rn_producers s)" "rn_producers s ! i = PIdle r"
  shows "run_inv items limit n f (s\<lparr>rn_queue := drop_feed ops ps (rn_queue s), rn_producers := (rn_producers s)[i := PDropped]\<rparr>)"
proof -
  have "run_inv items limit n f (s\<lparr>rn_producers := (rn_producers s)[i := PDropped]\<rparr>)"
    by (rule run_inv_producer [OF inv i(1)]) (simp_all add: i(2))
  then show ?thesis
    by (auto simp: run_inv_def held_inv_def admit_inv_def held_total_def admit_total_def drop_feed_keeps [OF laws])
qed

lemma poll_step_counts:
  assumes laws: "channel_laws ops items shut" and step: "poll_step ops q R = (q', r)"
  shows "length (items (qu_chan q')) + uncounted r + of_bool (\<exists>x. R = RTook x) = length (items (qu_chan q)) + uncounted R"
    and "qu_held q' + of_bool (\<exists>x. R = RTook x) = qu_held q" and "qu_limit q' = qu_limit q" and "qu_halted q' = qu_halted q"
proof -
  have "length (items (qu_chan q')) + uncounted r + of_bool (\<exists>x. R = RTook x) = length (items (qu_chan q)) + uncounted R \<and>
    qu_held q' + of_bool (\<exists>x. R = RTook x) = qu_held q \<and> qu_limit q' = qu_limit q \<and> qu_halted q' = qu_halted q"
  proof (cases R)
    case RPoll
    obtain c o' where o: "ch_poll ops (qu_chan q) = (c, o')" by (meson surj_pair)
    show ?thesis using step RPoll o channel_lawsD(5-7) [OF laws, of "qu_chan q" c] by (cases o') auto
  qed (use step in \<open>auto simp: fetch_sub_def\<close>)
  then show "length (items (qu_chan q')) + uncounted r + of_bool (\<exists>x. R = RTook x) = length (items (qu_chan q)) + uncounted R"
    "qu_held q' + of_bool (\<exists>x. R = RTook x) = qu_held q" "qu_limit q' = qu_limit q" "qu_halted q' = qu_halted q" by blast+
qed

lemma poll_step_gone: "poll_step ops q R = (q', r) \<Longrightarrow> R = RGone \<Longrightarrow> r = RGone"
  by simp

lemma consume_inv:
  assumes laws: "channel_laws ops items shut" and inv: "run_inv items limit n f s"
    and step: "poll_step ops (rn_queue s) (rn_reader s) = (q, r)"
  shows "run_inv items limit n f (s\<lparr>rn_queue := q, rn_reader := r\<rparr>)" (is "run_inv _ _ _ _ ?s")
proof (rule run_inv_step [OF inv, where gone = 0])
  note counts = poll_step_counts [OF laws step]
  have lim: "qu_limit (rn_queue s) = limit" "length (rn_producers s) = n" using inv by (auto simp: run_inv_def)
  show "qu_limit (rn_queue ?s) = limit" "length (rn_producers ?s) = n" using lim counts(3) by simp_all
  show "rn_reader s = RGone \<or> (0::nat) \<noteq> 0 \<Longrightarrow> rn_reader ?s = RGone" using poll_step_gone [OF step] by simp
  show "total finishing (rn_producers ?s) \<le> f" using inv by (auto simp: run_inv_def admit_inv_def)
  show "admit_total items (left + 0) limit ?s + total finishing (rn_producers ?s) \<le> l + f"
    if l: "limit = Some l" "admit_inv items left f s" for left l
    using l lim(1) counts(1) by (auto simp: admit_inv_def admit_total_def)
  show "qu_held (rn_queue ?s) = of_nat (held_total items (left + 0) ?s)"
    if h: "qu_held (rn_queue s) = of_nat (held_total items left s)" for left
  proof -
    have "held_total items left ?s + of_bool (\<exists>x. rn_reader s = RTook x) = held_total items left s"
      using counts(1) by (simp add: held_total_def)
    then have "of_nat (held_total items left ?s) + of_bool (\<exists>x. rn_reader s = RTook x) = (of_nat (held_total items left s) :: 64 word)"
      by (metis of_nat_add of_nat_of_bool)
    then have "qu_held q + of_bool (\<exists>x. rn_reader s = RTook x) = of_nat (held_total items left ?s) + of_bool (\<exists>x. rn_reader s = RTook x)"
      using h counts(2) by simp
    then show ?thesis by simp
  qed
qed

lemma reader_gone_inv:
  assumes laws: "channel_laws ops items shut" and inv: "run_inv items limit n f s" and idle: "rn_reader s = RIdle r"
  shows "run_inv items limit n f
    (s\<lparr>rn_reader := RGone, rn_queue := (rn_queue s)\<lparr>qu_chan := ch_drop_receiver ops (qu_chan (rn_queue s))\<rparr>\<rparr>)" (is "run_inv _ _ _ _ ?s")
proof (rule run_inv_step [OF inv, where gone = "length (items (qu_chan (rn_queue s)))"])
  note gone = channel_lawsD(9) [OF laws, of "qu_chan (rn_queue s)"]
  have lim: "qu_limit (rn_queue s) = limit" "length (rn_producers s) = n" using inv by (auto simp: run_inv_def)
  show "qu_limit (rn_queue ?s) = limit" "length (rn_producers ?s) = n" "rn_reader ?s = RGone" using lim by simp_all
  show "total finishing (rn_producers ?s) \<le> f" using inv by (auto simp: run_inv_def admit_inv_def)
  show "qu_held (rn_queue ?s) = of_nat (held_total items (left + length (items (qu_chan (rn_queue s)))) ?s)"
    if "qu_held (rn_queue s) = of_nat (held_total items left s)" for left
    using that gone idle by (simp add: held_total_def add.commute add.left_commute)
  show "admit_total items (left + length (items (qu_chan (rn_queue s)))) limit ?s + total finishing (rn_producers ?s) \<le> l + f"
    if "limit = Some l" "admit_inv items left f s" for left l
    using that gone idle lim(1) by (auto simp: admit_inv_def admit_total_def)
qed

lemma finishes_append: "finishes (es @ es') = finishes es + finishes es'"
  by (induction es rule: finishes.induct) simp_all

lemma finishes_read_events [simp]: "finishes (read_events r) = 0"
  by (cases r rule: read_events.cases) simp_all

lemma finishes_events [simp]: "finishes (producer_events P p) = 0" "finishes (reader_events R r) = 0"
  by (cases P; simp) (cases R; simp)

lemma q_step_inv:
  assumes laws: "channel_laws ops items shut" and step: "q_step ops s new s'" and inv: "run_inv items limit n f s" and fits: "fits limit n f"
  shows "run_inv items limit n (f + finishes new) s'"
  using step
proof cases
  case (begin_offer i r x)
  then show ?thesis using run_inv_producer [OF inv begin_offer(3), of "POffer x" f] by simp
next
  case (begin_finish i r x)
  then show ?thesis using run_inv_producer [OF inv begin_finish(3), of "PFinish x" "Suc f"] by simp
next
  case (begin_halt i r)
  then show ?thesis using run_inv_producer [OF inv begin_halt(3), of PHalt f] by simp
next
  case (produce i q p)
  then show ?thesis using produce_inv [OF laws inv fits produce(3,4)] by simp
next
  case (feed_dropped i r ps)
  then show ?thesis using feed_dropped_inv [OF laws inv feed_dropped(3,4)] by simp
next
  case (begin_read r)
  have "run_inv items limit n f s'" unfolding begin_read(2)
    by (rule run_inv_step [OF inv, where gone = 0])
      (use inv begin_read(3) in \<open>auto simp: run_inv_def held_total_def admit_total_def admit_inv_def\<close>)
  then show ?thesis using begin_read(1) by simp
next
  case (consume q r)
  then show ?thesis using consume_inv [OF laws inv consume(3)] by simp
next
  case (reader_gone r)
  then show ?thesis using reader_gone_inv [OF laws inv reader_gone(3)] by simp
qed

lemma fits_mono: "fits limit n (f + k) \<Longrightarrow> fits limit n f"
  by (auto simp: fits_def split: option.splits)

lemma reachable_inv:
  assumes laws: "channel_laws ops items shut" and run: "q_run ops (run_new ops limit n) es s" and fits: "fits limit n (finishes es)"
  shows "run_inv items limit n (finishes es) s"
  using run fits
proof (induction rule: q_run.induct)
  case started show ?case using run_inv_new [OF laws] by simp
next
  case (stepped es s' new s'')
  then show ?case using q_step_inv [OF laws stepped.hyps(2)] fits_mono by (fastforce simp: finishes_append)
qed

section \<open>A bounded FIFO\<close>

text \<open>
  What the queue promises, as an acceptor of the events of a run. An item is put at the back while the queue is open
  and holds fewer than its room; the reader takes the item at the front, one at a time, and is given the item it took
  unless the queue was halted. A read ends the queue when it was halted, the item taken dropped, or when it is closed
  with nothing left. Each \<open>finish\<close> makes room for one item more. A reader dropped leaves nothing behind.
\<close>

record 'a fifo =
  ff_buffer :: "'a list"
  ff_hand :: "'a list"
  ff_halted :: bool
  ff_closed :: bool
  ff_room :: "nat option"

definition fifo_new :: "nat option \<Rightarrow> 'a fifo" where
  "fifo_new limit = \<lparr>ff_buffer = [], ff_hand = [], ff_halted = False, ff_closed = False, ff_room = limit\<rparr>"

definition has_room :: "'a fifo \<Rightarrow> bool" where
  "has_room f = (case ff_room f of None \<Rightarrow> True | Some room \<Rightarrow> length (ff_buffer f) < room)"

fun fifo_next :: "'a event \<Rightarrow> 'a fifo \<Rightarrow> 'a fifo option" where
  "fifo_next (Put x) f = (if \<not> ff_closed f \<and> has_room f then Some (f\<lparr>ff_buffer := ff_buffer f @ [x]\<rparr>) else None)"
| "fifo_next (Take x) f =
     (if ff_hand f = [] \<and> ff_buffer f \<noteq> [] \<and> hd (ff_buffer f) = x
      then Some (f\<lparr>ff_buffer := tl (ff_buffer f), ff_hand := [x]\<rparr>) else None)"
| "fifo_next (Give x) f = (if ff_hand f = [x] \<and> \<not> ff_halted f then Some (f\<lparr>ff_hand := []\<rparr>) else None)"
| "fifo_next Ended f =
     (if ff_halted f \<or> (ff_closed f \<and> ff_buffer f = [] \<and> ff_hand f = []) then Some (f\<lparr>ff_hand := []\<rparr>) else None)"
| "fifo_next Waits f = (if ff_hand f = [] then Some f else None)"
| "fifo_next Refuse f = Some f"
| "fifo_next Halt f = Some (f\<lparr>ff_halted := True\<rparr>)"
| "fifo_next Close f = Some (f\<lparr>ff_closed := True\<rparr>)"
| "fifo_next Finish f = Some (f\<lparr>ff_room := map_option Suc (ff_room f)\<rparr>)"
| "fifo_next Gone f = (if ff_hand f = [] then Some (f\<lparr>ff_buffer := [], ff_closed := True\<rparr>) else None)"

text \<open>The acceptor's own laws: order, nothing after a halt, nothing lost without a halt or a reader gone.\<close>

lemma fifo_halted:
  assumes "fold_option fifo_next es f = Some g" "ff_halted f"
  shows "ff_halted g \<and> gives es = []"
  using assms
proof (induction es arbitrary: f)
  case (Cons e es)
  then show ?case by (cases e) (auto split: if_splits option.splits)
qed simp

lemma fifo_dead:
  assumes "fold_option fifo_next es f = Some g" "ff_closed f" "ff_buffer f = []" "ff_hand f = []"
  shows "puts es = [] \<and> gives es = [] \<and> ff_buffer g = [] \<and> ff_hand g = []"
  using assms
proof (induction es arbitrary: f)
  case (Cons e es)
  then show ?case by (cases e) (auto split: if_splits option.splits)
qed simp

lemma fifo_halts: "fold_option fifo_next es f = Some g \<Longrightarrow> ff_halted g \<longleftrightarrow> ff_halted f \<or> Halt \<in> set es"
proof (induction es arbitrary: f)
  case (Cons e es)
  then obtain h where h: "fifo_next e f = Some h" "fold_option fifo_next es h = Some g" by (auto split: option.splits)
  then show ?case using Cons.IH [OF h(2)] by (cases e) (auto split: if_splits)
qed simp

lemma fifo_order:
  assumes "fold_option fifo_next es f = Some g"
  shows "\<exists>lost. ff_hand f @ ff_buffer f @ puts es = gives es @ lost @ ff_hand g @ ff_buffer g \<and>
    (lost \<noteq> [] \<longrightarrow> ff_halted g \<or> Gone \<in> set es)"
  using assms
proof (induction es arbitrary: f)
  case (Cons e es)
  then obtain h where h: "fifo_next e f = Some h" "fold_option fifo_next es h = Some g" by (auto split: option.splits)
  obtain lost where l: "ff_hand h @ ff_buffer h @ puts es = gives es @ lost @ ff_hand g @ ff_buffer g"
    "lost \<noteq> [] \<longrightarrow> ff_halted g \<or> Gone \<in> set es" using Cons.IH [OF h(2)] by blast
  show ?case
  proof (cases e)
    case Ended
    show ?thesis
    proof (cases "ff_halted f")
      case True
      then have "ff_halted g \<and> gives es = []" using h(1) Ended fifo_halted [OF h(2)] by auto
      then show ?thesis using l h(1) Ended True by (intro exI [of _ "ff_hand f @ lost"]) auto
    qed (use l h(1) Ended in \<open>auto split: if_splits\<close>)
  next
    case Gone
    then have "h = f\<lparr>ff_buffer := [], ff_closed := True\<rparr>" "ff_hand f = []" using h(1) by (auto split: if_splits)
    then show ?thesis using fifo_dead [OF h(2)] Gone by (intro exI [of _ "ff_buffer f"]) simp
  next
    case (Take x)
    then show ?thesis using l h(1) by (cases "ff_buffer f") (auto split: if_splits)
  qed (use l h(1) in \<open>auto split: if_splits\<close>)
qed simp

section \<open>The queue is that FIFO\<close>

fun taking :: "'a reader \<Rightarrow> 'a list" where
  "taking (RTook x) = [x]"
| "taking _ = []"

fun holding :: "'a reader \<Rightarrow> 'a list" where
  "holding (RCounted x) = [x]"
| "holding _ = []"

definition fifo_of :: "('c \<Rightarrow> 'a list) \<Rightarrow> ('c \<Rightarrow> bool) \<Rightarrow> nat \<Rightarrow> ('c, 'a) run \<Rightarrow> 'a fifo" where
  "fifo_of items shut f s =
     \<lparr>ff_buffer = taking (rn_reader s) @ items (qu_chan (rn_queue s)), ff_hand = holding (rn_reader s),
      ff_halted = qu_halted (rn_queue s), ff_closed = shut (qu_chan (rn_queue s)),
      ff_room = map_option (\<lambda>l. l + f) (qu_limit (rn_queue s))\<rparr>"

lemma holding_taking: "holding r @ taking r = in_hand r"
  by (cases r) simp_all

lemma length_taking: "length (taking r) = uncounted r"
  by (cases r) auto

lemma send_has_room:
  assumes inv: "run_inv items limit n f s" and i: "i < length (rn_producers s)" "rn_producers s ! i = PSend x"
  shows "has_room (fifo_of items shut f s)"
proof -
  obtain left where a: "admit_inv items left f s" using inv by (auto simp: run_inv_def)
  have "1 \<le> total (admitted l) (rn_producers s)" for l
  proof -
    have "admitted l (rn_producers s ! i) \<in> set (map (admitted l) (rn_producers s))" using i(1) by simp
    then have "admitted l (rn_producers s ! i) \<le> total (admitted l) (rn_producers s)" unfolding total_def by (rule member_le_sum_list) simp
    then show ?thesis using i(2) by simp
  qed
  note one = this
  show ?thesis
  proof (cases "qu_limit (rn_queue s)")
    case (Some l)
    then show ?thesis using a one [of "Some l"] by (simp add: admit_inv_def admit_total_def fifo_of_def length_taking has_room_def)
  qed (simp add: fifo_of_def has_room_def)
qed

lemma offer_step_fifo:
  assumes laws: "channel_laws ops items shut" and inv: "run_inv items limit n f s" and i: "i < length (rn_producers s)"
    and step: "offer_step ops (rn_queue s) (rn_producers s ! i) = (q, p)"
  shows "fold_option fifo_next (producer_events (rn_producers s ! i) p) (fifo_of items shut f s) =
    Some (fifo_of items shut f (s\<lparr>rn_queue := q, rn_producers := (rn_producers s)[i := p]\<rparr>))"
proof (cases "rn_producers s ! i")
  case (PSend x)
  show ?thesis
  proof (cases "ch_send ops x (qu_chan (rn_queue s))")
    case None then show ?thesis using step PSend by (auto simp: fifo_of_def)
  next
    case (Some c)
    then show ?thesis
      using step PSend channel_lawsD(3) [OF laws Some] send_has_room [OF inv i PSend, of shut] by (auto simp: fifo_of_def)
  qed
next
  case PClose
  then show ?thesis using step channel_lawsD(8) [OF laws] by (auto simp: fifo_of_def)
next
  case (PIdle a)
  then have "q = rn_queue s" "p = PIdle a" using step by simp_all
  then show ?thesis using PIdle by (simp add: fifo_of_def)
qed (use step in \<open>auto simp: fifo_of_def fetch_add_def fetch_sub_def\<close>)

lemma poll_step_fifo:
  assumes laws: "channel_laws ops items shut" and step: "poll_step ops (rn_queue s) (rn_reader s) = (q, r)"
  shows "fold_option fifo_next (reader_events (rn_reader s) r) (fifo_of items shut f s) =
    Some (fifo_of items shut f (s\<lparr>rn_queue := q, rn_reader := r\<rparr>))"
proof (cases "rn_reader s")
  case RPoll
  obtain c o' where o: "ch_poll ops (qu_chan (rn_queue s)) = (c, o')" by (meson surj_pair)
  show ?thesis using step RPoll o channel_lawsD(5-7) [OF laws, of "qu_chan (rn_queue s)" c] by (cases o') (auto simp: fifo_of_def)
next
  case (RIdle a)
  then have "q = rn_queue s" "r = RIdle a" using step by simp_all
  then show ?thesis using RIdle by (simp add: fifo_of_def)
qed (use step in \<open>auto simp: fifo_of_def fetch_sub_def\<close>)

lemma q_step_fifo:
  assumes laws: "channel_laws ops items shut" and step: "q_step ops s new s'" and inv: "run_inv items limit n f s"
  shows "fold_option fifo_next new (fifo_of items shut f s) = Some (fifo_of items shut (f + finishes new) s')"
  using step
proof cases
  case (begin_finish i r x)
  then show ?thesis by (cases "qu_limit (rn_queue s)") (simp_all add: fifo_of_def)
next
  case (produce i q p)
  then show ?thesis using offer_step_fifo [OF laws inv produce(3,4)] by simp
next
  case (feed_dropped i r ps)
  then show ?thesis by (auto simp: fifo_of_def drop_feed_keeps [OF laws])
next
  case (consume q r)
  then show ?thesis using poll_step_fifo [OF laws consume(3)] by simp
next
  case (reader_gone r)
  then show ?thesis using channel_lawsD(9) [OF laws] by (simp add: fifo_of_def)
qed (simp_all add: fifo_of_def)

lemma q_run_fifo:
  assumes laws: "channel_laws ops items shut" and run: "q_run ops (run_new ops limit n) es s" and fits: "fits limit n (finishes es)"
  shows "fold_option fifo_next es (fifo_new limit) = Some (fifo_of items shut (finishes es) s)"
  using run fits
proof (induction rule: q_run.induct)
  case started
  show ?case using channel_lawsD(1,2) [OF laws] by (cases limit) (simp_all add: fifo_of_def run_new_def queue_new_def fifo_new_def)
next
  case (stepped es s' new s'')
  have fits: "fits limit n (finishes es)" using stepped.prems fits_mono by (simp add: finishes_append)
  then show ?case using stepped.IH [OF fits] q_step_fifo [OF laws stepped.hyps(2) reachable_inv [OF laws stepped.hyps(1) fits]]
    by (simp add: fold_option_append finishes_append)
qed

text \<open>
  C32. The queue is a bounded FIFO under every interleaving. What is seen of any run of any number of producers
  offering, finishing, halting and being dropped beside the reader is accepted, event for event, by the bounded
  first-in first-out queue: items enter only while it is open and holds fewer than the limit and one per \<open>finish\<close>
  called, they are taken from the front, and a read ends the queue only once it was halted, or closed with nothing
  left. The items given, those lost and those still held are together exactly the items put, in that order, and
  nothing is lost unless the queue was halted or its reader dropped. Nothing is given after a halt. The channel is
  a parameter that keeps the order of its items, and the limit, the \<open>finish\<close> calls and the producers fit a \<open>usize\<close>.
\<close>

theorem queue_refines_fifo:
  assumes "channel_laws ops items shut" "q_run ops (run_new ops limit n) es s" "fits limit n (finishes es)"
  shows "fold_option fifo_next es (fifo_new limit) = Some (fifo_of items shut (finishes es) s) \<and>
    (\<exists>lost. puts es = gives es @ lost @ in_hand (rn_reader s) @ items (qu_chan (rn_queue s)) \<and>
       (lost \<noteq> [] \<longrightarrow> Halt \<in> set es \<or> Gone \<in> set es)) \<and>
    (\<forall>before after. es = before @ Halt # after \<longrightarrow> gives after = [])"
proof (intro conjI allI impI)
  show run: "fold_option fifo_next es (fifo_new limit) = Some (fifo_of items shut (finishes es) s)"
    by (rule q_run_fifo [OF assms])
  have "ff_hand (fifo_of items shut (finishes es) s) @ ff_buffer (fifo_of items shut (finishes es) s) =
      in_hand (rn_reader s) @ items (qu_chan (rn_queue s))" by (simp add: fifo_of_def flip: holding_taking)
  then show "\<exists>lost. puts es = gives es @ lost @ in_hand (rn_reader s) @ items (qu_chan (rn_queue s)) \<and>
       (lost \<noteq> [] \<longrightarrow> Halt \<in> set es \<or> Gone \<in> set es)"
    using fifo_order [OF run] fifo_halts [OF run] by (simp add: fifo_new_def)
  show "gives after = []" if "es = before @ Halt # after" for before after
  proof -
    from that run obtain f where "fold_option fifo_next after (f\<lparr>ff_halted := True\<rparr>) = Some (fifo_of items shut (finishes es) s)"
      by (auto simp: fold_option_append split: option.splits)
    then show ?thesis using fifo_halted by fastforce
  qed
qed


section \<open>Operations run alone\<close>

lemma offer_alone:
  assumes "channel_laws ops items shut" "qu_held q = of_nat k" "k + 1 < 2 ^ 64"
  shows "offer ops x q =
    (if over_limit (qu_limit q) (of_nat k) then (q, False)
     else (case ch_send ops x (qu_chan q) of None \<Rightarrow> (q, True) | Some c \<Rightarrow> (q\<lparr>qu_chan := c, qu_held := of_nat (k + 1)\<rparr>, True)))"
proof -
  have "q\<lparr>qu_held := word_of_nat k\<rparr> = q" using assms(2) by (metis (mono_tags) queue.surjective queue.update_convs(2))
  then show ?thesis using assms(2)
    by (auto simp: offer_def numeral_eq_Suc fetch_add_def fetch_sub_def split: option.splits)
qed

text \<open>
  The items a reader leaves unread stay counted after it is gone. An offer that finds the limit's worth of them is
  refused, with no reader left to bound.
\<close>

lemma offer_refused_after_reader:
  assumes laws: "channel_laws ops items shut" and full: "offer ops x (queue_new ops (Some 1)) = (q, True)"
  shows "snd (offer ops y (q\<lparr>qu_chan := ch_drop_receiver ops (qu_chan q)\<rparr>)) = False"
proof -
  have new: "qu_held (queue_new ops (Some 1)) = of_nat 0" by (simp add: queue_new_def)
  have open_chan: "ch_send ops x (ch_new ops) \<noteq> None" using channel_lawsD(2,4) [OF laws] by blast
  have "qu_held q = of_nat 1 \<and> qu_limit q = Some 1"
    using full offer_alone [OF laws new, of x] open_chan by (auto simp: queue_new_def over_limit_def split: option.splits)
  then show ?thesis using offer_alone [OF laws, of "q\<lparr>qu_chan := ch_drop_receiver ops (qu_chan q)\<rparr>" 1 y] by (simp add: over_limit_def)
qed

section \<open>A channel that meets the laws\<close>

definition list_channel :: "('a list \<times> bool, 'a) channel_ops" where
  "list_channel =
     \<lparr>ch_new = ([], False), ch_send = (\<lambda>x (xs, closed). if closed then None else Some (xs @ [x], False)),
      ch_poll = (\<lambda>(xs, closed). case xs of x # rest \<Rightarrow> ((rest, closed), PollItem x) | [] \<Rightarrow> (([], closed), if closed then PollEnd else PollPending)),
      ch_close = (\<lambda>(xs, _). (xs, True)), ch_drop_receiver = (\<lambda>_. ([], True))\<rparr>"

lemma list_channel_laws: "channel_laws list_channel fst snd"
  by (auto simp: channel_laws_def list_channel_def split: list.splits)

text \<open>A schedule of a run: which thread moves next, and what an idle one begins.\<close>

datatype 'a schedule_move = Offer nat 'a | Finishing nat 'a | Halting nat | Step nat | Dropping nat | Read | Poll | Leave

fun idle :: "'a producer \<Rightarrow> bool" where
  "idle (PIdle _) = True"
| "idle _ = False"

fun reader_idle :: "'a reader \<Rightarrow> bool" where
  "reader_idle (RIdle _) = True"
| "reader_idle _ = False"

fun move :: "('c, 'a) channel_ops \<Rightarrow> 'a schedule_move \<Rightarrow> ('c, 'a) run \<Rightarrow> ('a event list \<times> ('c, 'a) run) option" where
  "move ops (Offer i x) s =
     (if i < length (rn_producers s) \<and> idle (rn_producers s ! i) then Some ([], s\<lparr>rn_producers := (rn_producers s)[i := POffer x]\<rparr>) else None)"
| "move ops (Finishing i x) s =
     (if i < length (rn_producers s) \<and> idle (rn_producers s ! i) then Some ([Finish], s\<lparr>rn_producers := (rn_producers s)[i := PFinish x]\<rparr>) else None)"
| "move ops (Halting i) s =
     (if i < length (rn_producers s) \<and> idle (rn_producers s ! i) then Some ([], s\<lparr>rn_producers := (rn_producers s)[i := PHalt]\<rparr>) else None)"
| "move ops (Step i) s =
     (if i < length (rn_producers s)
      then (case offer_step ops (rn_queue s) (rn_producers s ! i) of (q, p) \<Rightarrow>
              Some (producer_events (rn_producers s ! i) p, s\<lparr>rn_queue := q, rn_producers := (rn_producers s)[i := p]\<rparr>)) else None)"
| "move ops (Dropping i) s =
     (if i < length (rn_producers s) \<and> idle (rn_producers s ! i)
      then (let ps = (rn_producers s)[i := PDropped]
            in Some (if list_all is_dropped ps then [Close] else [], s\<lparr>rn_queue := drop_feed ops ps (rn_queue s), rn_producers := ps\<rparr>)) else None)"
| "move ops Read s = (if reader_idle (rn_reader s) then Some ([], s\<lparr>rn_reader := RCheck\<rparr>) else None)"
| "move ops Poll s =
     (case poll_step ops (rn_queue s) (rn_reader s) of (q, r) \<Rightarrow> Some (reader_events (rn_reader s) r, s\<lparr>rn_queue := q, rn_reader := r\<rparr>))"
| "move ops Leave s =
     (if reader_idle (rn_reader s)
      then Some ([Gone], s\<lparr>rn_reader := RGone, rn_queue := (rn_queue s)\<lparr>qu_chan := ch_drop_receiver ops (qu_chan (rn_queue s))\<rparr>\<rparr>) else None)"

fun moves :: "('c, 'a) channel_ops \<Rightarrow> 'a schedule_move list \<Rightarrow> 'a event list \<times> ('c, 'a) run \<Rightarrow> ('a event list \<times> ('c, 'a) run) option" where
  "moves ops [] es = Some es"
| "moves ops (m # ms) (es, s) = (case move ops m s of None \<Rightarrow> None | Some (new, s') \<Rightarrow> moves ops ms (es @ new, s'))"

lemma idle_iff: "idle p \<longleftrightarrow> (\<exists>r. p = PIdle r)" "reader_idle d \<longleftrightarrow> (\<exists>r. d = RIdle r)"
  by (cases p; simp) (cases d; simp)

lemma move_step: "move ops m s = Some (new, s') \<Longrightarrow> q_step ops s new s'"
proof (cases m)
  case (Dropping i)
  assume "move ops m s = Some (new, s')"
  then obtain r where "i < length (rn_producers s)" "rn_producers s ! i = PIdle r"
    and eq: "new = (if list_all is_dropped ((rn_producers s)[i := PDropped]) then [Close] else [])"
      "s' = s\<lparr>rn_queue := drop_feed ops ((rn_producers s)[i := PDropped]) (rn_queue s), rn_producers := (rn_producers s)[i := PDropped]\<rparr>"
    using Dropping by (auto simp: idle_iff Let_def split: if_splits)
  then show ?thesis unfolding eq by (intro q_step.feed_dropped) simp_all
qed (auto simp: idle_iff intro: q_step.intros split: if_splits prod.splits)

lemma moves_run: "moves ops ms (es, s') = Some (es', s'') \<Longrightarrow> q_run ops s es s' \<Longrightarrow> q_run ops s es' s''"
proof (induction ms arbitrary: es s')
  case (Cons m ms)
  then show ?case by (auto split: option.splits dest: move_step intro: q_run.stepped)
qed simp

text \<open>
  Two producers and a limit of one: an offer that fits, one refused, a last item past the limit, one read, and a halt
  that comes while the reader holds the second item.
\<close>

definition busy_run :: "(nat event list \<times> (nat list \<times> bool, nat) run) option" where
  "busy_run = moves list_channel
     ([Offer 0 7, Step 0, Offer 1 8, Step 1, Step 0, Step 1, Step 0, Step 1, Finishing 1 9, Step 1, Step 1, Read, Poll, Poll, Poll, Poll,
       Read, Poll, Poll, Poll, Halting 0, Step 0, Poll, Step 0])
     ([], run_new list_channel (Some 1) 2)"

definition busy_events :: "nat event list" where
  "busy_events = [Put 7, Refuse, Finish, Put 9, Take 7, Give 7, Take 9, Halt, Ended, Close]"

definition busy_end :: "(nat list \<times> bool, nat) run" where
  "busy_end =
     \<lparr>rn_queue = \<lparr>qu_chan = ([], True), qu_held = 0, qu_limit = Some 1, qu_halted = True\<rparr>,
      rn_producers = [PIdle None, PIdle (Some True)], rn_reader = RIdle (Some PollEnd)\<rparr>"

lemma busy_run_eq: "busy_run = Some (busy_events, busy_end)"
  by (simp add: busy_run_def run_new_def queue_new_def list_channel_def numeral_2_eq_2 fetch_add_def fetch_sub_def over_limit_def
      busy_events_def busy_end_def)

lemma busy_run_runs: "q_run list_channel (run_new list_channel (Some 1) 2) busy_events busy_end"
  using moves_run [OF busy_run_eq [unfolded busy_run_def] q_run.started] .

theorem queue_refines_fifo_witness:
  "fold_option fifo_next busy_events (fifo_new (Some 1)) = Some (fifo_of fst snd 1 busy_end) \<and>
   (\<exists>lost. puts busy_events = gives busy_events @ lost) \<and> gives [Ended, Close] = ([] :: nat list)"
proof -
  have "fits (Some 1) 2 (finishes busy_events)" "finishes busy_events = 1" by (simp_all add: fits_def busy_events_def)
  then show ?thesis using queue_refines_fifo [OF list_channel_laws busy_run_runs] by (auto simp: busy_events_def)
qed


end
