(* ===== verification/Turns.thy ===== *)
theory Turns
  imports Ulo_Prelude
begin

text \<open>
  One more poll for a server's tasks (\<open>ulo-transport/src/turns.rs\<close>). A tracked future is polled by its own task and,
  once its server closes, by a turn on another thread, or by a turn its own poll makes. Both are sequences of atomic
  steps on the slot: taking or releasing the mutex, an access to \<open>again\<close>, the beginning and the end of a poll.
  The future is a parameter: its state, and what a poll of it answers.
\<close>

section \<open>The slot\<close>

datatype work_answer = WorkPending | WorkReady | WorkPanic

datatype 'w slot_run = Running 'w | RunDone | RunPanicked

record 'w slot =
  sl_run :: "'w slot_run"
  sl_waker :: "nat option"
  sl_locked :: bool
  sl_again :: bool

definition slot_new :: "'w \<Rightarrow> 'w slot" where
  "slot_new w = \<lparr>sl_run = Running w, sl_waker = None, sl_locked = False, sl_again = False\<rparr>"

definition lock_slot :: "'w slot \<Rightarrow> 'w slot" where
  "lock_slot s = s\<lparr>sl_locked := True\<rparr>"

definition unlock_slot :: "'w slot_run \<Rightarrow> 'w slot \<Rightarrow> 'w slot" where
  "unlock_slot run s = s\<lparr>sl_run := run, sl_locked := False\<rparr>"

section \<open>A turn\<close>

text \<open>
  Where \<open>Slot::turn\<close> is: before its first \<open>try_lock\<close>, about to set \<open>again\<close>, before its second \<open>try_lock\<close>, holding the
  lock, in its poll, about to wake the task with the waker it read, or returned.
\<close>

datatype turn_pc = GIdle | GTry | GSet | GRetry | GHeld | GPolling | GWake "nat option" | GDone

fun turn_step :: "('w \<Rightarrow> 'w \<times> work_answer) \<Rightarrow> 'w slot \<Rightarrow> turn_pc \<Rightarrow> 'w slot \<times> turn_pc" where
  "turn_step work s GTry = (if sl_locked s then (s, GSet) else (lock_slot s, GHeld))"
| "turn_step work s GSet = (s\<lparr>sl_again := True\<rparr>, GRetry)"
| "turn_step work s GRetry = (if sl_locked s then (s, GDone) else (lock_slot s, GHeld))"
| "turn_step work s GHeld =
     (let s = s\<lparr>sl_again := False\<rparr>
      in case sl_run s of Running _ \<Rightarrow> (s, GPolling) | run \<Rightarrow> (unlock_slot run s, GDone))"
| "turn_step work s GPolling =
     (case sl_run s of
        Running w \<Rightarrow>
          (case work w of
             (w, WorkPending) \<Rightarrow> (unlock_slot (Running w) s, GDone)
           | (w, WorkReady) \<Rightarrow> (unlock_slot RunDone s, GWake (sl_waker s))
           | (w, WorkPanic) \<Rightarrow> (unlock_slot RunPanicked s, GWake (sl_waker s)))
      | run \<Rightarrow> (unlock_slot run s, GDone))"
| "turn_step work s (GWake waker) = (s, GDone)"
| "turn_step work s GIdle = (s, GIdle)"
| "turn_step work s GDone = (s, GDone)"

section \<open>The task's poll\<close>

text \<open>
  Where \<open>Turn::poll\<close> is, with its waker and \<open>once_more\<close>: between polls with the last answer, at the head of its loop,
  in a poll of the future, or past it with the lock released.
\<close>

datatype task_answer = TaskPending | TaskReady | TaskPanic

datatype task_pc = TIdle "task_answer option" | TLoop nat bool | TPolling nat bool | TSwap nat bool

text \<open>A task whose lock is taken waits: it has no step.\<close>

fun task_step :: "('w \<Rightarrow> 'w \<times> work_answer) \<Rightarrow> 'w slot \<Rightarrow> task_pc \<Rightarrow> ('w slot \<times> task_pc) option" where
  "task_step work s (TLoop waker once_more) =
     (if sl_locked s then None
      else (case sl_run s of
              Running _ \<Rightarrow>
                Some ((lock_slot s)\<lparr>sl_waker := (if sl_waker s = Some waker then sl_waker s else Some waker)\<rparr>, TPolling waker once_more)
            | RunDone \<Rightarrow> Some (s, TIdle (Some TaskReady))
            | RunPanicked \<Rightarrow> Some (s\<lparr>sl_run := RunDone\<rparr>, TIdle (Some TaskPanic))))"
| "task_step work s (TPolling waker once_more) =
     (case sl_run s of
        Running w \<Rightarrow>
          (case work w of
             (w, WorkReady) \<Rightarrow> Some (unlock_slot RunDone s, TIdle (Some TaskReady))
           | (w, WorkPending) \<Rightarrow> Some (unlock_slot (Running w) s, TSwap waker once_more)
           | (w, WorkPanic) \<Rightarrow> Some (unlock_slot (Running w) s, TIdle (Some TaskPanic)))
      | run \<Rightarrow> Some (unlock_slot run s, TIdle None))"
| "task_step work s (TSwap waker once_more) =
     Some (if once_more
           then (if sl_again s then (s\<lparr>sl_again := False\<rparr>, TLoop waker False) else (s, TIdle (Some TaskPending)))
           else (s, TIdle (Some TaskPending)))"
| "task_step work s (TIdle r) = None"

section \<open>The registry\<close>

text \<open>A \<open>Weak<Slot>\<close> is the slot's number while its \<open>Turn\<close> lives. The \<open>BTreeMap\<close> is kept in the order of its keys.\<close>

record turn_registry =
  rg_next :: nat
  rg_slots :: "(nat \<times> nat) list"

definition turns_new :: turn_registry where
  "turns_new = \<lparr>rg_next = 0, rg_slots = []\<rparr>"

definition track :: "nat \<Rightarrow> turn_registry \<Rightarrow> turn_registry \<times> nat" where
  "track slot r = (\<lparr>rg_next = rg_next r + 1, rg_slots = rg_slots r @ [(rg_next r, slot)]\<rparr>, rg_next r)"

definition drop_turn :: "nat \<Rightarrow> turn_registry \<Rightarrow> turn_registry" where
  "drop_turn key r = r\<lparr>rg_slots := filter (\<lambda>(k, _). k \<noteq> key) (rg_slots r)\<rparr>"

definition drop_slot :: "'w slot \<Rightarrow> 'w slot" where
  "drop_slot s = s\<lparr>sl_run := RunDone\<rparr>"

definition give_order :: "turn_registry \<Rightarrow> nat list" where
  "give_order r = rev (map snd (rg_slots r))"

lemma track_last: "give_order (fst (track slot r)) = slot # give_order r"
  by (simp add: track_def give_order_def)

section \<open>A task and turns together\<close>

text \<open>
  Any number of turns, each given any number of times, run beside the task. \<open>tu_polls\<close> counts the polls of the future
  begun so far, \<open>tt_asked\<close> keeps the count at a turn's beginning, and \<open>tt_met\<close> what held the lock when the turn gave
  way; none is part of the program. A task that ended or panicked is not polled again, and one dropped between polls
  waits for the lock and empties its slot.
\<close>

datatype holder = FirstPoll | LastPoll | AnotherTurn

fun holder_of :: "task_pc \<Rightarrow> holder" where
  "holder_of (TPolling _ once_more) = (if once_more then FirstPoll else LastPoll)"
| "holder_of _ = AnotherTurn"

record turn_thread =
  tt_pc :: turn_pc
  tt_asked :: nat
  tt_met :: "holder option"

record 'w turn_run =
  tu_slot :: "'w slot"
  tu_task :: task_pc
  tu_turns :: "turn_thread list"
  tu_polls :: nat

definition turn_run_new :: "'w \<Rightarrow> nat \<Rightarrow> 'w turn_run" where
  "turn_run_new w n =
     \<lparr>tu_slot = slot_new w, tu_task = TIdle None,
      tu_turns = replicate n \<lparr>tt_pc = GIdle, tt_asked = 0, tt_met = None\<rparr>, tu_polls = 0\<rparr>"

fun task_polls :: "task_pc \<Rightarrow> nat" where
  "task_polls (TPolling _ _) = 1"
| "task_polls _ = 0"

definition turn_polls :: "turn_pc \<Rightarrow> nat" where
  "turn_polls g = (if g = GPolling then 1 else 0)"

text \<open>A turn that gives way returns from its second \<open>try_lock\<close>.\<close>

definition moved :: "task_pc \<Rightarrow> turn_pc \<Rightarrow> turn_thread \<Rightarrow> turn_thread" where
  "moved task pc t =
     t\<lparr>tt_pc := pc, tt_met := (if tt_pc t = GRetry \<and> pc = GDone then Some (holder_of task) else tt_met t)\<rparr>"

inductive t_step :: "('w \<Rightarrow> 'w \<times> work_answer) \<Rightarrow> 'w turn_run \<Rightarrow> 'w turn_run \<Rightarrow> bool" for work where
  task_begins: "tu_task s = TIdle None \<or> tu_task s = TIdle (Some TaskPending) \<Longrightarrow> t_step work s (s\<lparr>tu_task := TLoop waker True\<rparr>)"
| task_moves: "task_step work (tu_slot s) (tu_task s) = Some (slot, pc) \<Longrightarrow>
     t_step work s (s\<lparr>tu_slot := slot, tu_task := pc, tu_polls := tu_polls s + task_polls pc\<rparr>)"
| task_dropped: "tu_task s = TIdle r \<Longrightarrow> \<not> sl_locked (tu_slot s) \<Longrightarrow>
     t_step work s (s\<lparr>tu_slot := drop_slot (tu_slot s), tu_task := TIdle (Some TaskReady)\<rparr>)"
| turn_begins: "i < length (tu_turns s) \<Longrightarrow> tt_pc (tu_turns s ! i) \<in> {GIdle, GDone} \<Longrightarrow>
     t_step work s (s\<lparr>tu_turns := (tu_turns s)[i := \<lparr>tt_pc = GTry, tt_asked = tu_polls s, tt_met = None\<rparr>]\<rparr>)"
| turn_moves: "i < length (tu_turns s) \<Longrightarrow> turn_step work (tu_slot s) (tt_pc (tu_turns s ! i)) = (slot, pc) \<Longrightarrow>
     t_step work s (s\<lparr>tu_slot := slot, tu_turns := (tu_turns s)[i := moved (tu_task s) pc (tu_turns s ! i)],
       tu_polls := tu_polls s + turn_polls pc\<rparr>)"

section \<open>No turn is lost\<close>

definition running :: "'w slot \<Rightarrow> bool" where
  "running s = (case sl_run s of Running _ \<Rightarrow> True | _ \<Rightarrow> False)"

fun task_holds :: "task_pc \<Rightarrow> bool" where
  "task_holds (TPolling _ _) = True"
| "task_holds _ = False"

definition turn_holds :: "turn_pc \<Rightarrow> bool" where
  "turn_holds g \<longleftrightarrow> g = GHeld \<or> g = GPolling"

definition turns_hold :: "turn_thread list \<Rightarrow> nat" where
  "turns_hold ts = length (filter (\<lambda>t. turn_holds (tt_pc t)) ts)"

text \<open>The lock has one holder, and what is polled is running.\<close>

definition lock_inv :: "'w turn_run \<Rightarrow> bool" where
  "lock_inv s \<longleftrightarrow>
     turns_hold (tu_turns s) + of_bool (task_holds (tu_task s)) = of_bool (sl_locked (tu_slot s)) \<and>
     (task_holds (tu_task s) \<or> (\<exists>t \<in> set (tu_turns s). tt_pc t = GPolling) \<longrightarrow> running (tu_slot s))"

text \<open>
  A turn that gave way to the task's first poll left \<open>again\<close> to it: that poll will read it, has read it, or another
  turn has polled since.
\<close>

definition served :: "'w slot \<Rightarrow> nat \<Rightarrow> turn_thread \<Rightarrow> bool" where
  "served slot polls t \<longleftrightarrow> tt_asked t < polls \<or> \<not> running slot"

definition turn_inv :: "'w slot \<Rightarrow> task_pc \<Rightarrow> nat \<Rightarrow> turn_thread \<Rightarrow> bool" where
  "turn_inv slot task polls t \<longleftrightarrow>
     tt_asked t \<le> polls \<and>
     (case tt_pc t of
        GRetry \<Rightarrow> served slot polls t \<or> sl_again slot \<or> (\<exists>w. task = TLoop w False)
      | GPolling \<Rightarrow> tt_asked t < polls
      | GWake _ \<Rightarrow> tt_asked t < polls
      | GDone \<Rightarrow>
          served slot polls t \<or> tt_met t \<in> {Some LastPoll, Some AnotherTurn} \<or>
          (sl_again slot \<and> (\<exists>w. task = TPolling w True \<or> task = TSwap w True)) \<or> (\<exists>w. task = TLoop w False) \<or>
          task = TIdle (Some TaskPanic)
      | _ \<Rightarrow> True)"

definition turns_inv :: "'w turn_run \<Rightarrow> bool" where
  "turns_inv s \<longleftrightarrow> lock_inv s \<and> (\<forall>t \<in> set (tu_turns s). turn_inv (tu_slot s) (tu_task s) (tu_polls s) t)"

lemma turns_inv_new: "turns_inv (turn_run_new w n)"
  by (auto simp: turns_inv_def lock_inv_def turns_hold_def turn_run_new_def slot_new_def turn_holds_def turn_inv_def)

lemma turns_hold_update:
  "i < length ts \<Longrightarrow> turns_hold (ts[i := t]) + of_bool (turn_holds (tt_pc (ts ! i))) = turns_hold ts + of_bool (turn_holds (tt_pc t))"
proof (induction ts arbitrary: i)
  case (Cons x ts)
  then show ?case by (cases i) (auto simp: turns_hold_def)
qed simp

lemma turns_hold_one: "i < length ts \<Longrightarrow> turn_holds (tt_pc (ts ! i)) \<Longrightarrow> 0 < turns_hold ts"
  by (auto simp: turns_hold_def filter_empty_conv)

lemma lock_task_free:
  assumes "lock_inv s" "i < length (tu_turns s)" "turn_holds (tt_pc (tu_turns s ! i))"
  shows "\<not> task_holds (tu_task s)" "sl_locked (tu_slot s)"
  using assms turns_hold_one [OF assms(2,3)] by (auto simp: lock_inv_def of_bool_def split: if_splits)

lemmas turn_defs = turn_inv_def served_def running_def lock_slot_def unlock_slot_def

lemma task_moves_lock:
  assumes "lock_inv s" "task_step work (tu_slot s) (tu_task s) = Some (slot, pc)"
  shows "turns_hold (tu_turns s) + of_bool (task_holds pc) = of_bool (sl_locked slot)"
proof (cases "tu_task s")
  case (TPolling w m)
  then obtain x where x: "sl_run (tu_slot s) = Running x" using assms(1) by (auto simp: lock_inv_def running_def split: slot_run.splits)
  obtain y a where "work x = (y, a)" by (meson surj_pair)
  then show ?thesis using assms TPolling x by (cases a) (auto simp: lock_inv_def unlock_slot_def of_bool_def split: if_splits)
qed (use assms in \<open>auto simp: lock_inv_def lock_slot_def of_bool_def split: if_splits slot_run.splits\<close>)

lemma task_moves_running:
  assumes "lock_inv s" "task_step work (tu_slot s) (tu_task s) = Some (slot, pc)"
    "task_holds pc \<or> (\<exists>t \<in> set (tu_turns s). tt_pc t = GPolling)"
  shows "running slot"
proof (cases "\<exists>t \<in> set (tu_turns s). tt_pc t = GPolling")
  case True
  then obtain i where "i < length (tu_turns s)" "turn_holds (tt_pc (tu_turns s ! i))" by (auto simp: in_set_conv_nth turn_holds_def)
  then have "\<not> task_holds (tu_task s)" "sl_locked (tu_slot s)" "running (tu_slot s)"
    using lock_task_free [OF assms(1)] assms(1) True by (auto simp: lock_inv_def)
  then show ?thesis using assms(2) by (cases "tu_task s") (auto simp: running_def split: if_splits)
next
  case False
  then show ?thesis using assms(2,3)
    by (cases "tu_task s") (auto simp: running_def lock_slot_def split: if_splits slot_run.splits prod.splits work_answer.splits)
qed

lemma task_moves_turn:
  assumes "lock_inv s" "task_step work (tu_slot s) (tu_task s) = Some (slot, pc)" "turn_inv (tu_slot s) (tu_task s) (tu_polls s) t"
  shows "turn_inv slot pc (tu_polls s + task_polls pc) t"
proof (cases "tu_task s")
  case (TLoop w m)
  then have "\<not> sl_locked (tu_slot s)" using assms(2) by (simp split: if_splits)
  then show ?thesis using assms(2,3) TLoop
    by (cases "sl_run (tu_slot s)"; cases m; cases "tt_pc t") (clarsimp simp: turn_defs; fail)+
next
  case (TPolling w m)
  then obtain x where x: "sl_run (tu_slot s) = Running x" using assms(1) by (auto simp: lock_inv_def running_def split: slot_run.splits)
  obtain y a where "work x = (y, a)" by (meson surj_pair)
  then show ?thesis using assms(2,3) TPolling x by (cases a; cases m; cases "tt_pc t") (clarsimp simp: turn_defs; fail)+
next
  case (TSwap w m)
  then show ?thesis using assms(2,3) by (cases m; cases "sl_again (tu_slot s)"; cases "tt_pc t") (clarsimp simp: turn_defs; fail)+
qed (use assms in simp)

lemma turn_moves_lock:
  assumes inv: "lock_inv s" and i: "i < length (tu_turns s)" and step: "turn_step work (tu_slot s) (tt_pc (tu_turns s ! i)) = (slot, pc)"
  shows "turns_hold ((tu_turns s)[i := moved (tu_task s) pc (tu_turns s ! i)]) + of_bool (task_holds (tu_task s)) = of_bool (sl_locked slot)"
proof -
  let ?g = "tt_pc (tu_turns s ! i)"
  note up = turns_hold_update [OF i, of "moved (tu_task s) pc (tu_turns s ! i)"]
  have lock: "turns_hold (tu_turns s) + of_bool (task_holds (tu_task s)) = of_bool (sl_locked (tu_slot s))" using inv by (simp add: lock_inv_def)
  have "of_bool (turn_holds pc) + of_bool (sl_locked (tu_slot s)) = of_bool (turn_holds ?g) + (of_bool (sl_locked slot) :: nat)"
  proof (cases ?g)
    case GHeld
    then show ?thesis using step lock_task_free(2) [OF inv i] by (auto simp: turn_holds_def unlock_slot_def Let_def split: slot_run.splits)
  next
    case GPolling
    then show ?thesis using step lock_task_free(2) [OF inv i]
      by (auto simp: turn_holds_def unlock_slot_def split: slot_run.splits prod.splits work_answer.splits)
  qed (use step in \<open>auto simp: turn_holds_def lock_slot_def split: if_splits\<close>)
  then show ?thesis using up lock by (simp add: moved_def)
qed

lemma turn_moves_running:
  assumes inv: "lock_inv s" and i: "i < length (tu_turns s)" and step: "turn_step work (tu_slot s) (tt_pc (tu_turns s ! i)) = (slot, pc)"
    and polled: "task_holds (tu_task s) \<or> (\<exists>t \<in> set ((tu_turns s)[i := moved (tu_task s) pc (tu_turns s ! i)]). tt_pc t = GPolling)"
  shows "running slot"
proof (cases "turn_holds (tt_pc (tu_turns s ! i))")
  case True
  define ts where "ts = (tu_turns s)[i := moved (tu_task s) pc (tu_turns s ! i)]"
  have "\<not> task_holds (tu_task s)" by (rule lock_task_free(1) [OF inv i True])
  moreover have "turns_hold ts = of_bool (sl_locked slot)" using turn_moves_lock [OF inv i step] calculation by (simp add: ts_def)
  moreover have "0 < turns_hold ts"
  proof -
    obtain j where "j < length ts" "tt_pc (ts ! j) = GPolling"
      using polled calculation(1) unfolding ts_def [symmetric] by (auto simp: in_set_conv_nth)
    then show ?thesis by (intro turns_hold_one [of j]) (simp_all add: turn_holds_def)
  qed
  ultimately show ?thesis using step True
    by (auto simp: turn_holds_def running_def unlock_slot_def Let_def split: slot_run.splits prod.splits work_answer.splits)
next
  case False
  then have run: "sl_run slot = sl_run (tu_slot s)" "pc \<noteq> GPolling"
    using step by (cases "tt_pc (tu_turns s ! i)"; auto simp: turn_holds_def lock_slot_def split: if_splits)+
  then have "task_holds (tu_task s) \<or> (\<exists>t \<in> set (tu_turns s). tt_pc t = GPolling)"
    using polled i by (auto simp: moved_def dest!: set_update_subset_insert [THEN subsetD])
  then show ?thesis using inv run(1) by (auto simp: lock_inv_def running_def)
qed

lemma turn_moves_other:
  assumes "turn_step work slot g = (slot', pc)" "turn_inv slot task polls t"
  shows "turn_inv slot' task (polls + turn_polls pc) t"
proof (cases g)
  case GHeld
  then show ?thesis using assms by (cases "sl_run slot"; cases "tt_pc t") (clarsimp simp: turn_defs turn_polls_def; fail)+
next
  case GPolling
  then show ?thesis using assms
    by (cases "sl_run slot"; cases "tt_pc t") (auto simp: turn_defs turn_polls_def split: prod.splits work_answer.splits)
qed (use assms in \<open>cases "tt_pc t"; auto simp: turn_defs turn_polls_def split: if_splits\<close>)+

lemma turn_moves_own:
  assumes "turn_step work slot (tt_pc t) = (slot', pc)" "turn_inv slot task polls t"
  shows "turn_inv slot' task (polls + turn_polls pc) (moved task pc t)"
proof (cases "tt_pc t")
  case GHeld
  then show ?thesis using assms by (cases "sl_run slot") (clarsimp simp: turn_defs turn_polls_def moved_def; fail)+
next
  case GPolling
  then show ?thesis using assms
    by (auto simp: turn_defs turn_polls_def moved_def split: slot_run.splits prod.splits work_answer.splits)
next
  case GRetry
  then show ?thesis using assms
    by (cases task; cases "sl_locked slot") (auto simp: turn_defs turn_polls_def moved_def)
qed (use assms in \<open>auto simp: turn_defs turn_polls_def moved_def split: if_splits\<close>)

lemma t_step_inv: "t_step work s s' \<Longrightarrow> turns_inv s \<Longrightarrow> turns_inv s'"
proof (induction rule: t_step.induct)
  case (task_begins s waker)
  then have "turn_inv (tu_slot s) (TLoop waker True) (tu_polls s) t" if "t \<in> set (tu_turns s)" for t
    using that by (cases "tt_pc t") (auto simp: turns_inv_def turn_inv_def)
  then show ?case using task_begins by (auto simp: turns_inv_def lock_inv_def)
next
  case (task_moves s slot pc)
  then show ?case using task_moves_lock [of s] task_moves_running [of s] task_moves_turn [of s]
    unfolding turns_inv_def lock_inv_def [of "s\<lparr>tu_slot := slot, tu_task := pc, tu_polls := tu_polls s + task_polls pc\<rparr>"] by simp
next
  case (task_dropped s r)
  have no_turn: "tt_pc t \<noteq> GPolling" if t: "t \<in> set (tu_turns s)" for t
  proof
    assume "tt_pc t = GPolling"
    moreover obtain i where "i < length (tu_turns s)" "tu_turns s ! i = t" using t by (auto simp: in_set_conv_nth)
    ultimately show False using lock_task_free(2) [of s i] task_dropped by (auto simp: turns_inv_def turn_holds_def)
  qed
  have "turn_inv (drop_slot (tu_slot s)) (TIdle (Some TaskReady)) (tu_polls s) t" if "t \<in> set (tu_turns s)" for t
    using that task_dropped by (cases "tt_pc t") (auto simp: turns_inv_def turn_inv_def served_def running_def drop_slot_def)
  then show ?case using task_dropped no_turn by (auto simp: turns_inv_def lock_inv_def drop_slot_def)
next
  case (turn_begins i s)
  let ?t = "\<lparr>tt_pc = GTry, tt_asked = tu_polls s, tt_met = None\<rparr>"
  have "turns_hold ((tu_turns s)[i := ?t]) = turns_hold (tu_turns s)"
    using turns_hold_update [OF turn_begins(1), of ?t] turn_begins(2) by (auto simp: turn_holds_def)
  moreover have "turn_inv (tu_slot s) (tu_task s) (tu_polls s) ?t" by (simp add: turn_inv_def)
  ultimately show ?case using turn_begins(3)
    by (auto simp: turns_inv_def lock_inv_def dest!: set_update_subset_insert [THEN subsetD])
next
  case (turn_moves i s slot pc)
  let ?ts = "(tu_turns s)[i := moved (tu_task s) pc (tu_turns s ! i)]"
  have inv: "lock_inv s" "\<And>t. t \<in> set (tu_turns s) \<Longrightarrow> turn_inv (tu_slot s) (tu_task s) (tu_polls s) t"
    using turn_moves(3) by (auto simp: turns_inv_def)
  have "turn_inv slot (tu_task s) (tu_polls s + turn_polls pc) t" if "t \<in> set ?ts" for t
    using that turn_moves_other [OF turn_moves(2)] turn_moves_own [OF turn_moves(2)] inv(2) nth_mem [OF turn_moves(1)]
    by (auto dest!: set_update_subset_insert [THEN subsetD])
  then show ?case using turn_moves_lock [OF inv(1) turn_moves(1,2)] turn_moves_running [OF inv(1) turn_moves(1,2)]
    by (auto simp: turns_inv_def lock_inv_def)
qed

lemma turn_reachable_inv: "(t_step work)\<^sup>*\<^sup>* (turn_run_new w n) s \<Longrightarrow> turns_inv s"
  by (induction rule: rtranclp_induct) (auto intro: turns_inv_new t_step_inv)

text \<open>A turn takes no lock it would wait for, and ends within six steps of its own.\<close>

fun turn_rank :: "turn_pc \<Rightarrow> nat" where
  "turn_rank GTry = 6"
| "turn_rank GSet = 5"
| "turn_rank GRetry = 4"
| "turn_rank GHeld = 3"
| "turn_rank GPolling = 2"
| "turn_rank (GWake _) = 1"
| "turn_rank _ = 0"

lemma turn_step_ends: "0 < turn_rank g \<Longrightarrow> turn_rank (snd (turn_step work s g)) < turn_rank g"
  by (cases g) (simp_all add: Let_def split: slot_run.split prod.split work_answer.split)

text \<open>
  C34. A turn is lost only to another turn or to a poll that is already the task's second. Under every interleaving of
  a task's polls with any number of turns, each given any number of times: once a turn has returned and the task is
  between polls, a poll of the future began after the turn did, the future has ended, or its own task ended with the
  future's panic; except for a turn that gave way, at its second \<open>try_lock\<close>, to another turn's poll or to the second
  poll of the task's loop, neither of which is followed by one more.
\<close>

theorem turn_not_lost:
  assumes "(t_step work)\<^sup>*\<^sup>* (turn_run_new w n) s" "i < length (tu_turns s)" "tt_pc (tu_turns s ! i) = GDone" "tu_task s = TIdle r"
    "tt_met (tu_turns s ! i) \<notin> {Some AnotherTurn, Some LastPoll}"
  shows "tt_asked (tu_turns s ! i) < tu_polls s \<or> sl_run (tu_slot s) \<in> {RunDone, RunPanicked} \<or> r = Some TaskPanic"
proof -
  have "turn_inv (tu_slot s) (tu_task s) (tu_polls s) (tu_turns s ! i)"
    using turn_reachable_inv [OF assms(1)] nth_mem [OF assms(2)] by (simp add: turns_inv_def)
  then show ?thesis using assms(3-5) by (cases "sl_run (tu_slot s)") (auto simp: turn_inv_def served_def running_def)
qed

section \<open>Runs\<close>

datatype t_move = TaskBegins nat | TaskMoves | TurnBegins nat | TurnMoves nat

fun t_exec :: "('w \<Rightarrow> 'w \<times> work_answer) \<Rightarrow> t_move \<Rightarrow> 'w turn_run \<Rightarrow> 'w turn_run" where
  "t_exec work (TaskBegins waker) s =
     (if tu_task s = TIdle None \<or> tu_task s = TIdle (Some TaskPending) then s\<lparr>tu_task := TLoop waker True\<rparr> else s)"
| "t_exec work TaskMoves s =
     (case task_step work (tu_slot s) (tu_task s) of
        Some (slot, pc) \<Rightarrow> s\<lparr>tu_slot := slot, tu_task := pc, tu_polls := tu_polls s + task_polls pc\<rparr>
      | None \<Rightarrow> s)"
| "t_exec work (TurnBegins i) s =
     (if i < length (tu_turns s) \<and> tt_pc (tu_turns s ! i) \<in> {GIdle, GDone}
      then s\<lparr>tu_turns := (tu_turns s)[i := \<lparr>tt_pc = GTry, tt_asked = tu_polls s, tt_met = None\<rparr>]\<rparr> else s)"
| "t_exec work (TurnMoves i) s =
     (if i < length (tu_turns s)
      then (case turn_step work (tu_slot s) (tt_pc (tu_turns s ! i)) of
              (slot, pc) \<Rightarrow> s\<lparr>tu_slot := slot, tu_turns := (tu_turns s)[i := moved (tu_task s) pc (tu_turns s ! i)],
                 tu_polls := tu_polls s + turn_polls pc\<rparr>) else s)"

lemma t_exec_step: "(t_step work)\<^sup>*\<^sup>* s (t_exec work m s)"
proof (cases m)
  case (TaskBegins waker)
  then show ?thesis using t_step.task_begins [of s work waker] by auto
next
  case TaskMoves
  then show ?thesis using t_step.task_moves [of work s] by (auto split: option.split prod.split)
next
  case (TurnBegins i)
  then show ?thesis using t_step.turn_begins [of i s work] by auto
next
  case (TurnMoves i)
  obtain slot pc where "turn_step work (tu_slot s) (tt_pc (tu_turns s ! i)) = (slot, pc)" by (meson surj_pair)
  then show ?thesis using t_step.turn_moves [of i s work slot pc] TurnMoves by auto
qed

lemma t_exec_steps: "(t_step work)\<^sup>*\<^sup>* s (fold (t_exec work) ms s)"
proof (induction ms arbitrary: s)
  case (Cons m ms)
  show ?case using rtranclp_trans [OF t_exec_step Cons.IH] by simp
qed simp

definition pending_work :: "nat \<Rightarrow> nat \<times> work_answer" where
  "pending_work n = (n + 1, WorkPending)"

text \<open>A turn finds the task's poll under way and the task polls once more for it; a second turn comes later and polls itself.\<close>

definition twice_moves :: "t_move list" where
  "twice_moves =
     [TaskBegins 5, TaskMoves, TurnBegins 0, TurnMoves 0, TurnMoves 0, TurnMoves 0, TaskMoves, TaskMoves, TaskMoves, TaskMoves, TaskMoves,
      TurnBegins 1, TurnMoves 1, TurnMoves 1, TurnMoves 1]"

definition twice :: "nat turn_run" where
  "twice = fold (t_exec pending_work) twice_moves (turn_run_new 0 2)"

lemma twice_eq:
  "twice = \<lparr>tu_slot = \<lparr>sl_run = Running 3, sl_waker = Some 5, sl_locked = False, sl_again = False\<rparr>, tu_task = TIdle (Some TaskPending),
     tu_turns = [\<lparr>tt_pc = GDone, tt_asked = 1, tt_met = Some FirstPoll\<rparr>, \<lparr>tt_pc = GDone, tt_asked = 2, tt_met = None\<rparr>], tu_polls = 3\<rparr>"
  by code_simp

theorem turn_not_lost_witness:
  "tt_asked (tu_turns twice ! 0) < tu_polls twice \<and> tt_met (tu_turns twice ! 0) = Some FirstPoll \<and> tt_asked (tu_turns twice ! 1) < tu_polls twice"
  using turn_not_lost [OF t_exec_steps [of pending_work "turn_run_new 0 2" twice_moves, folded twice_def], of 0]
    turn_not_lost [OF t_exec_steps [of pending_work "turn_run_new 0 2" twice_moves, folded twice_def], of 1]
  by (simp add: twice_eq)

text \<open>
  The exceptions are real. A turn that overlaps another's poll sets \<open>again\<close> and returns; the other turn does not read
  it, and no poll follows until the task's own next one. A turn that comes in the task's second poll fares the same.
\<close>

lemma overlapping_turn_lost:
  "let s = fold (t_exec pending_work)
       [TurnBegins 0, TurnMoves 0, TurnMoves 0, TurnBegins 1, TurnMoves 1, TurnMoves 1, TurnMoves 1, TurnMoves 0] (turn_run_new 0 2)
   in map tt_pc (tu_turns s) = [GDone, GDone] \<and> tt_asked (tu_turns s ! 1) = tu_polls s \<and> tt_met (tu_turns s ! 1) = Some AnotherTurn \<and>
      tu_task s = TIdle None \<and> sl_run (tu_slot s) = Running 1"
  by code_simp

lemma second_poll_turn_lost:
  "let s = fold (t_exec pending_work)
       ([TaskBegins 5, TaskMoves, TurnBegins 0, TurnMoves 0, TurnMoves 0, TurnMoves 0, TaskMoves, TaskMoves, TaskMoves] @
        [TurnBegins 1, TurnMoves 1, TurnMoves 1, TurnMoves 1, TaskMoves, TaskMoves]) (turn_run_new 0 2)
   in map tt_pc (tu_turns s) = [GDone, GDone] \<and> tt_asked (tu_turns s ! 1) = tu_polls s \<and> tt_met (tu_turns s ! 1) = Some LastPoll \<and>
      tu_task s = TIdle (Some TaskPending)"
  by code_simp

end
