(* ===== verification/Config_Tree.thy ===== *)
theory Config_Tree
  imports Redact "HOL-Library.Word"
begin

text \<open>
  The configuration tree, \<open>ulo-config/src/tree.rs\<close>: a value with the origin of every leaf, the overlay of one layer
  on another, the write at a path, the read of a dotted path and the list of leaves. Text is a list of Unicode code
  points below 256, an \<open>f64\<close> is its 64 bits, an \<open>i128\<close> an integer the readers keep in range.
\<close>

section \<open>Origins and nodes\<close>

datatype origin =
    OriginFile (og_path: string) (og_line: nat) (og_column: nat)
  | OriginVariable string
  | OriginExplicit string
  | OriginDefault

fun origin_text :: "origin \<Rightarrow> string" where
  "origin_text (OriginFile path line column) =
     (if line = 0 then path
      else if column = 0 then path @ '':'' @ decimal line
      else path @ '':'' @ decimal line @ '':'' @ decimal column)"
| "origin_text (OriginVariable name) = ''variable '' @ name"
| "origin_text (OriginExplicit key) = ''value set for '' @ key"
| "origin_text OriginDefault = ''default''"

datatype config_node = Node (nd_value: config_value) (nd_origin: origin)
and config_value =
    VNull
  | VBool bool
  | VInteger int
  | VFloat "64 word"
  | VString string
  | VText string
  | VArray "config_node list"
  | VTable "(string \<times> config_node) list"

type_synonym entries = "(string \<times> config_node) list"

type_synonym tree = "config_node option"

fun is_table :: "config_node \<Rightarrow> bool" where
  "is_table (Node (VTable _) _) = True"
| "is_table _ = False"

section \<open>Overlay\<close>

text \<open>
  \<open>merge\<close> updates the base in place: the entry found first under the key is merged with, and a key not found is
  pushed. \<open>merge_in\<close> is the body of its loop.
\<close>

function (sequential) merge :: "config_node \<Rightarrow> config_node \<Rightarrow> config_node"
  and merge_all :: "entries \<Rightarrow> entries \<Rightarrow> entries"
  and merge_in :: "entries \<Rightarrow> string \<Rightarrow> config_node \<Rightarrow> entries" where
  "merge (Node (VTable base) origin) (Node (VTable upper) _) = Node (VTable (merge_all base upper)) origin"
| "merge _ upper = upper"
| "merge_all base [] = base"
| "merge_all base ((key, node) # upper) = merge_all (merge_in base key node) upper"
| "merge_in [] key node = [(key, node)]"
| "merge_in ((existing, child) # base) key node =
     (if existing = key then (existing, merge child node) # base else (existing, child) # merge_in base key node)"
  by pat_completeness auto
termination
  by (relation "measures [\<lambda>x. case x of Inl (_, u) \<Rightarrow> 2 * size u | Inr (Inl (_, us)) \<Rightarrow> 2 * size_list (size_prod (\<lambda>_. 0) size) us + 1
                                 | Inr (Inr (_, _, n)) \<Rightarrow> 2 * size n + 1,
                   \<lambda>x. case x of Inl _ \<Rightarrow> 0 | Inr (Inl _) \<Rightarrow> 0 | Inr (Inr (b, _, _)) \<Rightarrow> length b + 1]") auto

fun overlay :: "tree \<Rightarrow> tree \<Rightarrow> tree" where
  "overlay base None = base"
| "overlay None (Some upper) = Some upper"
| "overlay (Some base) (Some upper) = Some (merge base upper)"

section \<open>Writing at a path\<close>

definition key_position :: "string \<Rightarrow> entries \<Rightarrow> nat option" where
  "key_position key es = position_of (\<lambda>(k, _). k = key) es"

fun set_in :: "config_node \<Rightarrow> string list \<Rightarrow> config_node \<Rightarrow> config_node" where
  "set_in (Node (VTable es) origin) (first # rest) node =
     (if rest = []
      then (case key_position first es of
              Some at \<Rightarrow> Node (VTable (es[at := (fst (es ! at), node)])) origin
            | None \<Rightarrow> Node (VTable (es @ [(first, node)])) origin)
      else (let (es, at) = (case key_position first es of
                              Some at \<Rightarrow> (es, at)
                            | None \<Rightarrow> (es @ [(first, Node (VTable []) (nd_origin node))], length es));
                child = snd (es ! at);
                child = (if is_table child then child else Node (VTable []) (nd_origin node))
            in Node (VTable (es[at := (fst (es ! at), set_in child rest node)])) origin))"
| "set_in table _ _ = table"

definition tree_set :: "string list \<Rightarrow> config_node \<Rightarrow> tree \<Rightarrow> tree" where
  "tree_set segs node t =
     (if segs = [] then t
      else (let root = (case t of Some root \<Rightarrow> root | None \<Rightarrow> Node (VTable []) (nd_origin node));
                root = (if is_table root then root else Node (VTable []) (nd_origin root))
            in Some (set_in root segs node)))"

section \<open>Reading a dotted path\<close>

text \<open>\<open>str::parse::<usize>\<close>: digits after an optional plus sign, refused past the width.\<close>

definition digit_value :: "char \<Rightarrow> nat option" where
  "digit_value c = (let n = of_char c in if 48 \<le> n \<and> n \<le> (57 :: nat) then Some (n - 48) else None)"

fun digits_value :: "nat \<Rightarrow> string \<Rightarrow> nat option" where
  "digits_value acc [] = Some acc"
| "digits_value acc (c # cs) = (case digit_value c of Some d \<Rightarrow> digits_value (10 * acc + d) cs | None \<Rightarrow> None)"

definition parse_usize :: "string \<Rightarrow> nat option" where
  "parse_usize s =
     (let ds = (case strip_prefix ''+'' s of Some rest \<Rightarrow> rest | None \<Rightarrow> s)
      in if ds = [] then None
         else (case digits_value 0 ds of Some n \<Rightarrow> (if n < 2 ^ 64 then Some n else None) | None \<Rightarrow> None))"

function (sequential) index_walk :: "config_node \<Rightarrow> string \<Rightarrow> config_node option" where
  "index_walk node [] = Some node"
| "index_walk node (c # rest) =
     (if c \<noteq> CHR ''['' then None
      else (case position_of (\<lambda>c. c = CHR '']'') rest of
              None \<Rightarrow> None
            | Some close \<Rightarrow>
                (case parse_usize (take close rest) of
                   None \<Rightarrow> None
                 | Some index \<Rightarrow>
                     (case nd_value node of
                        VArray items \<Rightarrow>
                          (case get_nth items index of
                             None \<Rightarrow> None
                           | Some item \<Rightarrow> index_walk item (drop (close + 1) rest))
                      | _ \<Rightarrow> None))))"
  by pat_completeness auto
termination
  by (relation "measure (\<lambda>(_, s). length s)") auto

definition segment_walk :: "string \<Rightarrow> config_node \<Rightarrow> config_node option" where
  "segment_walk segment node =
     (let (name, indexes) = (case position_of (\<lambda>c. c = CHR ''['') segment of
                               Some at \<Rightarrow> (take at segment, drop at segment)
                             | None \<Rightarrow> (segment, []));
          node = (if name = [] then Some node
                  else (case nd_value node of VTable es \<Rightarrow> map_of es name | _ \<Rightarrow> None))
      in case node of None \<Rightarrow> None | Some node \<Rightarrow> index_walk node indexes)"

definition tree_get :: "tree \<Rightarrow> string \<Rightarrow> config_node option" where
  "tree_get t path =
     (case t of
        None \<Rightarrow> None
      | Some root \<Rightarrow> if path = [] then Some root else fold_option segment_walk (split_on (CHR ''.'') path) root)"

section \<open>Leaves\<close>

definition join_key :: "string \<Rightarrow> string \<Rightarrow> string" where
  "join_key parent key = (if parent = [] then key else parent @ ''.'' @ key)"

definition join_index :: "string \<Rightarrow> nat \<Rightarrow> string" where
  "join_index parent index = parent @ ''['' @ decimal index @ '']''"

fun collect :: "config_node \<Rightarrow> string \<Rightarrow> (string \<times> config_node) list"
  and collect_entries :: "entries \<Rightarrow> string \<Rightarrow> (string \<times> config_node) list"
  and collect_items :: "config_node list \<Rightarrow> nat \<Rightarrow> string \<Rightarrow> (string \<times> config_node) list" where
  "collect (Node (VTable es) origin) path = collect_entries es path"
| "collect (Node (VArray items) origin) path = collect_items items 0 path"
| "collect node path = [(path, node)]"
| "collect_entries [] path = []"
| "collect_entries ((key, child) # es) path = collect child (join_key path key) @ collect_entries es path"
| "collect_items [] index path = []"
| "collect_items (child # items) index path = collect child (join_index path index) @ collect_items items (index + 1) path"

definition leaves :: "tree \<Rightarrow> (string \<times> config_node) list" where
  "leaves t = (case t of None \<Rightarrow> [] | Some root \<Rightarrow> collect root [])"

end
