(* ===== verification/Dotenv.thy ===== *)
theory Dotenv
  imports Config_Tree
begin

text \<open>
  Reports of configuration problems, \<open>ulo-config/src/problems.rs\<close>, and the reader of the \<open>.env\<close> subset,
  \<open>ulo-config/src/format/dotenv.rs\<close>.
\<close>

section \<open>Problems\<close>

record problem =
  pb_path :: string
  pb_origin :: "origin option"
  pb_message :: string
  pb_flattened :: bool
  pb_truncated :: bool

type_synonym problems = "problem list"

definition problem_at :: "string \<Rightarrow> string \<Rightarrow> problems \<Rightarrow> problems" where
  "problem_at path message ps =
     ps @ [\<lparr>pb_path = path, pb_origin = None, pb_message = message, pb_flattened = False, pb_truncated = False\<rparr>]"

definition at_origin :: "string \<Rightarrow> origin \<Rightarrow> string \<Rightarrow> problems \<Rightarrow> problems" where
  "at_origin path origin message ps =
     ps @ [\<lparr>pb_path = path, pb_origin = Some origin, pb_message = message, pb_flattened = False, pb_truncated = False\<rparr>]"

definition problems_result :: "problems \<Rightarrow> problems + unit" where
  "problems_result ps = (if ps = [] then Inr () else Inl ps)"

definition problem_line :: "problem \<Rightarrow> string" where
  "problem_line p =
     (case (pb_path p = [], pb_origin p) of
        (True, Some origin) \<Rightarrow> origin_text origin @ '': '' @ pb_message p
      | (True, None) \<Rightarrow> pb_message p
      | (False, Some origin) \<Rightarrow> pb_path p @ '' at '' @ origin_text origin @ '': '' @ pb_message p
      | (False, None) \<Rightarrow> pb_path p @ '': '' @ pb_message p)
     @ (if pb_flattened p then '' (inside a flattened section)'' else [])"

definition write_report :: "string \<Rightarrow> problems \<Rightarrow> string" where
  "write_report header ps =
     (let cut = list_ex pb_truncated ps;
          count = length ps - (if cut then 1 else 0)
      in header @ '' ('' @ decimal count @ '' problem'' @ (if count = 1 then [] else ''s'') @ (if cut then '', truncated'' else []) @ '')''
         @ concat (map (\<lambda>p. CHR 0x0A # problem_line p) ps))"

section \<open>Text\<close>

text \<open>\<open>str::lines\<close>: a line ends at a newline, with a carriage return before it, and the text after the last one is a
  line unless it is empty.\<close>

definition strip_return :: "string \<Rightarrow> string" where
  "strip_return s = (case strip_suffix [CHR 0x0D] s of Some rest \<Rightarrow> rest | None \<Rightarrow> s)"

definition text_lines :: "string \<Rightarrow> string list" where
  "text_lines s =
     (let pieces = split_on (CHR 0x0A) s
      in map strip_return (butlast pieces) @ (if last pieces = [] then [] else [last pieces]))"

definition trim_start :: "string \<Rightarrow> string" where
  "trim_start = dropWhile is_whitespace"

definition trim_end_space :: "string \<Rightarrow> string" where
  "trim_end_space s = rev (dropWhile is_whitespace (rev s))"

definition to_u32 :: "nat \<Rightarrow> nat" where
  "to_u32 n = min n (2 ^ 32 - 1)"

section \<open>The reader\<close>

record env_entry =
  en_key :: string
  en_value :: string
  en_line :: nat

definition valid_key :: "string \<Rightarrow> bool" where
  "valid_key key \<longleftrightarrow> key \<noteq> [] \<and> list_all (\<lambda>c. is_ascii_alnum c \<or> c \<in> {CHR ''_'', CHR ''.'', CHR ''-''}) key"

definition after_quote :: "string \<Rightarrow> string + unit" where
  "after_quote tail =
     (let trimmed = trim_start tail
      in if trimmed = [] \<or> take 1 trimmed = ''#'' \<and> length trimmed \<noteq> length tail then Inr ()
         else Inl ''unexpected text after the closing quote'')"

text \<open>The loop over a double-quoted body, with what it has pushed so far.\<close>

fun quoted_body :: "string \<Rightarrow> string \<Rightarrow> string + string" where
  "quoted_body acc [] = Inl ''double quote is not closed''"
| "quoted_body acc (c # cs) =
     (if c = CHR 0x22 then (case after_quote cs of Inl e \<Rightarrow> Inl e | Inr _ \<Rightarrow> Inr acc)
      else if c = CHR 0x5C
      then (case cs of
              [] \<Rightarrow> Inl ''double quote is not closed''
            | d # ds \<Rightarrow>
                if d = CHR ''n'' then quoted_body (acc @ [CHR 0x0A]) ds
                else if d = CHR 0x22 then quoted_body (acc @ [CHR 0x22]) ds
                else if d = CHR 0x5C then quoted_body (acc @ [CHR 0x5C]) ds
                else Inl (''escape is not one of '' @ [CHR 0x5C] @ ''n, '' @ [CHR 0x5C, CHR 0x22] @ '' and '' @ [CHR 0x5C, CHR 0x5C]))
      else quoted_body (acc @ [c]) cs)"

text \<open>The bare value up to a comment: \<open>#\<close> after whitespace.\<close>

fun bare_value :: "bool \<Rightarrow> string \<Rightarrow> string" where
  "bare_value previous_space [] = []"
| "bare_value previous_space (c # cs) =
     (if c = CHR ''#'' \<and> previous_space then [] else c # bare_value (is_whitespace c) cs)"

definition parse_value :: "string \<Rightarrow> string + string" where
  "parse_value rest =
     (let trimmed = trim_start rest
      in case strip_prefix [CHR 0x27] trimmed of
           Some body \<Rightarrow>
             (case position_of (\<lambda>c. c = CHR 0x27) body of
                None \<Rightarrow> Inl ''single quote is not closed''
              | Some close \<Rightarrow> (case after_quote (drop (close + 1) body) of Inl e \<Rightarrow> Inl e | Inr _ \<Rightarrow> Inr (take close body)))
         | None \<Rightarrow>
             (case strip_prefix [CHR 0x22] trimmed of
                Some body \<Rightarrow> quoted_body [] body
              | None \<Rightarrow> Inr (trim_end_space (trim_start (bare_value (rest \<noteq> [] \<and> is_whitespace (hd rest)) rest)))))"

text \<open>\<open>split_once('=')\<close>.\<close>

definition split_equals :: "string \<Rightarrow> (string \<times> string) option" where
  "split_equals s = map_option (\<lambda>at. (take at s, drop (at + 1) s)) (position_of (\<lambda>c. c = CHR ''='') s)"

record env_state =
  es_entries :: "env_entry list"
  es_seen :: "string \<rightharpoonup> nat"
  es_problems :: problems

definition env_line :: "string \<Rightarrow> nat \<times> string \<Rightarrow> env_state \<Rightarrow> env_state" where
  "env_line file = (\<lambda>(index, raw) st.
     let line = to_u32 (index + 1);
         origin = OriginFile file line 0;
         content = trim_start raw
     in if content = [] \<or> take 1 content = ''#'' then st
        else (let content = (case strip_prefix ''export'' content of
                               Some rest \<Rightarrow> (if rest \<noteq> [] \<and> (hd rest = CHR '' '' \<or> hd rest = CHR 0x09) then trim_start rest else content)
                             | None \<Rightarrow> content)
              in case split_equals content of
                   None \<Rightarrow> st\<lparr>es_problems := at_origin [] origin ''expected KEY=VALUE'' (es_problems st)\<rparr>
                 | Some (key, rest) \<Rightarrow>
                     (let key = trim_end_space key
                      in if \<not> valid_key key
                         then st\<lparr>es_problems := at_origin [] origin
                                (''the key may hold only letters, digits, '' @ [CHR 0x60] @ ''_'' @ [CHR 0x60] @ '', '' @ [CHR 0x60] @ ''.'' @ [CHR 0x60]
                                 @ '' and '' @ [CHR 0x60] @ ''-'' @ [CHR 0x60] @ '', and may not be empty'') (es_problems st)\<rparr>
                         else (case parse_value rest of
                                 Inl message \<Rightarrow> st\<lparr>es_problems := at_origin key origin message (es_problems st)\<rparr>
                               | Inr val \<Rightarrow>
                                   (case es_seen st key of
                                      Some seen \<Rightarrow>
                                        st\<lparr>es_problems := at_origin key origin
                                          (''key is written twice, at lines '' @ decimal seen @ '' and '' @ decimal line) (es_problems st)\<rparr>
                                    | None \<Rightarrow>
                                        st\<lparr>es_seen := (es_seen st)(key \<mapsto> line),
                                           es_entries := es_entries st @ [\<lparr>en_key = key, en_value = val, en_line = line\<rparr>]\<rparr>)))))"

definition env_parse :: "string \<Rightarrow> string \<Rightarrow> problems + env_entry list" where
  "env_parse s file =
     (let st = fold (env_line file) (List.enumerate 0 (text_lines s)) \<lparr>es_entries = [], es_seen = Map.empty, es_problems = []\<rparr>
      in case problems_result (es_problems st) of Inl ps \<Rightarrow> Inl ps | Inr _ \<Rightarrow> Inr (es_entries st))"

section \<open>A file written and read back\<close>

text \<open>A reference writer: one double-quoted value per line, with the three escapes the reader knows.\<close>

fun escape_char :: "char \<Rightarrow> string" where
  "escape_char c =
     (if c = CHR 0x0A then [CHR 0x5C, CHR ''n'']
      else if c = CHR 0x22 then [CHR 0x5C, CHR 0x22]
      else if c = CHR 0x5C then [CHR 0x5C, CHR 0x5C]
      else [c])"

definition write_line :: "string \<times> string \<Rightarrow> string" where
  "write_line = (\<lambda>(key, val). key @ ''='' @ [CHR 0x22] @ concat (map escape_char val) @ [CHR 0x22])"

definition write_env :: "(string \<times> string) list \<Rightarrow> string" where
  "write_env kvs = concat (map (\<lambda>kv. write_line kv @ [CHR 0x0A]) kvs)"

end
