(* ===== verification/Config_Formats.thy ===== *)
theory Config_Formats
  imports Dotenv
begin

text \<open>
  The readers of configuration files, \<open>ulo-config/src/format/\<close>: line positions, and the trees built from what the
  JSON, TOML and YAML parsers return. The parsers are parameters of the readers; their results are the datatypes the
  readers match on. A byte offset counts the UTF-8 form of the text.
\<close>

section \<open>Positions\<close>

record line_starts =
  ln_text :: string
  ln_starts :: "nat list"

definition lines_new :: "string \<Rightarrow> line_starts" where
  "lines_new s =
     \<lparr>ln_text = s,
      ln_starts = 0 # map (\<lambda>i. byte_len (take i s) + 1) (filter (\<lambda>i. s ! i = CHR 0x0A) [0..<length s])\<rparr>"

text \<open>\<open>binary_search\<close> on a strictly sorted list: the index of the element, or where it would go.\<close>

definition binary_search :: "nat list \<Rightarrow> nat \<Rightarrow> nat + nat" where
  "binary_search xs x = (case position_of (\<lambda>y. y = x) xs of Some i \<Rightarrow> Inr i | None \<Rightarrow> Inl (length (filter (\<lambda>y. y < x) xs)))"

text \<open>\<open>str::get\<close> of a byte range, refused off a character's boundary.\<close>

definition text_range :: "string \<Rightarrow> nat \<Rightarrow> nat \<Rightarrow> string option" where
  "text_range s start stop =
     (let at = (\<lambda>offset. position_of (\<lambda>i. byte_len (take i s) = offset) [0..<length s + 1])
      in case (at start, at stop) of
           (Some i, Some j) \<Rightarrow> if i \<le> j then Some (take (j - i) (drop i s)) else None
         | _ \<Rightarrow> None)"

definition locate :: "line_starts \<Rightarrow> nat \<Rightarrow> nat \<times> nat" where
  "locate ls offset =
     (let offset = min offset (byte_len (ln_text ls));
          line = (case binary_search (ln_starts ls) offset of Inr at \<Rightarrow> at | Inl at \<Rightarrow> at - 1);
          start = ln_starts ls ! line;
          column = (case text_range (ln_text ls) start offset of Some before \<Rightarrow> length before | None \<Rightarrow> offset - start) + 1
      in (to_u32 (line + 1), to_u32 column))"

definition lines_origin :: "line_starts \<Rightarrow> string \<Rightarrow> nat \<Rightarrow> origin" where
  "lines_origin ls file offset = (let (line, column) = locate ls offset in OriginFile file line column)"

definition whole_file :: "string \<Rightarrow> origin" where
  "whole_file file = OriginFile file 0 0"

section \<open>Numbers\<close>

text \<open>\<open>i128::from_str_radix\<close>; \<open>str::parse\<close> is its radix 10.\<close>

definition radix_digit :: "nat \<Rightarrow> char \<Rightarrow> nat option" where
  "radix_digit radix c =
     (let n = of_char c :: nat;
          d = (if 48 \<le> n \<and> n \<le> 57 then n - 48 else if 97 \<le> n \<and> n \<le> 122 then n - 87 else if 65 \<le> n \<and> n \<le> 90 then n - 55 else 36)
      in if d < radix then Some d else None)"

fun radix_value :: "nat \<Rightarrow> nat \<Rightarrow> string \<Rightarrow> nat option" where
  "radix_value radix acc [] = Some acc"
| "radix_value radix acc (c # cs) = (case radix_digit radix c of Some d \<Rightarrow> radix_value radix (radix * acc + d) cs | None \<Rightarrow> None)"

definition parse_i128 :: "nat \<Rightarrow> string \<Rightarrow> int option" where
  "parse_i128 radix s =
     (let (negative, ds) = (case s of
                              [] \<Rightarrow> (False, [])
                            | c # cs \<Rightarrow> if c = CHR ''-'' then (True, cs) else if c = CHR ''+'' then (False, cs) else (False, s))
      in if ds = [] then None
         else (case radix_value radix 0 ds of
                 None \<Rightarrow> None
               | Some n \<Rightarrow> (let i = (if negative then - int n else int n) in if - (2 ^ 127) \<le> i \<and> i < 2 ^ 127 then Some i else None)))"

text \<open>\<open>f64_of\<close> is \<open>str::parse::<f64>\<close>.\<close>

definition number_value :: "(string \<Rightarrow> 64 word option) \<Rightarrow> string \<Rightarrow> config_value option" where
  "number_value f64_of s =
     (case (if CHR ''.'' \<in> set s \<or> CHR ''e'' \<in> set s \<or> CHR ''E'' \<in> set s then None else parse_i128 10 s) of
        Some number \<Rightarrow> Some (VInteger number)
      | None \<Rightarrow> map_option VFloat (f64_of s))"

section \<open>JSON\<close>

datatype json =
    JString nat string
  | JNumber nat string
  | JBool nat bool
  | JNull nat
  | JArray nat "json list"
  | JObject nat "(string \<times> json) list"

datatype json_parsed = JsonError nat nat string | JsonEmpty | JsonValue json

fun json_node :: "(string \<Rightarrow> 64 word option) \<Rightarrow> (nat \<Rightarrow> origin) \<Rightarrow> json \<Rightarrow> problems \<Rightarrow> config_node \<times> problems"
  and json_items :: "(string \<Rightarrow> 64 word option) \<Rightarrow> (nat \<Rightarrow> origin) \<Rightarrow> json list \<Rightarrow> problems \<Rightarrow> config_node list \<times> problems"
  and json_props :: "(string \<Rightarrow> 64 word option) \<Rightarrow> (nat \<Rightarrow> origin) \<Rightarrow> (string \<times> json) list \<Rightarrow> entries \<Rightarrow> problems \<Rightarrow> entries \<times> problems" where
  "json_node f at (JString start s) ps = (Node (VString s) (at start), ps)"
| "json_node f at (JNumber start s) ps =
     (case number_value f s of
        Some val \<Rightarrow> (Node val (at start), ps)
      | None \<Rightarrow> (Node VNull (at start), at_origin [] (at start) ''number cannot be read'' ps))"
| "json_node f at (JBool start flag) ps = (Node (VBool flag) (at start), ps)"
| "json_node f at (JNull start) ps = (Node VNull (at start), ps)"
| "json_node f at (JArray start elements) ps =
     (let (items, ps) = json_items f at elements ps in (Node (VArray items) (at start), ps))"
| "json_node f at (JObject start properties) ps =
     (let (es, ps) = json_props f at properties [] ps in (Node (VTable es) (at start), ps))"
| "json_items f at [] ps = ([], ps)"
| "json_items f at (e # elements) ps =
     (let (node, ps) = json_node f at e ps; (items, ps) = json_items f at elements ps in (node # items, ps))"
| "json_props f at [] es ps = (es, ps)"
| "json_props f at ((name, val) # properties) es ps =
     (let (node, ps) = json_node f at val ps
      in case map_of es name of
           Some seen \<Rightarrow>
             json_props f at properties es
               (at_origin [] (nd_origin node)
                  (''key '' @ [CHR 0x60] @ name @ [CHR 0x60] @ '' is written twice, first at '' @ origin_text (nd_origin seen)) ps)
         | None \<Rightarrow> json_props f at properties (es @ [(name, node)]) ps)"

definition json_read :: "(string \<Rightarrow> 64 word option) \<Rightarrow> (string \<Rightarrow> json_parsed) \<Rightarrow> string \<Rightarrow> string \<Rightarrow> problems + tree" where
  "json_read f64_of parse s file =
     (case parse s of
        JsonError line column kind \<Rightarrow> Inl (at_origin [] (OriginFile file (to_u32 line) (to_u32 column)) kind [])
      | JsonEmpty \<Rightarrow> Inl (at_origin [] (whole_file file) ''the file holds no JSON value'' [])
      | JsonValue document \<Rightarrow>
          (let (root, ps) = json_node f64_of (lines_origin (lines_new s) file) document [];
               ps = (if is_table root then ps else at_origin [] (nd_origin root) ''the top level must be an object'' ps)
           in case problems_result ps of Inr _ \<Rightarrow> Inr (Some root) | Inl ps \<Rightarrow> Inl ps))"

section \<open>TOML\<close>

datatype toml =
    TString nat string
  | TInteger nat string nat
  | TFloat nat string
  | TBool nat bool
  | TDatetime nat string
  | TArray nat "toml list"
  | TTable nat "(string \<times> toml) list"

fun toml_node :: "(string \<Rightarrow> 64 word option) \<Rightarrow> (nat \<Rightarrow> origin) \<Rightarrow> toml \<Rightarrow> problems \<Rightarrow> config_node \<times> problems"
  and toml_items :: "(string \<Rightarrow> 64 word option) \<Rightarrow> (nat \<Rightarrow> origin) \<Rightarrow> toml list \<Rightarrow> problems \<Rightarrow> config_node list \<times> problems"
  and toml_table :: "(string \<Rightarrow> 64 word option) \<Rightarrow> (nat \<Rightarrow> origin) \<Rightarrow> (string \<times> toml) list \<Rightarrow> problems \<Rightarrow> entries \<times> problems" where
  "toml_node f at (TString start s) ps = (Node (VString s) (at start), ps)"
| "toml_node f at (TInteger start s radix) ps =
     (case parse_i128 radix s of
        Some number \<Rightarrow> (Node (VInteger number) (at start), ps)
      | None \<Rightarrow> (Node VNull (at start), at_origin [] (at start) ''integer is too large'' ps))"
| "toml_node f at (TFloat start s) ps =
     (case f s of
        Some number \<Rightarrow> (Node (VFloat number) (at start), ps)
      | None \<Rightarrow> (Node VNull (at start), at_origin [] (at start) ''float is not a number'' ps))"
| "toml_node f at (TBool start flag) ps = (Node (VBool flag) (at start), ps)"
| "toml_node f at (TDatetime start moment) ps = (Node (VString moment) (at start), ps)"
| "toml_node f at (TArray start elements) ps =
     (let (items, ps) = toml_items f at elements ps in (Node (VArray items) (at start), ps))"
| "toml_node f at (TTable start table) ps =
     (let (es, ps) = toml_table f at table ps in (Node (VTable es) (at start), ps))"
| "toml_items f at [] ps = ([], ps)"
| "toml_items f at (e # elements) ps =
     (let (node, ps) = toml_node f at e ps; (items, ps) = toml_items f at elements ps in (node # items, ps))"
| "toml_table f at [] ps = ([], ps)"
| "toml_table f at ((key, val) # table) ps =
     (let (node, ps) = toml_node f at val ps; (es, ps) = toml_table f at table ps in ((key, node) # es, ps))"

text \<open>A parse error has a message and, when known, an offset.\<close>

definition toml_read ::
  "(string \<Rightarrow> 64 word option) \<Rightarrow> (string \<Rightarrow> nat option \<times> string + (string \<times> toml) list) \<Rightarrow> string \<Rightarrow> string \<Rightarrow> problems + tree" where
  "toml_read f64_of parse s file =
     (let ls = lines_new s
      in case parse s of
           Inl (span, message) \<Rightarrow>
             Inl (at_origin [] (case span of Some start \<Rightarrow> lines_origin ls file start | None \<Rightarrow> whole_file file) message [])
         | Inr table \<Rightarrow>
             (let (es, ps) = toml_table f64_of (lines_origin ls file) table []
              in case problems_result ps of Inr _ \<Rightarrow> Inr (Some (Node (VTable es) (lines_origin ls file 0))) | Inl ps \<Rightarrow> Inl ps))"

end
