(* ===== verification/Yaml_Format.thy ===== *)
theory Yaml_Format
  imports Config_Formats
begin

text \<open>
  The YAML reader, \<open>ulo-config/src/format/yaml.rs\<close>: the scan of the event stream that refuses a document whose aliases
  expand past the limit, and the tree built from the loaded document. The parser's events and the loader's document
  are parameters.
\<close>

definition alias_limit :: nat where
  "alias_limit = 100000"

text \<open>A marker is a line from 1 and a column from 0.\<close>

type_synonym yaml_marker = "nat \<times> nat"

definition origin_at :: "string \<Rightarrow> yaml_marker \<Rightarrow> origin" where
  "origin_at file m = OriginFile file (to_u32 (fst m)) (to_u32 (snd m + 1))"

section \<open>The scan\<close>

datatype yaml_event =
    EvDocumentStart
  | EvScalar string bool nat
  | EvAlias nat
  | EvSequenceStart nat
  | EvMappingStart nat
  | EvSequenceEnd
  | EvMappingEnd
  | EvOther

record yaml_frame =
  yf_anchor :: nat
  yf_size :: nat
  yf_mapping :: bool
  yf_key :: bool

text \<open>The last frame pushed is the head of \<open>sc_frames\<close>.\<close>

record yaml_scan =
  sc_problems :: problems
  sc_frames :: "yaml_frame list"
  sc_sizes :: "nat \<rightharpoonup> nat"
  sc_built :: nat
  sc_refused :: bool

definition usize_add :: "nat \<Rightarrow> nat \<Rightarrow> nat" where
  "usize_add a b = min (a + b) (2 ^ 64 - 1)"

definition in_key :: "yaml_scan \<Rightarrow> bool" where
  "in_key sc = (case sc_frames sc of frame # _ \<Rightarrow> yf_mapping frame \<and> yf_key frame | [] \<Rightarrow> False)"

definition finish_node :: "nat \<Rightarrow> nat \<Rightarrow> yaml_scan \<Rightarrow> yaml_scan" where
  "finish_node sz anchor sc =
     (let sc = (if anchor \<noteq> 0 then sc\<lparr>sc_sizes := (sc_sizes sc)(anchor \<mapsto> sz)\<rparr> else sc)
      in case sc_frames sc of
           [] \<Rightarrow> sc
         | parent # frames \<Rightarrow>
             sc\<lparr>sc_frames := parent\<lparr>yf_size := usize_add (yf_size parent) sz,
                                yf_key := (if yf_mapping parent then \<not> yf_key parent else yf_key parent)\<rparr> # frames\<rparr>)"

definition build :: "nat \<Rightarrow> yaml_scan \<Rightarrow> yaml_scan" where
  "build sz sc = sc\<lparr>sc_built := usize_add (sc_built sc) sz\<rparr>"

definition scan_problem :: "string \<Rightarrow> yaml_marker \<Rightarrow> string \<Rightarrow> yaml_scan \<Rightarrow> yaml_scan" where
  "scan_problem file m message sc = sc\<lparr>sc_problems := at_origin [] (origin_at file m) message (sc_problems sc)\<rparr>"

fun event_step :: "string \<Rightarrow> yaml_marker \<Rightarrow> yaml_event \<Rightarrow> yaml_scan \<Rightarrow> yaml_scan" where
  "event_step file m EvDocumentStart sc = sc\<lparr>sc_frames := [], sc_sizes := Map.empty, sc_built := 0\<rparr>"
| "event_step file m (EvScalar val plain anchor) sc =
     (let sc = (if in_key sc \<and> plain \<and> val = ''<<''
                then scan_problem file m (''merge key '' @ [CHR 0x60] @ ''<<'' @ [CHR 0x60] @ '' is YAML 1.1 and is not supported'') sc
                else sc)
      in finish_node 1 anchor (build 1 sc))"
| "event_step file m (EvAlias anchor) sc =
     (let sz = (case sc_sizes sc anchor of Some sz \<Rightarrow> sz | None \<Rightarrow> 1);
          sc = build sz sc
      in if alias_limit < sc_built sc
         then (scan_problem file m (''alias expands the document past '' @ decimal alias_limit @ '' nodes'') sc)\<lparr>sc_refused := True\<rparr>
         else finish_node sz 0 sc)"
| "event_step file m (EvSequenceStart anchor) sc =
     (let sc = build 1 sc
      in sc\<lparr>sc_frames := \<lparr>yf_anchor = anchor, yf_size = 1, yf_mapping = False, yf_key = False\<rparr> # sc_frames sc\<rparr>)"
| "event_step file m (EvMappingStart anchor) sc =
     (let sc = build 1 sc
      in sc\<lparr>sc_frames := \<lparr>yf_anchor = anchor, yf_size = 1, yf_mapping = True, yf_key = True\<rparr> # sc_frames sc\<rparr>)"
| "event_step file m EvSequenceEnd sc =
     (case sc_frames sc of
        [] \<Rightarrow> sc
      | frame # frames \<Rightarrow> finish_node (yf_size frame) (yf_anchor frame) (sc\<lparr>sc_frames := frames\<rparr>))"
| "event_step file m EvMappingEnd sc =
     (case sc_frames sc of
        [] \<Rightarrow> sc
      | frame # frames \<Rightarrow> finish_node (yf_size frame) (yf_anchor frame) (sc\<lparr>sc_frames := frames\<rparr>))"
| "event_step file m EvOther sc = sc"

definition on_event :: "string \<Rightarrow> yaml_event \<times> yaml_marker \<Rightarrow> yaml_scan \<Rightarrow> yaml_scan" where
  "on_event file = (\<lambda>(event, m) sc. if sc_refused sc then sc else event_step file m event sc)"

definition scan_new :: yaml_scan where
  "scan_new = \<lparr>sc_problems = [], sc_frames = [], sc_sizes = Map.empty, sc_built = 0, sc_refused = False\<rparr>"

text \<open>The parser hands its events over and ends with an error or without.\<close>

definition prescan :: "string \<Rightarrow> (yaml_event \<times> yaml_marker) list \<times> (yaml_marker \<times> string) option \<Rightarrow> problems + unit" where
  "prescan file = (\<lambda>(events, failed).
     let sc = fold (on_event file) events scan_new;
         sc = (case failed of Some (m, info) \<Rightarrow> scan_problem file m info sc | None \<Rightarrow> sc)
     in problems_result (sc_problems sc))"

section \<open>The tree\<close>

datatype yaml = Yaml (ym_start: yaml_marker) (ym_data: yaml_data)
and yaml_data =
    YNull
  | YBool bool
  | YInteger int
  | YFloat "64 word"
  | YString string
  | YRepresentation string
  | YSequence "yaml list"
  | YMapping "(yaml \<times> yaml) list"
  | YTagged yaml
  | YAlias
  | YBadValue

definition int_text :: "int \<Rightarrow> string" where
  "int_text i = (if i < 0 then ''-'' @ decimal (nat (- i)) else decimal (nat i))"

text \<open>\<open>f64_text\<close> is \<open>f64::to_string\<close>.\<close>

fun yaml_key_text :: "(64 word \<Rightarrow> string) \<Rightarrow> yaml \<Rightarrow> string option" where
  "yaml_key_text f64_text (Yaml m (YString s)) = Some s"
| "yaml_key_text f64_text (Yaml m (YInteger number)) = Some (int_text number)"
| "yaml_key_text f64_text (Yaml m (YBool flag)) = Some (if flag then ''true'' else ''false'')"
| "yaml_key_text f64_text (Yaml m (YFloat number)) = Some (f64_text number)"
| "yaml_key_text f64_text (Yaml m (YRepresentation s)) = Some s"
| "yaml_key_text f64_text (Yaml m (YTagged inner)) = yaml_key_text f64_text inner"
| "yaml_key_text f64_text _ = None"

fun yaml_node :: "(64 word \<Rightarrow> string) \<Rightarrow> string \<Rightarrow> yaml \<Rightarrow> problems \<Rightarrow> config_node \<times> problems"
  and yaml_items :: "(64 word \<Rightarrow> string) \<Rightarrow> string \<Rightarrow> yaml list \<Rightarrow> problems \<Rightarrow> config_node list \<times> problems"
  and yaml_entries :: "(64 word \<Rightarrow> string) \<Rightarrow> string \<Rightarrow> (yaml \<times> yaml) list \<Rightarrow> problems \<Rightarrow> entries \<times> problems" where
  "yaml_node f file (Yaml m YNull) ps = (Node VNull (origin_at file m), ps)"
| "yaml_node f file (Yaml m (YBool flag)) ps = (Node (VBool flag) (origin_at file m), ps)"
| "yaml_node f file (Yaml m (YInteger number)) ps = (Node (VInteger number) (origin_at file m), ps)"
| "yaml_node f file (Yaml m (YFloat number)) ps = (Node (VFloat number) (origin_at file m), ps)"
| "yaml_node f file (Yaml m (YString s)) ps = (Node (VString s) (origin_at file m), ps)"
| "yaml_node f file (Yaml m (YRepresentation s)) ps = (Node (VString s) (origin_at file m), ps)"
| "yaml_node f file (Yaml m (YSequence elements)) ps =
     (let (items, ps) = yaml_items f file elements ps in (Node (VArray items) (origin_at file m), ps))"
| "yaml_node f file (Yaml m (YMapping pairs)) ps =
     (let (es, ps) = yaml_entries f file pairs ps in (Node (VTable es) (origin_at file m), ps))"
| "yaml_node f file (Yaml m (YTagged inner)) ps = yaml_node f file inner ps"
| "yaml_node f file (Yaml m YAlias) ps = (Node VNull (origin_at file m), at_origin [] (origin_at file m) ''the value cannot be read'' ps)"
| "yaml_node f file (Yaml m YBadValue) ps = (Node VNull (origin_at file m), at_origin [] (origin_at file m) ''the value cannot be read'' ps)"
| "yaml_items f file [] ps = ([], ps)"
| "yaml_items f file (e # elements) ps =
     (let (node, ps) = yaml_node f file e ps; (items, ps) = yaml_items f file elements ps in (node # items, ps))"
| "yaml_entries f file [] ps = ([], ps)"
| "yaml_entries f file ((key, val) # pairs) ps =
     (case yaml_key_text f key of
        Some name \<Rightarrow>
          (let (node, ps) = yaml_node f file val ps; (es, ps) = yaml_entries f file pairs ps in ((name, node) # es, ps))
      | None \<Rightarrow> yaml_entries f file pairs (at_origin [] (origin_at file (ym_start key)) ''a key must be a scalar'' ps))"

record yaml_parser =
  yp_events :: "string \<Rightarrow> (yaml_event \<times> yaml_marker) list \<times> (yaml_marker \<times> string) option"
  yp_load :: "string \<Rightarrow> yaml_marker \<times> string + yaml list"
  yp_f64_text :: "64 word \<Rightarrow> string"

definition yaml_read :: "yaml_parser \<Rightarrow> string \<Rightarrow> string \<Rightarrow> problems + tree" where
  "yaml_read yp s file =
     (case prescan file (yp_events yp s) of
        Inl ps \<Rightarrow> Inl ps
      | Inr _ \<Rightarrow>
          (case yp_load yp s of
             Inl (m, info) \<Rightarrow> Inl (at_origin [] (origin_at file m) info [])
           | Inr [] \<Rightarrow> Inr None
           | Inr [only] \<Rightarrow>
               (let (root, ps) = yaml_node (yp_f64_text yp) file only []
                in case problems_result ps of
                     Inl ps \<Rightarrow> Inl ps
                   | Inr _ \<Rightarrow>
                       (case nd_value root of
                          VNull \<Rightarrow> Inr None
                        | VTable _ \<Rightarrow> Inr (Some root)
                        | _ \<Rightarrow> Inl (at_origin [] (nd_origin root) ''the top level must be a mapping'' [])))
           | Inr (_ # second # _) \<Rightarrow>
               Inl (at_origin [] (origin_at file (ym_start second)) ''the file holds more than one YAML document'' [])))"

end
