(* ===== verification/Serde_Values.thy ===== *)
theory Serde_Values
  imports "HOL-Library.Word"
begin

text \<open>
  Values of the libraries the crates share: a JSON value as \<open>serde_json\<close> holds it, and the standard library's map ordered
  by its keys.
\<close>

section \<open>JSON values\<close>

text \<open>\<open>serde_json::Value\<close>. A number is its \<open>as_i64\<close>, \<open>as_u64\<close> and \<open>as_f64\<close>.\<close>

datatype json_value =
    SNull
  | SBool bool
  | SNumber "int option" "nat option" "64 word option"
  | SString string
  | SArray "json_value list"
  | SObject "(string \<times> json_value) list"

section \<open>Ordered maps\<close>

text \<open>\<open>BTreeMap<String, V>\<close> in the order of its keys, compared by bytes.\<close>

fun text_less :: "string \<Rightarrow> string \<Rightarrow> bool" where
  "text_less [] [] = False"
| "text_less [] (_ # _) = True"
| "text_less (_ # _) [] = False"
| "text_less (a # as) (b # bs) = (if a = b then text_less as bs else (of_char a :: nat) < of_char b)"

fun btree_insert :: "string \<Rightarrow> 'v \<Rightarrow> (string \<times> 'v) list \<Rightarrow> (string \<times> 'v) list" where
  "btree_insert k v [] = [(k, v)]"
| "btree_insert k v ((k', v') # m) =
     (if k = k' then (k, v) # m else if text_less k k' then (k, v) # (k', v') # m else (k', v') # btree_insert k v m)"

definition btree_of :: "(string \<times> 'v) list \<Rightarrow> (string \<times> 'v) list" where
  "btree_of kvs = fold (\<lambda>(k, v). btree_insert k v) kvs []"

lemma text_less_irrefl [simp]: "\<not> text_less s s"
  by (induction s) auto

lemma text_less_asym: "text_less s t \<Longrightarrow> \<not> text_less t s"
  by (induction s t rule: text_less.induct) (auto split: if_splits)

lemma btree_insert_lookup: "map_of (btree_insert k v m) = (map_of m)(k \<mapsto> v)"
  by (induction m) auto

definition btree_sorted :: "(string \<times> 'v) list \<Rightarrow> bool" where
  "btree_sorted m = sorted_wrt (\<lambda>a b. text_less (fst a) (fst b)) m"

lemma btree_insert_last: "\<forall>e \<in> set m. text_less (fst e) k \<Longrightarrow> btree_insert k v m = m @ [(k, v)]"
  by (induction m) (auto dest: text_less_asym)

lemma btree_of_sorted: "btree_sorted m \<Longrightarrow> btree_of m = m"
proof (induction m rule: rev_induct)
  case (snoc e m)
  then have "btree_of m = m" "\<forall>x \<in> set m. text_less (fst x) (fst e)" by (auto simp: btree_sorted_def sorted_wrt_append)
  then show ?case using btree_insert_last [of m "fst e" "snd e"] by (simp add: btree_of_def split_beta)
qed (simp add: btree_of_def)

lemma btree_of_lookup: "distinct (map fst m) \<Longrightarrow> map_of (btree_of m) k = map_of m k"
proof (induction m rule: rev_induct)
  case (snoc e m)
  obtain key v where e: "e = (key, v)" by (cases e)
  have "map_of m key = None" using snoc.prems e by (auto simp: map_of_eq_None_iff)
  then show ?case using snoc e by (simp add: btree_of_def btree_insert_lookup map_add_def split: option.split)
qed (simp add: btree_of_def)

end
