(* ===== verification/Config_Load.thy ===== *)
theory Config_Load
  imports Yaml_Format Serde_Values
begin

text \<open>
  The sources of configuration, \<open>ulo-config/src/source.rs\<close>, their merge, \<open>ulo-config/src/config.rs\<close>, and the check for
  keys nothing reads, \<open>ulo-config/src/module.rs\<close>. The file system, the process environment and the parsers are the
  parameter \<open>world\<close>.
\<close>

section \<open>What a source reads from\<close>

text \<open>
  \<open>std::fs::read\<close> and \<open>String::from_utf8\<close> together. A byte order mark is no code point below 256, so a text says apart
  whether it begins with one.
\<close>

datatype file_read = FileText bool string | FileNotUtf8 | FileMissing | FileUnreadable string

text \<open>A variable that is not UTF-8 has no name or no value.\<close>

record world =
  wd_read :: "string \<Rightarrow> file_read"
  wd_vars :: "(string option \<times> string option) list"
  wd_f64 :: "string \<Rightarrow> 64 word option"
  wd_json :: "string \<Rightarrow> json_parsed"
  wd_toml :: "string \<Rightarrow> nat option \<times> string + (string \<times> toml) list"
  wd_yaml :: yaml_parser

section \<open>Layers\<close>

type_synonym source_failure = "string \<times> problems"

record layer =
  ly_tree :: tree
  ly_failures :: "source_failure list"
  ly_defaults :: bool

definition layer_of :: "tree \<Rightarrow> layer" where
  "layer_of t = \<lparr>ly_tree = t, ly_failures = [], ly_defaults = False\<rparr>"

definition failed_with :: "string \<Rightarrow> problems \<Rightarrow> layer" where
  "failed_with source ps = \<lparr>ly_tree = None, ly_failures = [(source, ps)], ly_defaults = False\<rparr>"

definition layer_failed :: "string \<Rightarrow> string \<Rightarrow> layer" where
  "layer_failed source message = failed_with source (problem_at [] message [])"

definition read_text :: "world \<Rightarrow> string \<Rightarrow> bool \<Rightarrow> layer + string" where
  "read_text wd path optional =
     (case wd_read wd path of
        FileText bom s \<Rightarrow> Inr s
      | FileNotUtf8 \<Rightarrow> Inl (layer_failed path ''file is not valid UTF-8'')
      | FileMissing \<Rightarrow> Inl (if optional then layer_of None else layer_failed path ''file not found'')
      | FileUnreadable e \<Rightarrow> Inl (layer_failed path (''file cannot be read: '' @ e)))"

section \<open>Names as paths\<close>

definition lowercase :: "char \<Rightarrow> char" where
  "lowercase c = (let n = of_char c :: nat in if 65 \<le> n \<and> n \<le> 90 \<or> 192 \<le> n \<and> n \<le> 222 \<and> n \<noteq> 215 then char_of (n + 32) else c)"

text \<open>\<open>str::split\<close> at a text that is not empty.\<close>

function (sequential) split_sep :: "string \<Rightarrow> string \<Rightarrow> string list" where
  "split_sep sep s =
     (if sep = [] then [s]
      else (case split_text sep s of
              None \<Rightarrow> [s]
            | Some (before, after) \<Rightarrow> before # split_sep sep after))"
  by pat_completeness auto
termination
  by (relation "measure (\<lambda>(_, s). length s)") (auto dest!: split_text_Some)

declare split_sep.simps [simp del]

definition segments :: "string \<Rightarrow> string option \<Rightarrow> string \<Rightarrow> string list option" where
  "segments name prefix separator =
     (case (case prefix of Some prefix \<Rightarrow> strip_prefix prefix name | None \<Rightarrow> Some name) of
        None \<Rightarrow> None
      | Some rest \<Rightarrow>
          (let segs = (if separator = [] then [map lowercase rest]
                       else map (map lowercase) (filter (\<lambda>segment. segment \<noteq> []) (split_sep separator rest)))
           in if list_all (\<lambda>segment. segment = []) segs then None else Some segs))"

definition dotted :: "string \<Rightarrow> string list" where
  "dotted path = filter (\<lambda>segment. segment \<noteq> []) (split_on (CHR ''.'') path)"

section \<open>Sources\<close>

fun default_node :: "json_value \<Rightarrow> config_node" where
  "default_node SNull = Node VNull OriginDefault"
| "default_node (SBool flag) = Node (VBool flag) OriginDefault"
| "default_node (SNumber i u f) =
     Node (case (i, u, f) of
             (Some n, _, _) \<Rightarrow> VInteger n
           | (None, Some n, _) \<Rightarrow> VInteger (int n)
           | (None, None, Some n) \<Rightarrow> VFloat n
           | (None, None, None) \<Rightarrow> VNull) OriginDefault"
| "default_node (SString s) = Node (VString s) OriginDefault"
| "default_node (SArray items) = Node (VArray (map default_node items)) OriginDefault"
| "default_node (SObject es) = Node (VTable (map (\<lambda>(key, item). (key, default_node item)) es)) OriginDefault"

datatype file_kind = KindToml | KindJson | KindYaml

datatype scalar = ScalarBool bool | ScalarInteger int | ScalarFloat "64 word" | ScalarString string

fun scalar_value :: "scalar \<Rightarrow> config_value" where
  "scalar_value (ScalarBool flag) = VBool flag"
| "scalar_value (ScalarInteger number) = VInteger number"
| "scalar_value (ScalarFloat number) = VFloat number"
| "scalar_value (ScalarString s) = VString s"

text \<open>
  The value of \<open>TypeDefaults\<close> is what serde wrote of the type's default, or why it could not. A file has its path, its
  kind and whether it is optional; \<open>DotEnv\<close> and \<open>Env\<close> have a prefix and a separator.
\<close>

datatype source =
    Defaults
  | TypeDefaults "string + json_value" "string list"
  | File string file_kind bool
  | DotEnv string bool "string option" string
  | Env "(string \<times> string) list option" "string option" string
  | Values "(string \<times> scalar) list"

definition env_vars :: "world \<Rightarrow> (string \<times> string) list option \<Rightarrow> (string \<times> string) list" where
  "env_vars wd vars =
     (case vars of
        Some vars \<Rightarrow> btree_of vars
      | None \<Rightarrow> btree_of (List.map_filter (\<lambda>(name, val). case (name, val) of (Some n, Some v) \<Rightarrow> Some (n, v) | _ \<Rightarrow> None) (wd_vars wd)))"

definition format_read :: "world \<Rightarrow> file_kind \<Rightarrow> string \<Rightarrow> string \<Rightarrow> problems + tree" where
  "format_read wd kind s file =
     (case kind of
        KindToml \<Rightarrow> toml_read (wd_f64 wd) (wd_toml wd) s file
      | KindJson \<Rightarrow> json_read (wd_f64 wd) (wd_json wd) s file
      | KindYaml \<Rightarrow> yaml_read (wd_yaml wd) s file)"

definition type_defaults_read :: "string + json_value \<Rightarrow> string list \<Rightarrow> layer" where
  "type_defaults_read val path =
     (case val of
        Inl message \<Rightarrow> layer_failed ''default'' message
      | Inr val \<Rightarrow> layer_of (if path = [] then Some (default_node val) else tree_set path (default_node val) None))"

definition file_layer :: "world \<Rightarrow> string \<Rightarrow> file_kind \<Rightarrow> bool \<Rightarrow> layer" where
  "file_layer wd path kind optional =
     (case read_text wd path optional of
        Inl layer \<Rightarrow> layer
      | Inr s \<Rightarrow> (case format_read wd kind s path of Inr t \<Rightarrow> layer_of t | Inl ps \<Rightarrow> failed_with path ps))"

definition dotenv_layer :: "world \<Rightarrow> string \<Rightarrow> bool \<Rightarrow> string option \<Rightarrow> string \<Rightarrow> layer" where
  "dotenv_layer wd path optional prefix separator =
     (case read_text wd path optional of
        Inl layer \<Rightarrow> layer
      | Inr s \<Rightarrow>
          (case env_parse s path of
             Inl ps \<Rightarrow> failed_with path ps
           | Inr es \<Rightarrow>
               layer_of (fold (\<lambda>e t. case segments (en_key e) prefix separator of
                                       None \<Rightarrow> t
                                     | Some segs \<Rightarrow> tree_set segs (Node (VText (en_value e)) (OriginFile path (en_line e) 0)) t) es None)))"

definition env_layer :: "world \<Rightarrow> (string \<times> string) list option \<Rightarrow> string option \<Rightarrow> string \<Rightarrow> layer" where
  "env_layer wd vars prefix separator =
     layer_of (fold (\<lambda>(name, val) t. case segments name prefix separator of
                                    None \<Rightarrow> t
                                  | Some segs \<Rightarrow> tree_set segs (Node (VText val) (OriginVariable name)) t) (env_vars wd vars) None)"

definition values_layer :: "(string \<times> scalar) list \<Rightarrow> layer" where
  "values_layer es =
     layer_of (fold (\<lambda>(key, scalar) t. tree_set (dotted key) (Node (scalar_value scalar) (OriginExplicit key)) t) es None)"

fun source_read :: "world \<Rightarrow> source \<Rightarrow> layer" where
  "source_read wd Defaults = \<lparr>ly_tree = None, ly_failures = [], ly_defaults = True\<rparr>"
| "source_read wd (TypeDefaults val path) = type_defaults_read val path"
| "source_read wd (File path kind optional) = file_layer wd path kind optional"
| "source_read wd (DotEnv path optional prefix separator) = dotenv_layer wd path optional prefix separator"
| "source_read wd (Env vars prefix separator) = env_layer wd vars prefix separator"
| "source_read wd (Values es) = values_layer es"

section \<open>Loading\<close>

record loaded =
  ld_tree :: tree
  ld_failures :: "source_failure list"
  ld_defaults :: bool
  ld_consumed :: "string set"

definition load_layer :: "layer \<Rightarrow> loaded \<Rightarrow> loaded" where
  "load_layer l ld = ld\<lparr>ld_tree := overlay (ld_tree ld) (ly_tree l), ld_failures := ld_failures ld @ ly_failures l,
     ld_defaults := (ld_defaults ld \<or> ly_defaults l)\<rparr>"

definition load :: "world \<Rightarrow> source list \<Rightarrow> loaded" where
  "load wd sources =
     fold (\<lambda>source. load_layer (source_read wd source)) sources
       \<lparr>ld_tree = None, ld_failures = [], ld_defaults = False, ld_consumed = {}\<rparr>"

definition mark_consumed :: "string set \<Rightarrow> loaded \<Rightarrow> loaded" where
  "mark_consumed paths ld = ld\<lparr>ld_consumed := ld_consumed ld \<union> paths\<rparr>"

definition unread :: "loaded \<Rightarrow> (string \<times> origin) list" where
  "unread ld = map (\<lambda>(path, node). (path, nd_origin node)) (filter (\<lambda>(path, _). path \<notin> ld_consumed ld) (leaves (ld_tree ld)))"

text \<open>Refused with a header and problems, or passed with the warnings logged.\<close>

definition check_unread :: "loaded \<Rightarrow> bool \<Rightarrow> (string \<times> problems) + (string \<times> origin) list" where
  "check_unread ld deny =
     (let keys = unread ld
      in if keys = [] then Inr []
         else if \<not> deny then Inr keys
         else Inl (''configuration holds keys nothing reads'',
                   fold (\<lambda>(path, origin). at_origin path origin ''no module reads this key'') keys []))"

end
