(* ===== verification/Config_Laws.thy ===== *)
theory Config_Laws
  imports Config_Load
begin

text \<open>
  Laws of loading: every tree a source or the merge builds keeps one entry per key, a YAML file with two keys of one text
  apart, and the value at a path is the one
  of the last source that says anything about it.
\<close>

section \<open>Well-formed trees\<close>

text \<open>No table of the tree holds a key twice.\<close>

fun wf_node :: "config_node \<Rightarrow> bool"
  and wf_entries :: "entries \<Rightarrow> bool"
  and wf_items :: "config_node list \<Rightarrow> bool" where
  "wf_node (Node (VTable es) _) = wf_entries es"
| "wf_node (Node (VArray items) _) = wf_items items"
| "wf_node _ = True"
| "wf_entries [] = True"
| "wf_entries ((key, node) # es) = (key \<notin> fst ` set es \<and> wf_node node \<and> wf_entries es)"
| "wf_items [] = True"
| "wf_items (node # items) = (wf_node node \<and> wf_items items)"

lemma wf_entries_iff: "wf_entries es \<longleftrightarrow> distinct (map fst es) \<and> (\<forall>e \<in> set es. wf_node (snd e))"
  by (induction es) (auto simp: rev_image_eqI)

lemma wf_items_iff: "wf_items items \<longleftrightarrow> (\<forall>node \<in> set items. wf_node node)"
  by (induction items) auto

definition wf_tree :: "tree \<Rightarrow> bool" where
  "wf_tree t = (case t of None \<Rightarrow> True | Some root \<Rightarrow> wf_node root)"

lemma wf_tree_simps [simp]: "wf_tree None" "wf_tree (Some root) = wf_node root"
  by (simp_all add: wf_tree_def)

section \<open>Overlay\<close>

lemma merge_in_keys: "map fst (merge_in base key node) = (if key \<in> fst ` set base then map fst base else map fst base @ [key])"
  by (induction base) (auto simp: rev_image_eqI)

lemma wf_merge:
  shows "wf_node base \<Longrightarrow> wf_node upper \<Longrightarrow> wf_node (merge base upper)"
    and "wf_entries es \<Longrightarrow> wf_entries us \<Longrightarrow> wf_entries (merge_all es us)"
    and "wf_entries es' \<Longrightarrow> wf_node node \<Longrightarrow> wf_entries (merge_in es' key node)"
proof (induction base upper and es us and es' key node rule: merge_merge_all_merge_in.induct)
  case (6 existing child base key node)
  have "existing \<notin> fst ` set (merge_in base key node)" if "existing \<noteq> key"
    using that 6(3) merge_in_keys [of base key node] by (auto simp flip: set_map)
  then show ?case using 6 by auto
qed auto

lemma wf_overlay: "wf_tree base \<Longrightarrow> wf_tree upper \<Longrightarrow> wf_tree (overlay base upper)"
  by (cases "(base, upper)" rule: overlay.cases) (auto intro: wf_merge(1))

text \<open>
  The leaf at a path of names, an array counted as a leaf, and whether a tree says anything about a path: it has a node
  there, or something other than a table on the way.
\<close>

fun leaf_at :: "string list \<Rightarrow> config_node \<Rightarrow> config_node option" where
  "leaf_at [] node = (if is_table node then None else Some node)"
| "leaf_at (key # path) (Node (VTable es) _) = (case map_of es key of None \<Rightarrow> None | Some child \<Rightarrow> leaf_at path child)"
| "leaf_at (key # path) _ = None"

fun says :: "string list \<Rightarrow> config_node \<Rightarrow> bool" where
  "says [] node = True"
| "says (key # path) (Node (VTable es) _) = (case map_of es key of None \<Rightarrow> False | Some child \<Rightarrow> says path child)"
| "says (key # path) _ = True"

definition tree_leaf :: "string list \<Rightarrow> tree \<Rightarrow> config_node option" where
  "tree_leaf path t = (case t of None \<Rightarrow> None | Some root \<Rightarrow> leaf_at path root)"

definition tree_says :: "string list \<Rightarrow> tree \<Rightarrow> bool" where
  "tree_says path t = (case t of None \<Rightarrow> False | Some root \<Rightarrow> says path root)"

lemma leaf_unsaid: "\<not> says path node \<Longrightarrow> leaf_at path node = None"
  by (induction path node rule: says.induct) (auto split: option.splits)

lemma merge_in_lookup:
  "map_of (merge_in base key node) k =
     (if k = key then (case map_of base k of None \<Rightarrow> Some node | Some child \<Rightarrow> Some (merge child node)) else map_of base k)"
  by (induction base) auto

lemma merge_all_lookup:
  "distinct (map fst upper) \<Longrightarrow> map_of (merge_all base upper) k =
     (case map_of upper k of
        None \<Rightarrow> map_of base k
      | Some node \<Rightarrow> Some (case map_of base k of None \<Rightarrow> node | Some child \<Rightarrow> merge child node))"
proof (induction upper arbitrary: base)
  case (Cons e upper)
  obtain key node where e: "e = (key, node)" by (cases e)
  have none: "map_of upper key = None" using Cons.prems e by (simp add: map_of_eq_None_iff)
  show ?case using Cons.IH [of "merge_in base key node"] Cons.prems none e
    by (auto simp: merge_in_lookup split: option.splits)
qed simp

lemma merge_apart: "\<not> is_table base \<or> \<not> is_table upper \<Longrightarrow> merge base upper = upper"
  by (cases "(base, upper)" rule: merge.cases) auto

lemma is_tableE: "is_table node \<Longrightarrow> (\<And>es origin. node = Node (VTable es) origin \<Longrightarrow> thesis) \<Longrightarrow> thesis"
  by (cases node rule: is_table.cases) auto

lemma leaf_not_table: "\<not> is_table node \<Longrightarrow> leaf_at (key # path) node = None \<and> says (key # path) node"
  by (cases "(key # path, node)" rule: leaf_at.cases) auto

lemma leaf_merge: "wf_node upper \<Longrightarrow> leaf_at path (merge base upper) = (if says path upper then leaf_at path upper else leaf_at path base)"
proof (induction path arbitrary: base upper)
  case Nil
  show ?case by (cases "is_table base \<and> is_table upper") (auto simp: merge_apart elim!: is_tableE)
next
  case (Cons key path)
  consider "\<not> is_table upper" | "is_table upper" "\<not> is_table base" | "is_table upper" "is_table base" by blast
  then show ?case
  proof cases
    case 1
    then show ?thesis by (simp add: merge_apart leaf_not_table)
  next
    case 2
    then show ?thesis using leaf_unsaid [of "key # path" upper] by (simp add: merge_apart leaf_not_table)
  next
    case 3
    then obtain es o1 us o2 where eq: "base = Node (VTable es) o1" "upper = Node (VTable us) o2" by (auto elim!: is_tableE)
    have us: "distinct (map fst us)" "\<And>child. map_of us key = Some child \<Longrightarrow> wf_node child"
      using Cons.prems eq by (force simp: wf_entries_iff dest!: map_of_SomeD)+
    show ?thesis using Cons.IH [OF us(2)] us(1)
      by (auto simp: eq merge_all_lookup leaf_unsaid split: option.splits)
  qed
qed

lemma leaf_overlay:
  "wf_tree upper \<Longrightarrow> tree_leaf path (overlay base upper) = (if tree_says path upper then tree_leaf path upper else tree_leaf path base)"
  by (cases "(base, upper)" rule: overlay.cases) (auto simp: tree_leaf_def tree_says_def leaf_merge leaf_unsaid)

section \<open>Writing at a path\<close>

lemma key_position_Some: "key_position key es = Some at \<Longrightarrow> at < length es \<and> fst (es ! at) = key"
  by (auto simp: key_position_def split: prod.splits dest!: position_of_Some)

lemma key_position_None: "key_position key es = None \<longleftrightarrow> key \<notin> fst ` set es"
  by (auto simp: key_position_def position_of_None rev_image_eqI)

lemma wf_entries_update: "wf_entries es \<Longrightarrow> at < length es \<Longrightarrow> wf_node node \<Longrightarrow> wf_entries (es[at := (fst (es ! at), node)])"
proof -
  assume es: "wf_entries es" "at < length es" "wf_node node"
  have "map fst (es[at := (fst (es ! at), node)]) = map fst es" by (simp add: map_update list_update_same_conv es(2))
  moreover have "wf_node (snd e)" if "e \<in> set (es[at := (fst (es ! at), node)])" for e
    using that es set_update_subset_insert [of es at "(fst (es ! at), node)"] by (auto simp: wf_entries_iff)
  ultimately show ?thesis using es(1) by (simp add: wf_entries_iff)
qed

lemma wf_entries_push: "wf_entries es \<Longrightarrow> key \<notin> fst ` set es \<Longrightarrow> wf_node node \<Longrightarrow> wf_entries (es @ [(key, node)])"
  by (auto simp: wf_entries_iff)

lemma wf_set_in: "wf_node table \<Longrightarrow> wf_node node \<Longrightarrow> wf_node (set_in table segs node)"
proof (induction segs arbitrary: table)
  case (Cons seg rest)
  show ?case
  proof (cases "is_table table")
    case True
    then obtain es origin where table: "table = Node (VTable es) origin" by (auto elim: is_tableE)
    have es: "wf_entries es" using Cons.prems table by simp
    let ?fresh = "Node (VTable []) (nd_origin node)"
    have child: "wf_node (set_in (if is_table c then c else ?fresh) rest node)" if "wf_node c" for c
      using Cons.IH [of c] Cons.IH [of ?fresh] that Cons.prems(2) by simp
    show ?thesis
    proof (cases "key_position seg es")
      case None
      then have "wf_entries (es @ [(seg, c)])" if "wf_node c" for c
        using wf_entries_push [OF es _ that] by (simp add: key_position_None)
      then show ?thesis using None child [of ?fresh] Cons.prems(2) by (simp add: table)
    next
      case (Some at)
      then have at: "at < length es" "wf_node (snd (es ! at))"
        using key_position_Some es by (auto simp: wf_entries_iff)
      show ?thesis using Some wf_entries_update [OF es at(1)] child [OF at(2)] Cons.prems(2) by (simp add: table Let_def)
    qed
  next
    case False
    then show ?thesis using Cons.prems by (cases "(table, seg # rest, node)" rule: set_in.cases) auto
  qed
next
  case Nil
  then show ?case by (cases "(table, [] :: string list, node)" rule: set_in.cases) auto
qed

lemma wf_tree_set: "wf_tree t \<Longrightarrow> wf_node node \<Longrightarrow> wf_tree (tree_set segs node t)"
  by (cases t) (simp_all add: tree_set_def Let_def wf_set_in)

lemma wf_fold_set:
  assumes "\<And>e t. wf_tree t \<Longrightarrow> wf_tree (f e t)"
  shows "wf_tree t \<Longrightarrow> wf_tree (fold f es t)"
  by (induction es arbitrary: t) (simp_all add: assms)

section \<open>What the readers build\<close>

lemma wf_json:
  shows "wf_node (fst (json_node f at j ps))"
    and "wf_items (fst (json_items f at js ps'))"
    and "wf_entries es \<Longrightarrow> wf_entries (fst (json_props f at props es ps''))"
proof (induction f at j ps and f at js ps' and f at props es ps'' rule: json_node_json_items_json_props.induct)
  case (10 f at name val properties es ps)
  obtain node qs where node: "json_node f at val ps = (node, qs)" by (cases "json_node f at val ps")
  have "wf_node node" using "10.IH"(1) node by simp
  then have "wf_entries (es @ [(name, node)])" if "map_of es name = None"
    using wf_entries_push [OF "10.prems"] that by (simp add: map_of_eq_None_iff)
  then show ?case using "10.IH"(2) [OF node [symmetric]] "10.IH"(3) [OF node [symmetric]] "10.prems" node
    by (auto split: option.splits)
next
  case (2 f at start s ps)
  have "wf_node (Node val origin)" if "number_value f s = Some val" for val origin
    using that by (auto simp: number_value_def split: option.splits)
  then show ?case by (auto split: option.splits)
qed (auto split: prod.splits)

lemma wf_json_read: "json_read f parse s path = Inr t \<Longrightarrow> wf_tree t"
proof -
  assume read: "json_read f parse s path = Inr t"
  show ?thesis
  proof (cases "parse s")
    case (JsonValue document)
    obtain root ps where root: "json_node f (lines_origin (lines_new s) path) document [] = (root, ps)"
      by (cases "json_node f (lines_origin (lines_new s) path) document []")
    then have "wf_node root" using wf_json(1) [of f "lines_origin (lines_new s) path" document "[]"] by simp
    moreover have "t = Some root" using read JsonValue root by (simp add: json_read_def problems_result_def Let_def split: if_splits)
    ultimately show ?thesis by simp
  qed (use read in \<open>simp_all add: json_read_def\<close>)
qed

text \<open>A parsed TOML table is a map: it has a key once.\<close>

fun toml_map :: "toml \<Rightarrow> bool"
  and toml_maps :: "toml list \<Rightarrow> bool"
  and toml_map_entries :: "(string \<times> toml) list \<Rightarrow> bool" where
  "toml_map (TArray _ elements) = toml_maps elements"
| "toml_map (TTable _ table) = toml_map_entries table"
| "toml_map _ = True"
| "toml_maps [] = True"
| "toml_maps (e # elements) = (toml_map e \<and> toml_maps elements)"
| "toml_map_entries [] = True"
| "toml_map_entries ((key, val) # table) = (key \<notin> fst ` set table \<and> toml_map val \<and> toml_map_entries table)"

lemma toml_table_keys: "fst ` set (fst (toml_table f at table ps)) = fst ` set table"
proof (induction table arbitrary: ps)
  case (Cons e table)
  obtain key val where e: "e = (key, val)" by (cases e)
  obtain node qs where node: "toml_node f at val ps = (node, qs)" by (cases "toml_node f at val ps")
  obtain es rs where es: "toml_table f at table qs = (es, rs)" by (cases "toml_table f at table qs")
  show ?case using Cons.IH [of qs] by (simp add: e node es)
qed simp

lemma wf_toml:
  shows "toml_map j \<Longrightarrow> wf_node (fst (toml_node f at j ps))"
    and "toml_maps js \<Longrightarrow> wf_items (fst (toml_items f at js ps'))"
    and "toml_map_entries table \<Longrightarrow> wf_entries (fst (toml_table f at table ps''))"
proof (induction f at j ps and f at js ps' and f at table ps'' rule: toml_node_toml_items_toml_table.induct)
  case (11 f at key val table ps)
  obtain node qs where node: "toml_node f at val ps = (node, qs)" by (cases "toml_node f at val ps")
  obtain es rs where es: "toml_table f at table qs = (es, rs)" by (cases "toml_table f at table qs")
  have "key \<notin> fst ` set es" using "11.prems" toml_table_keys [of f at table qs] es by simp
  then show ?case using "11.IH"(1) "11.IH"(2) [OF node [symmetric]] "11.prems" node es by simp
qed (auto split: prod.splits option.splits)

definition toml_parser_maps :: "(string \<Rightarrow> nat option \<times> string + (string \<times> toml) list) \<Rightarrow> bool" where
  "toml_parser_maps parse \<longleftrightarrow> (\<forall>s table. parse s = Inr table \<longrightarrow> toml_map_entries table)"

lemma wf_toml_read: "toml_parser_maps parse \<Longrightarrow> toml_read f parse s path = Inr t \<Longrightarrow> wf_tree t"
proof -
  assume maps: "toml_parser_maps parse" and read: "toml_read f parse s path = Inr t"
  show ?thesis
  proof (cases "parse s")
    case (Inr table)
    obtain es ps where es: "toml_table f (lines_origin (lines_new s) path) table [] = (es, ps)"
      by (cases "toml_table f (lines_origin (lines_new s) path) table []")
    have "wf_entries es" using wf_toml(3) [of table f "lines_origin (lines_new s) path" "[]"] es maps Inr by (simp add: toml_parser_maps_def)
    moreover have "t = Some (Node (VTable es) (lines_origin (lines_new s) path 0))"
      using read Inr es by (simp add: toml_read_def problems_result_def Let_def split: if_splits)
    ultimately show ?thesis by simp
  qed (use read in \<open>auto simp: toml_read_def Let_def split: prod.splits\<close>)
qed

text \<open>A \<open>serde_json::Map\<close> has a key once too.\<close>

fun json_map :: "json_value \<Rightarrow> bool"
  and json_maps :: "json_value list \<Rightarrow> bool"
  and json_map_entries :: "(string \<times> json_value) list \<Rightarrow> bool" where
  "json_map (SArray items) = json_maps items"
| "json_map (SObject es) = json_map_entries es"
| "json_map _ = True"
| "json_maps [] = True"
| "json_maps (item # items) = (json_map item \<and> json_maps items)"
| "json_map_entries [] = True"
| "json_map_entries ((key, item) # es) = (key \<notin> fst ` set es \<and> json_map item \<and> json_map_entries es)"

lemma wf_default_node:
  shows "json_map j \<Longrightarrow> wf_node (default_node j)"
    and "json_maps js \<Longrightarrow> wf_items (map default_node js)"
    and "json_map_entries es \<Longrightarrow> wf_entries (map (\<lambda>(key, item). (key, default_node item)) es)"
proof (induction j and js and es rule: json_map_json_maps_json_map_entries.induct)
  case (7 key item es)
  then show ?case by (auto simp: image_iff split: prod.splits)
qed (auto split: option.splits)

text \<open>
  A YAML mapping may hold two keys that have one text, such as \<open>1\<close> and \<open>"1"\<close>: \<open>yaml_map\<close> is a document in which no mapping
  does. A key that is no scalar has no text and no entry.
\<close>

fun yaml_key_texts :: "(64 word \<Rightarrow> string) \<Rightarrow> (yaml \<times> yaml) list \<Rightarrow> string list" where
  "yaml_key_texts f [] = []"
| "yaml_key_texts f ((key, val) # pairs) =
     (case yaml_key_text f key of Some name \<Rightarrow> name # yaml_key_texts f pairs | None \<Rightarrow> yaml_key_texts f pairs)"

fun yaml_map :: "(64 word \<Rightarrow> string) \<Rightarrow> yaml \<Rightarrow> bool"
  and yaml_maps :: "(64 word \<Rightarrow> string) \<Rightarrow> yaml list \<Rightarrow> bool"
  and yaml_map_pairs :: "(64 word \<Rightarrow> string) \<Rightarrow> (yaml \<times> yaml) list \<Rightarrow> bool" where
  "yaml_map f (Yaml m (YSequence elements)) = yaml_maps f elements"
| "yaml_map f (Yaml m (YMapping pairs)) = (distinct (yaml_key_texts f pairs) \<and> yaml_map_pairs f pairs)"
| "yaml_map f (Yaml m (YTagged inner)) = yaml_map f inner"
| "yaml_map f _ = True"
| "yaml_maps f [] = True"
| "yaml_maps f (e # elements) = (yaml_map f e \<and> yaml_maps f elements)"
| "yaml_map_pairs f [] = True"
| "yaml_map_pairs f ((key, val) # pairs) = (yaml_map f val \<and> yaml_map_pairs f pairs)"

lemma yaml_entries_keys: "map fst (fst (yaml_entries f file pairs ps)) = yaml_key_texts f pairs"
  by (induction f pairs arbitrary: ps rule: yaml_key_texts.induct) (simp_all add: case_prod_beta Let_def split: option.split)

lemma wf_yaml:
  shows "yaml_map f y \<Longrightarrow> wf_node (fst (yaml_node f path y ps))"
    and "yaml_maps f ys \<Longrightarrow> wf_items (fst (yaml_items f path ys ps'))"
    and "distinct (yaml_key_texts f pairs) \<Longrightarrow> yaml_map_pairs f pairs \<Longrightarrow> wf_entries (fst (yaml_entries f path pairs ps''))"
proof (induction f path y ps and f path ys ps' and f path pairs ps'' rule: yaml_node_yaml_items_yaml_entries.induct)
  case (15 f path key val pairs ps)
  show ?case
  proof (cases "yaml_key_text f key")
    case None
    then show ?thesis using 15 by simp
  next
    case (Some name)
    obtain node qs where node: "yaml_node f path val ps = (node, qs)" by (cases "yaml_node f path val ps")
    obtain es rs where es: "yaml_entries f path pairs qs = (es, rs)" by (cases "yaml_entries f path pairs qs")
    have "fst ` set es = set (yaml_key_texts f pairs)" using yaml_entries_keys [of f path pairs qs] es by (metis fst_conv list.set_map)
    then have "name \<notin> fst ` set es" using "15.prems" Some by simp
    then show ?thesis using "15.IH"(2) [OF Some] "15.IH"(3) [OF Some node [symmetric]] "15.prems" Some node es by simp
  qed
qed (auto split: prod.splits)

text \<open>What the YAML parser loads of a text, when it is a single document, has no key text twice.\<close>

definition yaml_keyed :: "yaml_parser \<Rightarrow> string \<Rightarrow> bool" where
  "yaml_keyed yp s = (case yp_load yp s of Inr [only] \<Rightarrow> yaml_map (yp_f64_text yp) only | _ \<Rightarrow> True)"

lemma wf_yaml_read:
  assumes "yaml_keyed yp s" "yaml_read yp s file = Inr t"
  shows "wf_tree t"
proof (cases "\<exists>only. yp_load yp s = Inr [only]")
  case True
  then obtain only where only: "yp_load yp s = Inr [only]" by blast
  then have "wf_node (fst (yaml_node (yp_f64_text yp) file only []))" using assms(1) wf_yaml(1) by (simp add: yaml_keyed_def)
  moreover have "t = None \<or> t = Some (fst (yaml_node (yp_f64_text yp) file only []))"
    using assms(2) only by (auto simp: yaml_read_def Let_def split: sum.splits prod.splits config_value.splits)
  ultimately show ?thesis by auto
next
  case False
  then have "t = None" using assms(2) by (auto simp: yaml_read_def split: sum.splits prod.splits list.splits)
  then show ?thesis by simp
qed

section \<open>Loading\<close>

text \<open>
  What the sources promise: a type's defaults are written by serde with a key once per object, and a YAML file, when it
  is read, holds no two keys of one text in a mapping. Every other source is free.
\<close>

fun keyed_source :: "world \<Rightarrow> source \<Rightarrow> bool" where
  "keyed_source wd (TypeDefaults (Inr val) _) = json_map val"
| "keyed_source wd (File path KindYaml _) = (case wd_read wd path of FileText _ s \<Rightarrow> yaml_keyed (wd_yaml wd) s | _ \<Rightarrow> True)"
| "keyed_source wd _ = True"

lemma wf_read_text: "read_text wd path opt = Inl l \<Longrightarrow> wf_tree (ly_tree l)"
  by (auto simp: read_text_def layer_of_def layer_failed_def failed_with_def split: file_read.splits if_splits)

lemma wf_format_read:
  assumes "toml_parser_maps (wd_toml wd)" "kind = KindYaml \<Longrightarrow> yaml_keyed (wd_yaml wd) s" "format_read wd kind s path = Inr t"
  shows "wf_tree t"
  using assms by (cases kind) (auto simp: format_read_def intro: wf_json_read wf_toml_read wf_yaml_read)

lemma wf_type_defaults: "keyed_source wd (TypeDefaults val path) \<Longrightarrow> wf_tree (ly_tree (type_defaults_read val path))"
  using wf_tree_set [of None "default_node (projr val)" path]
  by (cases val) (simp_all add: type_defaults_read_def layer_of_def layer_failed_def failed_with_def wf_default_node)

lemma wf_file_layer:
  assumes "toml_parser_maps (wd_toml wd)" "keyed_source wd (File path kind opt)"
  shows "wf_tree (ly_tree (file_layer wd path kind opt))"
proof (cases "read_text wd path opt")
  case (Inl l)
  then show ?thesis using wf_read_text by (simp add: file_layer_def)
next
  case (Inr s)
  then have "kind = KindYaml \<Longrightarrow> yaml_keyed (wd_yaml wd) s" using assms(2) by (auto simp: read_text_def split: file_read.splits)
  then show ?thesis using wf_format_read [OF assms(1), of kind s path] Inr
    by (cases "format_read wd kind s path") (simp_all add: file_layer_def layer_of_def failed_with_def)
qed

lemma wf_dotenv_layer: "wf_tree (ly_tree (dotenv_layer wd path opt prefix separator))"
proof -
  have "wf_tree (fold (\<lambda>e t. case segments (en_key e) prefix separator of
      None \<Rightarrow> t
    | Some segs \<Rightarrow> tree_set segs (Node (VText (en_value e)) (OriginFile path (en_line e) 0)) t) es None)" for es
    by (rule wf_fold_set) (auto simp: wf_tree_set split: option.split)
  then show ?thesis
    by (cases "read_text wd path opt"; cases "env_parse (projr (read_text wd path opt)) path")
      (auto simp: dotenv_layer_def layer_of_def failed_with_def dest: wf_read_text)
qed

lemma wf_env_layer: "wf_tree (ly_tree (env_layer wd vars prefix separator))"
  by (auto simp: env_layer_def layer_of_def wf_tree_set split: option.split intro!: wf_fold_set)

lemma wf_values_layer: "wf_tree (ly_tree (values_layer es))"
proof -
  have "wf_node (Node (scalar_value scalar) origin)" for scalar origin by (cases scalar) auto
  then show ?thesis by (auto simp: values_layer_def layer_of_def wf_tree_set intro!: wf_fold_set)
qed

lemma wf_source: "toml_parser_maps (wd_toml wd) \<Longrightarrow> keyed_source wd src \<Longrightarrow> wf_tree (ly_tree (source_read wd src))"
  by (cases src) (simp_all add: wf_type_defaults wf_file_layer wf_dotenv_layer wf_env_layer wf_values_layer)

lemma load_snoc: "load wd (sources @ [src]) = load_layer (source_read wd src) (load wd sources)"
  by (simp add: load_def)

text \<open>
  C37. Loading keeps the tree well formed: no table of the loaded tree has a key twice, so the read of a path has one
  answer. It holds whatever the JSON, TOML and \<open>.env\<close> files, the environment and the values set in code are, TOML's
  tables and serde's objects being maps, under one condition: no mapping of a YAML file that is read has two keys of one
  text, such as \<open>1\<close> and \<open>"1"\<close>.
\<close>

theorem load_well_formed:
  assumes "toml_parser_maps (wd_toml wd)" "\<forall>src \<in> set sources. keyed_source wd src"
  shows "wf_tree (ld_tree (load wd sources))"
  using assms(2)
proof (induction sources rule: rev_induct)
  case (snoc src sources)
  then show ?case using wf_source [OF assms(1)] wf_overlay by (simp add: load_snoc load_layer_def)
qed (simp add: load_def)

text \<open>
  C35. The last source to say anything about a path decides it. After loading, the leaf at a path of names, with its
  origin, is the one of the last source that has a node there or a leaf on the way, and there is none when no source
  has: a table of a later source keeps what it does not mention, a leaf replaces a table and a table a leaf. As for the
  well-formed tree, no mapping of a YAML file that is read may have two keys of one text.
\<close>

theorem load_last_wins:
  assumes "toml_parser_maps (wd_toml wd)" "\<forall>src \<in> set sources. keyed_source wd src"
  shows "tree_leaf path (ld_tree (load wd sources)) =
    (case find (\<lambda>src. tree_says path (ly_tree (source_read wd src))) (rev sources) of
       None \<Rightarrow> None
     | Some src \<Rightarrow> tree_leaf path (ly_tree (source_read wd src)))"
  using assms(2)
proof (induction sources rule: rev_induct)
  case (snoc src sources)
  then show ?case using wf_source [OF assms(1), of src] by (simp add: load_snoc load_layer_def leaf_overlay)
qed (simp add: load_def tree_leaf_def)

section \<open>Three sources\<close>

text \<open>A world with a TOML file, a YAML file, whose parsers know one text each, and one variable.\<close>

definition small_world :: world where
  "small_world =
     \<lparr>wd_read = (\<lambda>path. if path = ''app.toml'' then FileText False ''x'' else if path = ''app.yaml'' then FileText False ''y'' else FileMissing),
      wd_vars = [(Some ''APP_HTTP__PORT'', Some ''9000'')],
      wd_f64 = (\<lambda>_. None),
      wd_json = (\<lambda>_. JsonEmpty),
      wd_toml = (\<lambda>_. Inr [(''http'', TTable 0 [(''host'', TString 0 ''a''), (''port'', TInteger 0 ''8080'' 10)])]),
      wd_yaml = \<lparr>yp_events = (\<lambda>_. ([], None)), yp_load = (\<lambda>_. Inr [Yaml (1, 0) (YMapping [(Yaml (1, 0) (YString ''http''),
        Yaml (1, 6) (YMapping [(Yaml (1, 7) (YString ''port''), Yaml (1, 13) (YInteger 81))]))])]), yp_f64_text = (\<lambda>_. [])\<rparr>\<rparr>"

definition small_sources :: "source list" where
  "small_sources = [File ''app.toml'' KindToml False, File ''app.yaml'' KindYaml False, Env None (Some ''APP_'') ''__'']"

lemma small_world_maps: "toml_parser_maps (wd_toml small_world)"
  by (auto simp: toml_parser_maps_def small_world_def)

lemma small_sources_keyed: "\<forall>src \<in> set small_sources. keyed_source small_world src"
  by code_simp

theorem load_well_formed_witness: "wf_tree (ld_tree (load small_world small_sources))"
  by (rule load_well_formed [OF small_world_maps small_sources_keyed])

lemma small_leaves:
  "find (\<lambda>src. tree_says [''http'', ''port''] (ly_tree (source_read small_world src))) (rev small_sources) = Some (small_sources ! 2)"
  "tree_leaf [''http'', ''port''] (ly_tree (source_read small_world (small_sources ! 2))) = Some (Node (VText ''9000'') (OriginVariable ''APP_HTTP__PORT''))"
  by code_simp+

theorem load_last_wins_witness:
  "tree_leaf [''http'', ''port''] (ld_tree (load small_world small_sources)) = Some (Node (VText ''9000'') (OriginVariable ''APP_HTTP__PORT''))"
  using load_last_wins [OF small_world_maps small_sources_keyed, of "[''http'', ''port'']"] by (simp only: small_leaves option.case)

text \<open>
  A YAML mapping may hold the keys \<open>1\<close> and \<open>"1"\<close>, whose texts are the same; the reader keeps both entries and reports
  nothing, where the JSON reader reports a key written twice.
\<close>

lemma yaml_key_twice:
  "yaml_node f64_text path (Yaml (1, 0) (YMapping [(Yaml (1, 0) (YInteger 1), Yaml (1, 3) (YBool True)), (Yaml (2, 0) (YString ''1''), Yaml (2, 5) YNull)])) [] =
     (Node (VTable [(''1'', Node (VBool True) (OriginFile path 1 4)), (''1'', Node VNull (OriginFile path 2 6))]) (OriginFile path 1 1), [])"
proof -
  have "int_text 1 = ''1''" by code_simp
  then show ?thesis by (simp add: origin_at_def to_u32_def)
qed

end
