(* ===== verification/Tree_Laws.thy ===== *)
theory Tree_Laws
  imports Config_Laws
begin

text \<open>
  The path a leaf is listed under reads back to that leaf, through the text of the path: names joined by dots, array
  indexes written in decimal and parsed again.
\<close>

section \<open>Indexes as text\<close>










section \<open>Segments\<close>




lemma segment_empty [simp]: "segment_walk [] node = Some node"
  by (simp add: segment_walk_def)

section \<open>Paths\<close>






section \<open>Leaves\<close>








text \<open>
  A key that holds a dot is listed under the same path as a nested one: once the nested leaf is read, the other counts as
  read too.
\<close>

definition dotted_tree :: tree where
  "dotted_tree = Some (Node (VTable [(''a.b'', Node (VInteger 1) OriginDefault),
     (''a'', Node (VTable [(''b'', Node (VInteger 2) OriginDefault)]) OriginDefault)]) OriginDefault)"

lemma dotted_key_conflated:
  "map fst (leaves dotted_tree) = [''a.b'', ''a.b'']"
  "unread (mark_consumed {''a.b''} \<lparr>ld_tree = dotted_tree, ld_failures = [], ld_defaults = False, ld_consumed = {}\<rparr>) = []"
  by code_simp+

end
