(* ===== verification/Dotenv_Laws.thy ===== *)
theory Dotenv_Laws
  imports Dotenv
begin

text \<open>
  Laws of the \<open>.env\<close> reader: a file written one quoted value per line reads back to its entries, and what the reader
  accepts is well formed.
\<close>

section \<open>Characters of a key\<close>

lemma valid_key_char:
  assumes "valid_key key" "c \<in> set key"
  shows "\<not> is_whitespace c \<and> c \<notin> {CHR ''='', CHR ''#'', CHR 0x0A, CHR 0x09, CHR '' ''}"
proof -
  have "is_ascii_alnum c \<or> c \<in> {CHR ''_'', CHR ''.'', CHR ''-''}" using assms by (auto simp: valid_key_def list_all_iff)
  then show ?thesis by (auto simp: is_ascii_alnum_def is_whitespace_def Let_def)
qed

lemma position_after: "\<forall>x \<in> set xs. \<not> p x \<Longrightarrow> p y \<Longrightarrow> position_of p (xs @ y # ys) = Some (length xs)"
  by (induction xs) auto

lemma trim_start_id: "\<not> is_whitespace c \<Longrightarrow> trim_start (c # cs) = c # cs"
  by (simp add: trim_start_def)

lemma trim_end_id: "\<forall>c \<in> set s. \<not> is_whitespace c \<Longrightarrow> trim_end_space s = s"
  by (cases "rev s") (auto simp: trim_end_space_def)

lemma quote_visible [simp]: "\<not> is_whitespace (CHR 0x22)"
  by (simp add: is_whitespace_def)

section \<open>One line\<close>

lemma quoted_escape: "quoted_body acc (concat (map escape_char val) @ [CHR 0x22]) = Inr (acc @ val)"
  by (induction val arbitrary: acc) (auto simp: after_quote_def trim_start_def)

lemma parse_value_written: "parse_value (CHR 0x22 # concat (map escape_char val) @ [CHR 0x22]) = Inr val"
  by (simp add: parse_value_def trim_start_id strip_prefix_def quoted_escape)

lemma split_before: "key @ c # cs = p @ rest \<Longrightarrow> c \<notin> set p \<Longrightarrow> \<exists>ks. key = p @ ks \<and> rest = ks @ c # cs"
  by (induction p arbitrary: key) (auto simp: append_eq_Cons_conv)

lemma export_kept:
  assumes "valid_key key" "strip_prefix ''export'' (key @ CHR ''='' # cs) = Some rest"
  shows "rest \<noteq> [] \<and> hd rest \<noteq> CHR '' '' \<and> hd rest \<noteq> CHR 0x09"
proof -
  have "key @ CHR ''='' # cs = ''export'' @ rest" using assms(2) by (simp add: strip_prefix_Some)
  from split_before [OF this] obtain ks where ks: "key = ''export'' @ ks" "rest = ks @ CHR ''='' # cs" by auto
  show ?thesis
  proof (cases ks)
    case (Cons k ks')
    then show ?thesis using valid_key_char [OF assms(1), of k] ks by simp
  qed (simp add: ks)
qed

definition env_entry_at :: "nat \<times> string \<times> string \<Rightarrow> env_entry" where
  "env_entry_at = (\<lambda>(index, key, val). \<lparr>en_key = key, en_value = val, en_line = to_u32 (index + 1)\<rparr>)"

lemma env_line_written:
  assumes "valid_key key" "es_seen st key = None"
  shows "env_line file (index, write_line (key, val)) st =
    st\<lparr>es_seen := (es_seen st)(key \<mapsto> to_u32 (index + 1)), es_entries := es_entries st @ [env_entry_at (index, key, val)]\<rparr>"
proof -
  let ?tail = "CHR 0x22 # concat (map escape_char val) @ [CHR 0x22]"
  have raw: "write_line (key, val) = key @ CHR ''='' # ?tail" by (simp add: write_line_def)
  obtain k ks where k: "key = k # ks" using assms(1) by (cases key) (auto simp: valid_key_def)
  have first: "trim_start (key @ CHR ''='' # ?tail) = key @ CHR ''='' # ?tail" "take 1 (key @ CHR ''='' # ?tail) \<noteq> ''#''"
    using valid_key_char [OF assms(1), of k] k by (simp_all add: trim_start_id)
  have split: "split_equals (key @ CHR ''='' # ?tail) = Some (key, ?tail)"
    using valid_key_char [OF assms(1)] position_after [of key "\<lambda>c. c = CHR ''=''" "CHR ''=''" ?tail] by (auto simp: split_equals_def)
  have exported: "(case strip_prefix ''export'' (key @ CHR ''='' # ?tail) of
      Some rest \<Rightarrow> (if rest \<noteq> [] \<and> (hd rest = CHR '' '' \<or> hd rest = CHR 0x09) then trim_start rest else key @ CHR ''='' # ?tail)
    | None \<Rightarrow> key @ CHR ''='' # ?tail) = key @ CHR ''='' # ?tail"
    using export_kept [OF assms(1), of ?tail] by (auto split: option.splits)
  show ?thesis
    unfolding env_line_def raw prod.case Let_def first(1) exported split option.case prod.case
    using first(2) trim_end_id [of key] valid_key_char [OF assms(1)] assms parse_value_written [of val]
    by (simp add: env_entry_at_def)
qed

section \<open>The whole file\<close>

lemma write_line_plain:
  assumes "valid_key (fst kv)"
  shows "CHR 0x0A \<notin> set (write_line kv) \<and> strip_return (write_line kv) = write_line kv"
proof -
  obtain key val where kv: "kv = (key, val)" by (cases kv)
  have "CHR 0x0A \<notin> set (concat (map escape_char val))" by (induction val) auto
  moreover have "CHR 0x0A \<notin> set key" using valid_key_char [OF assms, of "CHR 0x0A"] kv by auto
  ultimately show ?thesis
    by (simp add: kv write_line_def strip_return_def strip_suffix_def strip_prefix_def del: escape_char.simps set_concat)
qed

lemma text_lines_cons: "CHR 0x0A \<notin> set l \<Longrightarrow> strip_return l = l \<Longrightarrow> text_lines (l @ CHR 0x0A # s) = l # text_lines s"
  by (simp add: text_lines_def split_on_append Let_def)

lemma text_lines_written: "\<forall>kv \<in> set kvs. valid_key (fst kv) \<Longrightarrow> text_lines (write_env kvs) = map write_line kvs"
proof (induction kvs)
  case Nil
  then show ?case by (simp add: write_env_def text_lines_def)
next
  case (Cons kv kvs)
  then show ?case using text_lines_cons [of "write_line kv" "write_env kvs"] write_line_plain [of kv] by (simp add: write_env_def)
qed

lemma env_lines_written:
  assumes "\<forall>kv \<in> set kvs. valid_key (fst kv)" "distinct (map fst kvs)" "\<forall>kv \<in> set kvs. es_seen st (fst kv) = None"
  shows "\<exists>seen. fold (env_line file) (List.enumerate n (map write_line kvs)) st =
    st\<lparr>es_seen := seen, es_entries := es_entries st @ map env_entry_at (List.enumerate n kvs)\<rparr>"
  using assms
proof (induction kvs arbitrary: n st)
  case Nil
  show ?case by (rule exI [of _ "es_seen st"]) simp
next
  case (Cons kv kvs)
  obtain key val where kv: "kv = (key, val)" by (cases kv)
  let ?st = "st\<lparr>es_seen := (es_seen st)(key \<mapsto> to_u32 (n + 1)), es_entries := es_entries st @ [env_entry_at (n, key, val)]\<rparr>"
  have first: "env_line file (n, write_line kv) st = ?st" using env_line_written [where key = key and st = st and index = n and val = val] Cons.prems kv by simp
  have "\<forall>kv \<in> set kvs. es_seen ?st (fst kv) = None" using Cons.prems kv by auto
  then show ?case using Cons.IH [of ?st "Suc n"] Cons.prems first kv by simp
qed

text \<open>
  C38. A \<open>.env\<close> file written one double-quoted value per line, newlines, quotes and backslashes escaped, reads back to
  exactly its keys and values in order, each with its line, whatever characters a value holds.
\<close>

theorem env_parse_written:
  assumes "\<forall>kv \<in> set kvs. valid_key (fst kv)" "distinct (map fst kvs)" "length kvs < 2 ^ 32"
  shows "env_parse (write_env kvs) file =
    Inr (map (\<lambda>(index, key, val). \<lparr>en_key = key, en_value = val, en_line = index + 1\<rparr>) (List.enumerate 0 kvs))"
proof -
  let ?st = "\<lparr>es_entries = [], es_seen = Map.empty, es_problems = []\<rparr>"
  obtain seen where run: "fold (env_line file) (List.enumerate 0 (map write_line kvs)) ?st =
      ?st\<lparr>es_seen := seen, es_entries := map env_entry_at (List.enumerate 0 kvs)\<rparr>"
    using env_lines_written [OF assms(1,2), where st = ?st and n = 0] by auto
  have "map env_entry_at (List.enumerate 0 kvs) =
      map (\<lambda>(index, key, val). \<lparr>en_key = key, en_value = val, en_line = index + 1\<rparr>) (List.enumerate 0 kvs)"
    using assms(3) by (auto simp: env_entry_at_def to_u32_def in_set_enumerate_eq min_def)
  then show ?thesis using run by (simp add: env_parse_def text_lines_written [OF assms(1)] problems_result_def)
qed

theorem env_parse_written_witness:
  "env_parse (write_env [(''export'', ''a'' @ [CHR 0x0A, CHR 0x22, CHR 0x5C] @ '' #''), (''B.c-1'', [])]) ''.env'' =
     Inr [\<lparr>en_key = ''export'', en_value = ''a'' @ [CHR 0x0A, CHR 0x22, CHR 0x5C] @ '' #'', en_line = 1\<rparr>,
          \<lparr>en_key = ''B.c-1'', en_value = [], en_line = 2\<rparr>]"
  using env_parse_written [of "[(''export'', ''a'' @ [CHR 0x0A, CHR 0x22, CHR 0x5C] @ '' #''), (''B.c-1'', [])]" "''.env''"]
  by (simp add: valid_key_def is_ascii_alnum_def)

end
