(* ===== verification/Rpc_Codec.thy ===== *)
theory Rpc_Codec
  imports Serde_Values Ulo_Prelude
begin

text \<open>
  The frames of an RPC link and their codecs: \<open>ulo-rpc/src/frame.rs\<close>, \<open>ulo-rpc/src/codec.rs\<close>, the error details of
  \<open>ulo-transport/src/details.rs\<close> and the kinds of \<open>ulo-transport/src/error.rs\<close>. What \<open>serde_json\<close> and \<open>ciborium\<close> do is a
  parameter: parsing and writing a payload, writing a map of named members, and reading one. A member read is a value
  of the library's, which its reader asks for as plain data or as a payload. Payload bytes are a string, a \<open>u64\<close> is
  a word. A frame that is an array in place of a map is not modelled.
\<close>

section \<open>Errors and details\<close>

datatype error_kind =
    BadRequest | Unauthorized | Forbidden | NotFound | Conflict | Unprocessable | TooManyRequests | Timeout | Unavailable
  | Unimplemented | Internal

fun kind_str :: "error_kind \<Rightarrow> string" where
  "kind_str BadRequest = ''bad_request''"
| "kind_str Unauthorized = ''unauthorized''"
| "kind_str Forbidden = ''forbidden''"
| "kind_str NotFound = ''not_found''"
| "kind_str Conflict = ''conflict''"
| "kind_str Unprocessable = ''unprocessable''"
| "kind_str TooManyRequests = ''too_many_requests''"
| "kind_str Timeout = ''timeout''"
| "kind_str Unavailable = ''unavailable''"
| "kind_str Unimplemented = ''unimplemented''"
| "kind_str Internal = ''internal''"

definition kind_from_wire :: "string \<Rightarrow> error_kind" where
  "kind_from_wire kind =
     (if kind = ''bad_request'' then BadRequest
      else if kind = ''unauthorized'' then Unauthorized
      else if kind = ''forbidden'' then Forbidden
      else if kind = ''not_found'' then NotFound
      else if kind = ''conflict'' then Conflict
      else if kind = ''unprocessable'' then Unprocessable
      else if kind = ''too_many_requests'' then TooManyRequests
      else if kind = ''timeout'' then Timeout
      else if kind = ''unavailable'' then Unavailable
      else if kind = ''unimplemented'' then Unimplemented
      else Internal)"

text \<open>A field violation is its field and description, a link its description and URL, a duration seconds and nanoseconds.\<close>

datatype detail =
    FieldViolations "(string \<times> string) list"
  | ErrorInfo string string "(string \<times> string) list"
  | RetryAfter "64 word" nat
  | Help "(string \<times> string) list"
  | DetailJson json_value

type_synonym details = "detail list"

record error_body =
  eb_kind :: error_kind
  eb_message :: string
  eb_details :: details

definition whole_seconds :: "64 word \<Rightarrow> nat \<Rightarrow> 64 word" where
  "whole_seconds secs nanos = (if 0 < nanos then (if secs = - 1 then - 1 else secs + 1) else secs)"

definition retry_after :: "details \<Rightarrow> (64 word \<times> nat) option" where
  "retry_after ds = find_map (\<lambda>d. case d of RetryAfter secs nanos \<Rightarrow> Some (secs, nanos) | _ \<Rightarrow> None) ds"

section \<open>Frames\<close>

type_synonym call_headers = "(string \<times> string) list"

definition header_get :: "string \<Rightarrow> call_headers \<Rightarrow> string option" where
  "header_get name hs = map_of hs name"

definition header_insert :: "string \<Rightarrow> string \<Rightarrow> call_headers \<Rightarrow> call_headers" where
  "header_insert name val hs = hs @ [(name, val)]"

datatype frame =
    FReq "64 word" string call_headers string
  | FEvt string call_headers string
  | FRes "64 word" string
  | FErr "64 word" error_body
  | FItem "64 word" string
  | FEnd "64 word"
  | FOpen "64 word" string call_headers
  | FIn "64 word" string
  | FInEnd "64 word"
  | FCancel "64 word"
  | FCredit "64 word" "64 word"
  | FGoaway

fun frame_kind :: "frame \<Rightarrow> string" where
  "frame_kind (FReq _ _ _ _) = ''req''"
| "frame_kind (FEvt _ _ _) = ''evt''"
| "frame_kind (FRes _ _) = ''res''"
| "frame_kind (FErr _ _) = ''err''"
| "frame_kind (FItem _ _) = ''item''"
| "frame_kind (FEnd _) = [CHR ''e'', CHR ''n'', CHR ''d'']"
| "frame_kind (FOpen _ _ _) = ''open''"
| "frame_kind (FIn _ _) = ''in''"
| "frame_kind (FInEnd _) = ''in_end''"
| "frame_kind (FCancel _) = ''cancel''"
| "frame_kind (FCredit _ _) = ''credit''"
| "frame_kind FGoaway = ''goaway''"

fun frame_id :: "frame \<Rightarrow> 64 word option" where
  "frame_id (FReq ident _ _ _) = Some ident"
| "frame_id (FRes ident _) = Some ident"
| "frame_id (FErr ident _) = Some ident"
| "frame_id (FItem ident _) = Some ident"
| "frame_id (FEnd ident) = Some ident"
| "frame_id (FOpen ident _ _) = Some ident"
| "frame_id (FIn ident _) = Some ident"
| "frame_id (FInEnd ident) = Some ident"
| "frame_id (FCancel ident) = Some ident"
| "frame_id (FCredit ident _) = Some ident"
| "frame_id _ = None"

fun frame_data :: "frame \<Rightarrow> string option" where
  "frame_data (FReq _ _ _ data) = Some data"
| "frame_data (FEvt _ _ data) = Some data"
| "frame_data (FRes _ data) = Some data"
| "frame_data (FItem _ data) = Some data"
| "frame_data (FIn _ data) = Some data"
| "frame_data _ = None"

section \<open>What a codec writes and reads\<close>

text \<open>
  An item a \<open>Serialize\<close> implementation writes: a map has the length declared before its members, which CBOR writes down and
  JSON does not. A member of a frame is an item or the payload, in the codec's own type.
\<close>

datatype codec = CodecJson | CodecCbor

datatype item =
    IText string
  | IUint "64 word"
  | ISeq "item list"
  | IMap nat "(string \<times> item) list"
  | IJson json_value

datatype 'd member = Plain item | Payload 'd

type_synonym 'd members = "(string \<times> 'd member) list"

text \<open>Every map declares the number of members it writes.\<close>

fun lengths_hold :: "item \<Rightarrow> bool" where
  "lengths_hold (ISeq items) = list_all lengths_hold items"
| "lengths_hold (IMap len es) = (len = length es \<and> list_all (\<lambda>(_, it). lengths_hold it) es)"
| "lengths_hold _ = True"

fun member_holds :: "'d member \<Rightarrow> bool" where
  "member_holds (Plain it) = lengths_hold it"
| "member_holds (Payload _) = True"

text \<open>
  The libraries. \<open>cd_item\<close> parses payload bytes into the codec's item type, \<open>cd_bytes\<close> writes one back and \<open>cd_null\<close> tells
  an item read as an absent \<open>Option\<close>. \<open>cd_print\<close> writes a frame's members after the length declared, \<open>cd_parse\<close> reads the
  members of a map, and a member read answers whether it is an absent \<open>Option\<close>, as plain data and as a payload.
  \<open>cd_json\<close> is a JSON value as it is read back, since a decimal may lose precision, \<open>cd_float\<close> an integer as a float, and
  \<open>cd_within\<close> whether what is written stays within the nesting the reader takes.
\<close>

record ('b, 'v, 'd) codec_ops =
  cd_item :: "codec \<Rightarrow> string \<Rightarrow> string + 'd"
  cd_bytes :: "codec \<Rightarrow> 'd \<Rightarrow> string + string"
  cd_null :: "codec \<Rightarrow> 'd \<Rightarrow> bool"
  cd_print :: "codec \<Rightarrow> nat \<Rightarrow> 'd members \<Rightarrow> 'b"
  cd_parse :: "codec \<Rightarrow> 'b \<Rightarrow> string + (string \<times> 'v) list"
  cd_none :: "codec \<Rightarrow> 'v \<Rightarrow> bool"
  cd_value :: "codec \<Rightarrow> 'v \<Rightarrow> json_value"
  cd_raw :: "codec \<Rightarrow> 'v \<Rightarrow> string + 'd"
  cd_json :: "codec \<Rightarrow> json_value \<Rightarrow> json_value"
  cd_float :: "64 word \<Rightarrow> 64 word"
  cd_within :: "codec \<Rightarrow> 'd members \<Rightarrow> bool"

text \<open>
  An item as a self-describing format gives it to a reader: neither the length declared nor the type it was written
  from is left, and a map is its entries in the order written, a name repeated as often as it was written.
\<close>

fun seen_as :: "(json_value \<Rightarrow> json_value) \<Rightarrow> (64 word \<Rightarrow> 64 word) \<Rightarrow> item \<Rightarrow> json_value" where
  "seen_as json float (IText s) = SString s"
| "seen_as json float (IUint n) =
     SNumber (if unat n < 2 ^ 63 then Some (int (unat n)) else None) (Some (unat n)) (Some (float n))"
| "seen_as json float (ISeq items) = SArray (map (seen_as json float) items)"
| "seen_as json float (IMap _ es) = SObject (map (\<lambda>(k, it). (k, seen_as json float it)) es)"
| "seen_as json float (IJson val) = json val"

abbreviation seen :: "('b, 'v, 'd) codec_ops \<Rightarrow> codec \<Rightarrow> item \<Rightarrow> json_value" where
  "seen ops c \<equiv> seen_as (cd_json ops c) (cd_float ops)"

text \<open>
  A payload whose own bytes parse back to it is read out of a map as that payload: \<open>RawValue\<close> keeps its text, and an item
  of CBOR is written the same inside a map and alone.
\<close>

fun carries :: "('b, 'v, 'd) codec_ops \<Rightarrow> codec \<Rightarrow> 'd member \<Rightarrow> 'v \<Rightarrow> bool" where
  "carries ops c (Plain it) v \<longleftrightarrow> cd_value ops c v = seen ops c it \<and> (cd_none ops c v \<longleftrightarrow> seen ops c it = SNull)"
| "carries ops c (Payload d) v \<longleftrightarrow>
     (\<forall>bytes. cd_bytes ops c d = Inr bytes \<and> cd_item ops c bytes = Inr d \<longrightarrow> cd_raw ops c v = Inr d) \<and>
     (cd_none ops c v \<longleftrightarrow> cd_null ops c d)"

text \<open>A map written with the lengths it declares is read as its members, in order. Nothing is said of a length that is wrong.\<close>

definition codec_laws :: "('b, 'v, 'd) codec_ops \<Rightarrow> bool" where
  "codec_laws ops \<longleftrightarrow>
     (\<forall>c ms. list_all (\<lambda>(_, m). member_holds m) ms \<and> cd_within ops c ms \<longrightarrow>
        (\<exists>vs. cd_parse ops c (cd_print ops c (length ms) ms) = Inr vs \<and>
           list_all2 (\<lambda>(k, m) (k', v). k' = k \<and> carries ops c m v) ms vs))"

section \<open>Writing a frame\<close>

definition pair_item :: "string \<Rightarrow> string \<Rightarrow> string \<times> string \<Rightarrow> item" where
  "pair_item a b = (\<lambda>(x, y). IMap 2 [(a, IText x), (b, IText y)])"

definition text_map :: "(string \<times> string) list \<Rightarrow> item" where
  "text_map es = IMap (length es) (map (\<lambda>(k, v). (k, IText v)) es)"

fun detail_item :: "detail \<Rightarrow> item" where
  "detail_item (FieldViolations vs) =
     IMap 2 [(''type'', IText ''field_violations''), (''violations'', ISeq (map (pair_item ''field'' ''description'') vs))]"
| "detail_item (ErrorInfo reason domain metadata) =
     IMap 4 [(''type'', IText ''error_info''), (''reason'', IText reason), (''domain'', IText domain), (''metadata'', text_map metadata)]"
| "detail_item (RetryAfter secs nanos) = IMap 2 [(''type'', IText ''retry_after''), (''seconds'', IUint (whole_seconds secs nanos))]"
| "detail_item (Help links) = IMap 2 [(''type'', IText ''help''), (''links'', ISeq (map (pair_item ''description'' ''url'') links))]"
| "detail_item (DetailJson val) = IMap 2 [(''type'', IText ''json''), (''value'', IJson val)]"

definition error_item :: "error_body \<Rightarrow> item" where
  "error_item e =
     IMap 3 [(''kind'', IText (kind_str (eb_kind e))), (''message'', IText (eb_message e)), (''details'', ISeq (map detail_item (eb_details e)))]"

definition wire_len :: "frame \<Rightarrow> bool \<Rightarrow> nat" where
  "wire_len frame has_d =
     (let d = (if has_d then 1 else 0)
      in 1 + (case frame of
                FReq _ _ _ _ \<Rightarrow> 3 + d
              | FOpen _ _ _ \<Rightarrow> 3 + d
              | FEvt _ _ _ \<Rightarrow> 2 + d
              | FRes _ _ \<Rightarrow> 1 + d
              | FItem _ _ \<Rightarrow> 1 + d
              | FIn _ _ \<Rightarrow> 1 + d
              | FErr _ _ \<Rightarrow> 2
              | FCredit _ _ \<Rightarrow> 2
              | FEnd _ \<Rightarrow> 1
              | FInEnd _ \<Rightarrow> 1
              | FCancel _ \<Rightarrow> 1
              | FGoaway \<Rightarrow> 0))"

fun frame_members :: "frame \<Rightarrow> 'd members" where
  "frame_members (FReq ident pattern headers _) =
     [(''id'', Plain (IUint ident)), (''p'', Plain (IText pattern)), (''h'', Plain (text_map headers))]"
| "frame_members (FEvt pattern headers _) = [(''p'', Plain (IText pattern)), (''h'', Plain (text_map headers))]"
| "frame_members (FOpen ident pattern headers) =
     [(''id'', Plain (IUint ident)), (''p'', Plain (IText pattern)), (''h'', Plain (text_map headers))]"
| "frame_members (FRes ident _) = [(''id'', Plain (IUint ident))]"
| "frame_members (FItem ident _) = [(''id'', Plain (IUint ident))]"
| "frame_members (FIn ident _) = [(''id'', Plain (IUint ident))]"
| "frame_members (FErr ident e) = [(''id'', Plain (IUint ident)), (''e'', Plain (error_item e))]"
| "frame_members (FCredit ident n) = [(''id'', Plain (IUint ident)), (''n'', Plain (IUint n))]"
| "frame_members (FEnd ident) = [(''id'', Plain (IUint ident))]"
| "frame_members (FInEnd ident) = [(''id'', Plain (IUint ident))]"
| "frame_members (FCancel ident) = [(''id'', Plain (IUint ident))]"
| "frame_members FGoaway = []"

definition wire_members :: "frame \<Rightarrow> 'd option \<Rightarrow> 'd members" where
  "wire_members frame d =
     (''t'', Plain (IText (frame_kind frame))) # frame_members frame @ (case d of Some d \<Rightarrow> [(''d'', Payload d)] | None \<Rightarrow> [])"

definition encode_frame :: "('b, 'v, 'd) codec_ops \<Rightarrow> codec \<Rightarrow> frame \<Rightarrow> string + 'b" where
  "encode_frame ops c frame =
     (case (case frame_data frame of
              Some data \<Rightarrow> if data \<noteq> [] then map_sum id Some (cd_item ops c data) else Inr None
            | None \<Rightarrow> Inr None) of
        Inl e \<Rightarrow> Inl e
      | Inr d \<Rightarrow> Inr (cd_print ops c (wire_len frame (d \<noteq> None)) (wire_members frame d)))"

section \<open>Reading a frame\<close>

text \<open>What is read as a \<open>serde_json::Value\<close>, whose objects are ordered by key, and the accessors of one.\<close>

fun json_of :: "json_value \<Rightarrow> json_value" where
  "json_of (SArray items) = SArray (map json_of items)"
| "json_of (SObject es) = SObject (btree_of (map (\<lambda>(k, v). (k, json_of v)) es))"
| "json_of val = val"

fun json_get :: "string \<Rightarrow> json_value \<Rightarrow> json_value option" where
  "json_get key (SObject es) = map_of es key"
| "json_get key _ = None"

fun as_str :: "json_value \<Rightarrow> string option" where
  "as_str (SString s) = Some s"
| "as_str _ = None"

fun as_array :: "json_value \<Rightarrow> json_value list option" where
  "as_array (SArray items) = Some items"
| "as_array _ = None"

fun as_object :: "json_value \<Rightarrow> (string \<times> json_value) list option" where
  "as_object (SObject es) = Some es"
| "as_object _ = None"

fun as_u64 :: "json_value \<Rightarrow> nat option" where
  "as_u64 (SNumber _ u _) = u"
| "as_u64 _ = None"

definition text_under :: "string \<Rightarrow> json_value \<Rightarrow> string" where
  "text_under key val = (case Option.bind (json_get key val) as_str of Some s \<Rightarrow> s | None \<Rightarrow> [])"

definition list_under :: "string \<Rightarrow> json_value \<Rightarrow> json_value list" where
  "list_under key val = (case Option.bind (json_get key val) as_array of Some items \<Rightarrow> items | None \<Rightarrow> [])"

definition detail_from :: "json_value \<Rightarrow> detail" where
  "detail_from entry =
     (let tag = Option.bind (json_get ''type'' entry) as_str
      in if tag = Some ''field_violations''
         then FieldViolations (map (\<lambda>v. (text_under ''field'' v, text_under ''description'' v)) (list_under ''violations'' entry))
         else if tag = Some ''error_info''
         then ErrorInfo (text_under ''reason'' entry) (text_under ''domain'' entry)
                (case Option.bind (json_get ''metadata'' entry) as_object of
                   Some es \<Rightarrow> btree_of (List.map_filter (\<lambda>(k, v). map_option (Pair k) (as_str v)) es)
                 | None \<Rightarrow> [])
         else if tag = Some ''retry_after''
         then RetryAfter (case Option.bind (json_get ''seconds'' entry) as_u64 of Some n \<Rightarrow> of_nat n | None \<Rightarrow> 0) 0
         else if tag = Some ''help''
         then Help (map (\<lambda>l. (text_under ''description'' l, text_under ''url'' l)) (list_under ''links'' entry))
         else if tag = Some ''json''
         then DetailJson (case json_get ''value'' entry of Some val \<Rightarrow> val | None \<Rightarrow> SNull)
         else DetailJson entry)"

definition details_from :: "json_value \<Rightarrow> details" where
  "details_from val = (case val of SArray entries \<Rightarrow> map detail_from entries | _ \<Rightarrow> [])"

record error_in =
  ei_kind :: string
  ei_message :: string
  ei_details :: json_value

definition into_body :: "error_in \<Rightarrow> error_body" where
  "into_body e = \<lparr>eb_kind = kind_from_wire (ei_kind e), eb_message = ei_message e, eb_details = details_from (ei_details e)\<rparr>"

text \<open>
  The derived \<open>Deserialize\<close> of \<open>WireIn\<close>: a member it does not know is ignored, one written twice is refused, and an absent or
  null one is its default. Which of several errors is reported is left open.
\<close>

fun read_str :: "json_value \<Rightarrow> string + string" where
  "read_str (SString s) = Inr s"
| "read_str _ = Inl ''invalid type: expected a string''"

fun read_u64 :: "json_value \<Rightarrow> string + 64 word" where
  "read_u64 (SNumber _ (Some n) _) = Inr (of_nat n)"
| "read_u64 _ = Inl ''invalid type: expected u64''"

fun read_header_entries :: "(string \<times> json_value) list \<Rightarrow> string + call_headers" where
  "read_header_entries [] = Inr []"
| "read_header_entries ((name, v) # es) =
     (case read_str v of
        Inl e \<Rightarrow> Inl e
      | Inr val \<Rightarrow> (case read_header_entries es of Inl e \<Rightarrow> Inl e | Inr hs \<Rightarrow> Inr ((name, val) # hs)))"

fun read_headers :: "json_value \<Rightarrow> string + call_headers" where
  "read_headers (SObject es) = read_header_entries es"
| "read_headers SNull = Inr []"
| "read_headers _ = Inl ''invalid type: expected a map of header names to text values''"

fun read_error :: "json_value \<Rightarrow> string + error_in" where
  "read_error (SObject es) =
     (if \<not> distinct (filter (\<lambda>k. k \<in> {''kind'', ''message'', ''details''}) (map fst es)) then Inl ''duplicate field''
      else (case map_of es ''kind'' of
              None \<Rightarrow> Inl ''missing field kind''
            | Some kind \<Rightarrow>
                (case (read_str kind, case map_of es ''message'' of Some m \<Rightarrow> read_str m | None \<Rightarrow> Inr []) of
                   (Inr kind, Inr message) \<Rightarrow>
                     Inr \<lparr>ei_kind = kind, ei_message = message,
                          ei_details = (case map_of es ''details'' of Some v \<Rightarrow> json_of v | None \<Rightarrow> SNull)\<rparr>
                 | (Inl e, _) \<Rightarrow> Inl e
                 | (_, Inl e) \<Rightarrow> Inl e)))"
| "read_error _ = Inl ''invalid type: expected struct ErrorIn''"

record 'd wire_in =
  wi_t :: string
  wi_id :: "64 word option"
  wi_p :: "string option"
  wi_h :: "call_headers option"
  wi_d :: "'d option"
  wi_e :: "error_in option"
  wi_n :: "64 word option"

definition read_opt :: "('b, 'v, 'd) codec_ops \<Rightarrow> codec \<Rightarrow> (json_value \<Rightarrow> string + 'x) \<Rightarrow> 'v option \<Rightarrow> string + 'x option" where
  "read_opt ops c read m =
     (case m of
        None \<Rightarrow> Inr None
      | Some v \<Rightarrow> if cd_none ops c v then Inr None else map_sum id Some (read (cd_value ops c v)))"

definition read_payload :: "('b, 'v, 'd) codec_ops \<Rightarrow> codec \<Rightarrow> 'v option \<Rightarrow> string + 'd option" where
  "read_payload ops c m =
     (case m of
        None \<Rightarrow> Inr None
      | Some v \<Rightarrow> if cd_none ops c v then Inr None else map_sum id Some (cd_raw ops c v))"

definition wire_names :: "string list" where
  "wire_names = [''t'', ''id'', ''p'', ''h'', ''d'', ''e'', ''n'']"

definition read_wire :: "('b, 'v, 'd) codec_ops \<Rightarrow> codec \<Rightarrow> (string \<times> 'v) list \<Rightarrow> string + 'd wire_in" where
  "read_wire ops c ms =
     (if \<not> distinct (filter (\<lambda>k. k \<in> set wire_names) (map fst ms)) then Inl ''duplicate field''
      else (case map_of ms ''t'' of
              None \<Rightarrow> Inl ''missing field t''
            | Some t \<Rightarrow>
                (case (read_str (cd_value ops c t), read_opt ops c read_u64 (map_of ms ''id''), read_opt ops c read_str (map_of ms ''p''),
                       read_opt ops c read_headers (map_of ms ''h''), read_payload ops c (map_of ms ''d''),
                       read_opt ops c read_error (map_of ms ''e''), read_opt ops c read_u64 (map_of ms ''n'')) of
                   (Inr t, Inr ident, Inr p, Inr h, Inr d, Inr e, Inr n) \<Rightarrow>
                     Inr \<lparr>wi_t = t, wi_id = ident, wi_p = p, wi_h = h, wi_d = d, wi_e = e, wi_n = n\<rparr>
                 | _ \<Rightarrow> Inl ''invalid type'')))"

definition missing :: "string \<Rightarrow> string \<Rightarrow> string" where
  "missing kind field = ''a '' @ [CHR 0x60] @ kind @ [CHR 0x60] @ '' frame lacks '' @ [CHR 0x60] @ field @ [CHR 0x60]"

definition need :: "string \<Rightarrow> string \<Rightarrow> 'x option \<Rightarrow> ('x \<Rightarrow> string + 'y) \<Rightarrow> string + 'y" where
  "need kind field x f = (case x of None \<Rightarrow> Inl (missing kind field) | Some x \<Rightarrow> f x)"

definition into_frame :: "('d \<Rightarrow> string + string) \<Rightarrow> 'd wire_in \<Rightarrow> string + frame" where
  "into_frame data w =
     (let kind = wi_t w;
          headers = (case wi_h w of Some h \<Rightarrow> h | None \<Rightarrow> []);
          with_id = need kind ''id'' (wi_id w);
          with_p = need kind ''p'' (wi_p w);
          with_data = (\<lambda>f. case wi_d w of
                             None \<Rightarrow> Inr (f [])
                           | Some d \<Rightarrow> (case data d of Inl e \<Rightarrow> Inl e | Inr bytes \<Rightarrow> Inr (f bytes)))
      in if kind = ''req'' then with_id (\<lambda>i. with_p (\<lambda>p. with_data (FReq i p headers)))
         else if kind = ''evt'' then with_p (\<lambda>p. with_data (FEvt p headers))
         else if kind = ''res'' then with_id (\<lambda>i. with_data (FRes i))
         else if kind = ''err'' then with_id (\<lambda>i. need kind ''e'' (wi_e w) (\<lambda>e. Inr (FErr i (into_body e))))
         else if kind = ''item'' then with_id (\<lambda>i. with_data (FItem i))
         else if kind = [CHR ''e'', CHR ''n'', CHR ''d''] then with_id (\<lambda>i. Inr (FEnd i))
         else if kind = ''open'' then with_id (\<lambda>i. with_p (\<lambda>p. Inr (FOpen i p headers)))
         else if kind = ''in'' then with_id (\<lambda>i. with_data (FIn i))
         else if kind = ''in_end'' then with_id (\<lambda>i. Inr (FInEnd i))
         else if kind = ''cancel'' then with_id (\<lambda>i. Inr (FCancel i))
         else if kind = ''credit'' then with_id (\<lambda>i. need kind ''n'' (wi_n w) (\<lambda>n. Inr (FCredit i n)))
         else if kind = ''goaway'' then Inr FGoaway
         else Inl ([CHR 0x60] @ kind @ [CHR 0x60] @ '' is not a frame kind''))"

definition decode_frame :: "('b, 'v, 'd) codec_ops \<Rightarrow> codec \<Rightarrow> 'b \<Rightarrow> string + frame" where
  "decode_frame ops c bytes =
     (case cd_parse ops c bytes of
        Inl e \<Rightarrow> Inl e
      | Inr ms \<Rightarrow> (case read_wire ops c ms of Inl e \<Rightarrow> Inl e | Inr w \<Rightarrow> into_frame (cd_bytes ops c) w))"

end
