(* ===== verification/Spec2Isabelle.thy ===== *)
theory Spec2Isabelle
  imports Wire_Laws Redact_Laws Prepare_Laws Stage_Laws Router_Laws Queue_Laws Turns Tree_Laws
    Dotenv_Laws Codec_Laws
begin

text \<open>
  Verification of the \<open>ulo\<close> framework: the container's wiring core in \<open>crates/ulo\<close>, and the parts of the transport and
  configuration crates that decide what a running application does.

  \<^bold>\<open>The program.\<close> An application is a tree of modules. \<open>crates/ulo\<close> registers them, freezes what they wrote into a graph,
  checks the graph, and orders its singletons for construction. Transports mount the controllers' handlers: \<open>ulo-http\<close>
  routes requests to them through a stage of middleware and CORS, \<open>ulo-rpc\<close> carries frames over links into queues, and
  \<open>ulo-transport\<close> holds what they share. \<open>ulo-config\<close> reads the settings modules are built from.

  \<^bold>\<open>The model.\<close> A struct is a record, an enum a datatype with the source's constructors, a \<open>HashMap\<close> an association list or
  a map, a closure or a built value the number of its \<open>Arc\<close>. Functions that mutate take and return the state. A loop with
  no structural bound is \<^const>\<open>while_option\<close>, so that not ending is \<^const>\<open>None\<close>, and the laws show that it ends. The one
  fuel is that of the registration walk, since modules may make identities without end: as much fuel as there are
  identities is enough. A machine integer is a word where its width matters: the queue's counter, the
  ids of frames. The numbers of modules and bindings are naturals, so the wiring laws are those of graphs with fewer than
  \<open>2\<^sup>32\<close> of each, the width the code casts them to. Text is the Unicode code points below 256.

  \<^bold>\<open>Wiring\<close> (\<open>crates/ulo/src\<close>).
  \<^item> \<open>Ulo_Prelude\<close>: the rule for loops, list and text operations of the standard library, graphs as successor lists.
  \<^item> \<open>Keys\<close> (\<open>type_name.rs\<close>, \<open>key.rs\<close>, \<open>module/mod.rs\<close>), \<open>Records\<close> (\<open>dependency/\<close>, \<open>binding/\<close>, \<open>hooks.rs\<close>, \<open>timer.rs\<close>,
    \<open>module/def.rs\<close>, \<open>error/wiring.rs\<close>) and \<open>Graph_Model\<close> (\<open>graph/mod.rs\<close>): names, what registration writes, the frozen graph
    and its accessors, with the invariant that no accessor leaves its vector.
  \<^item> \<open>Registry_Walk\<close> and \<open>Registry_Laws\<close> (\<open>graph/register.rs\<close>): the walk over imports, replaced modules and lazy loads. It
    ends when the identities are finitely many, registers each once, links the imports in the order written, places
    every module once and numbers equal names.
  \<^item> \<open>Visibility\<close>, \<open>Visibility_Laws\<close> and \<open>Resolve_Laws\<close> (\<open>graph/visibility.rs\<close>): the tables agree with the sources of each key
    computed alone, the rounds over re-exports end complete, the dependency check is silent exactly when every
    injection point resolves, and the edges are exactly the reads that do.
  \<^item> \<open>Tarjan\<close> and \<open>Cycles\<close> (\<open>graph/cycles.rs\<close>): the algorithm returns exactly the strongly connected components; one genuine
    cycle is reported per cyclic component, and none exactly when the graph is acyclic. The locale \<open>tarjan_state\<close> holds
    the invariants and is interpreted on the algorithm's initial state.
  \<^item> \<open>Collection_Order\<close> and \<open>Connect_Order\<close> (\<open>graph/order.rs\<close>): the collection order is the list a recursive reference
    walk, \<open>dfs\<close>, gives; the construction order is complete, respects every wait and always takes the smallest binding
    ready. The locale \<open>min_queue\<close> is the heap's contract, interpreted on the model's heap.
  \<^item> \<open>Scopes\<close> and \<open>Scope_Laws\<close> (\<open>graph/scopes.rs\<close>): the needs-execution pass computes the least fixed point, a refusal's path
    leads to a read of execution data or to a binding built per execution, and past the check nothing built once needs
    an execution.
  \<^item> \<open>Wire\<close>, \<open>Freeze_Laws\<close>, \<open>Closure_Laws\<close> and \<open>Wire_Laws\<close> (\<open>graph/wire.rs\<close>): the freeze of the registry into a graph, the overrides of
    a test's plan, the six steps of checks in their order, \<open>wire\<close> and \<open>wire_lazy\<close>. The laws compose the parts above: the freeze
    keeps every number in range, each check returns and only adds errors, so \<open>wire\<close> always answers, and a graph it returns
    has everything the checks stand for. \<open>wire_lazy\<close> is modelled whole; no law is stated of it.
  \<^item> \<open>Redact\<close> and \<open>Redact_Laws\<close> (\<open>redact.rs\<close>): secrets are cut out of every text, the longest first, no reported URL
    shows its userinfo, and the userinfo of a URL in prose is exchanged for the marker unless it holds a character at
    which the strip ends the authority, a quote among them.

  \<^bold>\<open>HTTP\<close> (\<open>crates/ulo-http/src\<close>).
  \<^item> \<open>Route_Pattern\<close> and \<open>Route_Laws\<close> (\<open>router/pattern.rs\<close>): parsing, matching and precedence; a scope covers or overlaps a
    route exactly when the paths say so. Percent decoding is a parameter, and the laws of scopes, stages and routes are
    those of patterns written without a percent escape: a static segment matches raw or decoded and is compared decoded.
  \<^item> \<open>Pre_Dispatch\<close> and \<open>Stage_Laws\<close> (\<open>pre_dispatch.rs\<close>), \<open>Cors\<close> (\<open>cors.rs\<close>): which middleware runs, on which paths, and in
    what order, whether an entry passes the request on, rewrites it, answers or fails; and that a CORS answer never allows an origin not configured, as long as the rest of the stage sets no such header itself.
  \<^item> \<open>Router\<close> and \<open>Router_Laws\<close> (\<open>router/mod.rs\<close>, \<open>handler.rs\<close>, \<open>limits.rs\<close>, \<open>malformed\<close> of \<open>service.rs\<close>): the most specific
    entry answers, and a handler on a route without a rest segment, written in the characters of a path and without dot
    segments, is found for a path that is not refused before routing.

  \<^bold>\<open>Transports\<close> (\<open>crates/ulo-transport/src\<close>, \<open>crates/ulo-rpc/src\<close>).
  \<^item> \<open>Prepare\<close> and \<open>Prepare_Laws\<close> (\<open>prepare.rs\<close>, \<open>count.rs\<close>, the core's \<open>error/configure.rs\<close>): what a failed start reports.
  \<^item> \<open>Item_Queue\<close> and \<open>Queue_Laws\<close> (\<open>queue.rs\<close>): each operation as its atomic steps, any number of producers interleaved with
    the reader by \<open>q_step\<close>. What is seen of a run, event for event, is accepted by a bounded FIFO, the bound holds and the
    counter is exact and does not wrap as long as the limit, the finishes and the producers fit the word. The channel
    is a parameter that keeps the order of its items and may answer that it is pending while it holds some.
  \<^item> \<open>Turns\<close> (\<open>turns.rs\<close>): a task's poll and any number of turns as atomic steps on the slot. A turn is followed by a
    poll unless it gave way to another turn or to the second poll of the task's loop, and both losses do occur.
  \<^item> \<open>Rpc_Codec\<close> and \<open>Codec_Laws\<close> (\<open>frame.rs\<close>, \<open>codec.rs\<close>, \<open>details.rs\<close>): a frame decodes to itself in both codecs
    when its payload is not null, its delays are whole seconds and the codec gives its JSON details back. What \<open>serde_json\<close>
    and \<open>ciborium\<close> write and read of a map is a parameter.

  \<^bold>\<open>Configuration\<close> (\<open>crates/ulo-config/src\<close>).
  \<^item> \<open>Config_Tree\<close> and \<open>Tree_Laws\<close> (\<open>tree.rs\<close>): overlay, the write and the read at a path; a leaf's listed path reads back
    when no key holds a dot or a bracket.
  \<^item> \<open>Dotenv\<close> and \<open>Dotenv_Laws\<close> (\<open>format/dotenv.rs\<close>, \<open>problems.rs\<close>): the reader, and the round trip with a reference writer.
  \<^item> \<open>Config_Formats\<close> and \<open>Yaml_Format\<close> (\<open>format/\<close>): positions, and the trees built of what the parsers return.
  \<^item> \<open>Config_Load\<close> and \<open>Config_Laws\<close> (\<open>source.rs\<close>, \<open>config.rs\<close>, \<open>module.rs\<close>): the last source to say anything about a path
    decides it, and no loaded table holds a key twice, as long as no mapping of a YAML file has two keys of one text.
  \<^item> \<open>Serde_Values\<close>: JSON values and ordered maps, shared with the codec.

  \<^bold>\<open>Not modelled.\<close> The container's construction of values, the lifecycle and the pipeline of guards and interceptors run the
  application's futures; the HTTP service around the router, the RPC client, server and dispatch, the WebSocket and gRPC transports, the links to brokers,
  the runtimes, listeners and servers are tasks and I/O against other libraries; the configuration deserializer is
  driven by serde's generated visitors; the macros rewrite syntax at compile time; the database, GraphQL, health and
  telemetry crates bridge to drivers and engines. What these rely on of the parts above is what the laws state.
\<close>

end
